(* ===== verification/CoroPrelude.thy ===== *)
theory CoroPrelude
  imports Main "HOL-Library.Word"
begin

text \<open>
  The prelude of the CoroRPC development: the machine types the C++ sources use, the
  object representation of an unsigned integer on the target platform (Linux x86-64,
  little-endian), the byte-level primitives the two protocol files are built from, and the
  generic notions the component theories share: reachability of a step relation, the
  invariant rule as a locale, and list facts about buffers.

  Conventions of the whole development:
  \<^item> \<open>std::string\<close>, \<open>std::string_view\<close> and \<open>char[]\<close> are \<^typ>\<open>string\<close>: a HOL \<^typ>\<open>char\<close> is
    one of 256 byte values, like a C++ \<open>char\<close>;
  \<^item> \<open>std::uint16_t\<close>, \<open>std::uint32_t\<close>, \<open>std::uint64_t\<close> are words, so \<open>+\<close>, \<open>-\<close>, \<open>*\<close> wrap;
  \<^item> \<open>std::size_t\<close> values that count objects in memory are \<^typ>\<open>nat\<close>; every subtraction on
    them is shown not to go below zero where the result depends on it;
  \<^item> a function that reports failure through \<open>bool\<close> and an error string returns a sum,
    \<^term>\<open>Inl msg\<close> for the failure with the message the code stores.
\<close>

unbundle bit_operations_syntax

type_synonym u8 = "8 word"
type_synonym u16 = "16 word"
type_synonym u32 = "32 word"
type_synonym u64 = "64 word"

named_theorems codec_simps "length and round-trip equations of the byte-level encoders"
named_theorems model_defs "definitions that component proofs unfold together"

section \<open>Reachable states and invariants\<close>

inductive reach :: "('s \<Rightarrow> bool) \<Rightarrow> ('s \<Rightarrow> 's \<Rightarrow> bool) \<Rightarrow> 's \<Rightarrow> bool" for init step where
  reach_init: "init s \<Longrightarrow> reach init step s"
| reach_step: "reach init step s \<Longrightarrow> step s t \<Longrightarrow> reach init step t"

text \<open>
  The invariant rule. A component interprets this locale once, with its start states, its
  step relation and its invariant; every safety property of the component is then an
  instance of \<open>reach_inv\<close>.
\<close>

locale invariant_system =
  fixes init :: "'s \<Rightarrow> bool"
    and step :: "'s \<Rightarrow> 's \<Rightarrow> bool"
    and inv :: "'s \<Rightarrow> bool"
  assumes init_inv: "init s \<Longrightarrow> inv s"
    and step_inv: "inv s \<Longrightarrow> step s t \<Longrightarrow> inv t"
begin

lemma reach_inv: "reach init step s \<Longrightarrow> inv s"
  by (induction rule: reach.induct) (auto intro: init_inv step_inv)

lemma steps_inv: "step\<^sup>*\<^sup>* s t \<Longrightarrow> inv s \<Longrightarrow> inv t"
  by (induction rule: rtranclp_induct) (auto intro: step_inv)

end

lemma reach_steps: "reach init step s \<Longrightarrow> step\<^sup>*\<^sup>* s t \<Longrightarrow> reach init step t"
  by (rotate_tac, induction rule: rtranclp_induct) (auto intro: reach.reach_step)

lemma reach_eq_step: "reach i st s \<Longrightarrow> st s t \<Longrightarrow> t = u \<Longrightarrow> reach i st u"
  by (simp add: reach.reach_step)

section \<open>Integers in memory\<close>

text \<open>
  \<open>store_le v\<close> is what \<open>std::memcpy(out, &v, sizeof(v))\<close> writes on a little-endian machine,
  \<open>load_le s\<close> the value \<open>std::memcpy(&v, s, sizeof(v))\<close> reads.
\<close>

definition store_le :: "'a::len word \<Rightarrow> string" where
  "store_le w = map (\<lambda>i. char_of (unat (drop_bit (8 * i) w))) [0..<LENGTH('a) div 8]"

definition load_le :: "string \<Rightarrow> 'a::len word" where
  "load_le s = foldr (\<lambda>c acc. of_char c OR push_bit 8 acc) s 0"

text \<open>\<open>__builtin_bswap16\<close>, \<open>32\<close> and \<open>64\<close>: the bytes of the representation reversed.\<close>

definition bswap :: "'a::len word \<Rightarrow> 'a word" where
  "bswap w = load_le (rev (store_le w))"

lemma bit_of_char_word:
  "bit (of_char c :: 'a::len word) n \<longleftrightarrow> n < LENGTH('a) \<and> bit (of_char c :: nat) n"
proof -
  have "(of_char c :: 'a word) = of_nat (of_char c)" by (simp only: of_nat_of_char)
  then show ?thesis by (simp add: bit_of_nat_iff)
qed

lemma of_char_nat_less: "(of_char c :: nat) < 256"
  using of_char_of [where 'a = nat, of "of_char c"]
  by (metis char_of_char mod_less_divisor zero_less_numeral)

lemma bit_of_char_nat_ge: "8 \<le> n \<Longrightarrow> \<not> bit (of_char c :: nat) n"
proof -
  assume n: "8 \<le> n"
  have "take_bit 8 (of_char c :: nat) = of_char c"
    using of_char_nat_less by (simp add: take_bit_eq_mod)
  with n show ?thesis by (metis bit_take_bit_iff not_le)
qed

lemma bit_load_le:
  "bit (load_le s :: 'a::len word) n \<longleftrightarrow>
     n < LENGTH('a) \<and> n div 8 < length s \<and> bit (of_char (s ! (n div 8)) :: nat) (n mod 8)"
proof (induction s arbitrary: n)
  case Nil
  then show ?case by (simp add: load_le_def)
next
  case (Cons c s)
  have eq: "(load_le (c # s) :: 'a word) = of_char c OR push_bit 8 (load_le s)"
    by (simp add: load_le_def)
  show ?case
  proof (cases "n < 8")
    case True
    then show ?thesis by (simp add: eq bit_or_iff bit_push_bit_iff bit_of_char_word)
  next
    case False
    then have "n = (n - 8) + 8" by simp
    then obtain m where m: "n = m + 8" by blast
    then have "n div 8 = Suc (m div 8)" by simp
    with m show ?thesis
      by (auto simp: eq bit_or_iff bit_push_bit_iff bit_of_char_word bit_of_char_nat_ge Cons.IH
            dest: bit_imp_le_length)
  qed
qed

lemma length_store_le [simp, codec_simps]:
  "length (store_le (w :: 'a::len word)) = LENGTH('a) div 8"
  by (simp add: store_le_def)

lemma load_store_le:
  assumes "8 dvd LENGTH('a)"
  shows "load_le (store_le w) = (w :: 'a::len word)"
proof (rule bit_word_eqI)
  fix n assume n: "n < LENGTH('a)"
  have "n div 8 < LENGTH('a) div 8"
    using assms n by (auto elim: dvdE simp: less_mult_imp_div_less mult.commute)
  then show "bit (load_le (store_le w) :: 'a word) n = bit w n"
    using n
    by (simp add: bit_load_le store_le_def flip: take_bit_eq_mod [where n = 8, simplified])
       (simp add: bit_simps unat_drop_bit_eq)
qed

lemma store_load_le:
  assumes "8 dvd LENGTH('a)" and "length s = LENGTH('a::len) div 8"
  shows "store_le (load_le s :: 'a word) = s"
proof (rule nth_equalityI)
  show "length (store_le (load_le s :: 'a word)) = length s" by (simp add: assms)
next
  fix i assume "i < length (store_le (load_le s :: 'a word))"
  then have i: "i < length s" by (simp add: assms)
  have "of_char (store_le (load_le s :: 'a word) ! i) = (of_char (s ! i) :: nat)"
  proof (rule bit_eqI)
    fix n
    have "n < 8 \<Longrightarrow> 8 * i + n < LENGTH('a)" using i assms by (auto elim: dvdE)
    then show "bit (of_char (store_le (load_le s :: 'a word) ! i) :: nat) n
        = bit (of_char (s ! i) :: nat) n"
      using i assms(2) bit_of_char_nat_ge [of n "s ! i"]
      by (cases "n < 8")
         (auto simp: store_le_def unat_drop_bit_eq bit_simps bit_load_le
           simp flip: take_bit_eq_mod [where n = 8, simplified])
  qed
  then show "store_le (load_le s :: 'a word) ! i = s ! i"
    by (metis char_of_char)
qed

text \<open>The composition used by every \<open>Put\<close>: swap, then copy, is the big-endian representation.\<close>

lemma store_bswap:
  "8 dvd LENGTH('a) \<Longrightarrow> store_le (bswap (w :: 'a::len word)) = rev (store_le w)"
  by (simp add: bswap_def store_load_le)

lemma bswap_load:
  assumes "8 dvd LENGTH('a)" and "length s = LENGTH('a::len) div 8"
  shows "bswap (load_le s :: 'a word) = load_le (rev s)"
  by (simp add: bswap_def store_load_le assms)

section \<open>Writing into a character array\<close>

text \<open>\<open>std::memcpy(dst + off, src, src.size())\<close> on an array long enough.\<close>

definition memcpy_at :: "nat \<Rightarrow> 'a list \<Rightarrow> 'a list \<Rightarrow> 'a list" where
  "memcpy_at off src dst = take off dst @ src @ drop (off + length src) dst"

lemma length_memcpy_at [simp]:
  "off + length src \<le> length dst \<Longrightarrow> length (memcpy_at off src dst) = length dst"
  by (simp add: memcpy_at_def)

text \<open>
  The three equations that turn a sequence of writes at increasing offsets into the
  concatenation of what is written.
\<close>

lemma memcpy_at_zero [codec_simps]:
  "length src \<le> n \<Longrightarrow> memcpy_at 0 src (replicate n z) = src @ replicate (n - length src) z"
  by (simp add: memcpy_at_def)

lemma memcpy_at_append [codec_simps]:
  "length pre \<le> off \<Longrightarrow> memcpy_at off src (pre @ rest) = pre @ memcpy_at (off - length pre) src rest"
  by (auto simp: memcpy_at_def le_iff_add add.assoc)

lemma memcpy_at_Cons [codec_simps]:
  "0 < off \<Longrightarrow> memcpy_at off src (x # rest) = x # memcpy_at (off - 1) src rest"
  by (cases off) (simp_all add: memcpy_at_def)

lemma take_memcpy_at_before [simp]:
  "n \<le> off \<Longrightarrow> off \<le> length dst \<Longrightarrow> take n (memcpy_at off src dst) = take n dst"
  by (simp add: memcpy_at_def)

lemma take_memcpy_at_through [simp]:
  "off \<le> length dst \<Longrightarrow> n = off + length src \<Longrightarrow>
     take n (memcpy_at off src dst) = take off dst @ src"
  by (simp add: memcpy_at_def)

section \<open>Fixed-width fields\<close>

text \<open>
  The interface of a fixed-width field: what is written can be read back in front of any
  following bytes, and every sufficiently long input starts with the encoding of what is
  read from it. Both protocol layers (the frame header and the metadata envelope) use only
  these laws of their integer fields.
\<close>

locale field_codec =
  fixes put :: "'a \<Rightarrow> string"
    and get :: "string \<Rightarrow> 'a"
    and width :: nat
  assumes length_put: "length (put v) = width"
    and get_put: "get (put v @ rest) = v"
    and put_get: "width \<le> length s \<Longrightarrow> put (get s) = take width s"
begin

lemma put_inj: "put a = put b \<longleftrightarrow> a = b"
  by (metis append_Nil2 get_put)

lemma get_append: "width \<le> length s \<Longrightarrow> get (s @ t) = get s"
  by (metis append.assoc append_take_drop_id get_put put_get)

lemma get_drop: "n = length pre \<Longrightarrow> get (drop n (pre @ put v @ rest)) = v"
  by (simp add: get_put)

lemma take_drop_put:
  "n + width \<le> length s \<Longrightarrow> take width (drop n s) = put (get (drop n s))"
  by (simp add: put_get)

lemma get_eq_iff: "width \<le> length s \<Longrightarrow> get s = v \<longleftrightarrow> take width s = put v"
  by (metis put_get put_inj)

end

section \<open>Lists used as buffers and queues\<close>

lemma take_drop_append_split:
  "a + b \<le> length xs \<Longrightarrow> take (a + b) xs = take a xs @ take b (drop a xs)"
  by (simp add: take_add)

lemma sum_list_map_filter_le_nat:
  "sum_list (map f (filter P xs)) \<le> sum_list (map (f :: 'a \<Rightarrow> nat) xs)"
  by (induction xs) auto

end
