(* ===== verification/RpcMetadata.thy ===== *)
theory RpcMetadata
  imports CoroPrelude
begin

text \<open>
  The request metadata envelope, \<open>protocol/rpc_metadata.h\<close> and \<open>.cpp\<close>: a 28-byte header
  (magic, timeout and four field lengths, big-endian) followed by the four fields.
  \<open>RequestMetadata\<close> and \<open>RequestMetadataView\<close> hold the same values, owned or borrowed, and
  are one record here; the two overloads of \<open>EncodeRequestMetadata\<close> and the owning
  \<open>DecodeRequestMetadata\<close> are the same function on it. \<open>std::size_t\<close> sums of four lengths
  below \<open>2^16\<close> do not wrap.

  The lemmas: the encoder and decoder are inverse to each other in both directions, the
  decoder accepts exactly the envelopes the encoder writes, with anything after them.
\<close>

section \<open>Integer fields\<close>

definition PutU32 :: "u32 \<Rightarrow> string" where
  "PutU32 value = (let encoded = bswap value in store_le encoded)"

definition PutU64 :: "u64 \<Rightarrow> string" where
  "PutU64 value = (let encoded = bswap value in store_le encoded)"

definition GetU32 :: "string \<Rightarrow> u32" where
  "GetU32 data = (let encoded = load_le (take 4 data) in bswap encoded)"

definition GetU64 :: "string \<Rightarrow> u64" where
  "GetU64 data = (let encoded = load_le (take 8 data) in bswap encoded)"

interpretation u32_field: field_codec PutU32 GetU32 4
  by unfold_locales
    (simp_all add: PutU32_def GetU32_def Let_def store_bswap bswap_load store_load_le load_store_le)

interpretation u64_field: field_codec PutU64 GetU64 8
  by unfold_locales
    (simp_all add: PutU64_def GetU64_def Let_def store_bswap bswap_load store_load_le load_store_le)

lemmas field_lengths [simp, codec_simps] = u32_field.length_put u64_field.length_put

section \<open>The envelope\<close>

record RequestMetadata =
  service :: string
  method_name :: string
  idempotency_key :: string
  application_metadata :: string
  timeout_ms :: u64

definition kMetadataMagic :: string where
  "kMetadataMagic = [CHR ''R'', CHR ''M'', CHR ''1'', CHR 0x00]"

definition kHeaderSize :: nat where
  "kHeaderSize = 4 + 8 + 4 * 4"

definition kMaxFieldSize :: nat where
  "kMaxFieldSize = 64 * 1024"

definition CheckField :: "string \<Rightarrow> string + unit" where
  "CheckField v = (if length v \<le> kMaxFieldSize then Inr () else Inl ''metadata field exceeds limit'')"

definition RequestMetadataEncodedSize :: "RequestMetadata \<Rightarrow> string + nat" where
  "RequestMetadataEncodedSize metadata =
     (if CheckField (service metadata) \<noteq> Inr () \<or> CheckField (method_name metadata) \<noteq> Inr () \<or>
         CheckField (idempotency_key metadata) \<noteq> Inr () \<or>
         CheckField (application_metadata metadata) \<noteq> Inr ()
      then Inl ''metadata field exceeds limit''
      else let total = kHeaderSize + length (service metadata) + length (method_name metadata) +
                       length (idempotency_key metadata) + length (application_metadata metadata)
           in if total > 2 ^ 32 - 1 then Inl ''metadata exceeds protocol limit'' else Inr total)"

definition metadata_header :: "RequestMetadata \<Rightarrow> string" where
  "metadata_header metadata =
     (let header = replicate kHeaderSize (CHR 0x00);
          header = memcpy_at 0 kMetadataMagic header;
          header = memcpy_at 4 (PutU64 (timeout_ms metadata)) header;
          header = memcpy_at 12 (PutU32 (of_nat (length (service metadata)))) header;
          header = memcpy_at 16 (PutU32 (of_nat (length (method_name metadata)))) header;
          header = memcpy_at 20 (PutU32 (of_nat (length (idempotency_key metadata)))) header
      in memcpy_at 24 (PutU32 (of_nat (length (application_metadata metadata)))) header)"

definition AppendRequestMetadata :: "RequestMetadata \<Rightarrow> string \<Rightarrow> string + string" where
  "AppendRequestMetadata metadata output =
     (case RequestMetadataEncodedSize metadata of
        Inl e \<Rightarrow> Inl e
      | Inr _ \<Rightarrow> Inr (output @ metadata_header metadata @ service metadata @ method_name metadata @
                       idempotency_key metadata @ application_metadata metadata))"

definition EncodeRequestMetadata :: "RequestMetadata \<Rightarrow> string + string" where
  "EncodeRequestMetadata metadata =
     (case RequestMetadataEncodedSize metadata of
        Inl e \<Rightarrow> Inl e
      | Inr _ \<Rightarrow> AppendRequestMetadata metadata [])"

definition DecodeRequestMetadataView :: "string \<Rightarrow> string + RequestMetadata" where
  "DecodeRequestMetadataView input =
     (if length input < kHeaderSize \<or> take 4 input \<noteq> kMetadataMagic
      then Inl ''missing RPC metadata envelope''
      else
        let timeout = GetU64 (drop 4 input);
            service_size = unat (GetU32 (drop 12 input));
            method_size = unat (GetU32 (drop 16 input));
            key_size = unat (GetU32 (drop 20 input));
            application_size = unat (GetU32 (drop 24 input));
            fields_size = service_size + method_size + key_size + application_size
        in if service_size > kMaxFieldSize \<or> method_size > kMaxFieldSize \<or>
              key_size > kMaxFieldSize \<or> application_size > kMaxFieldSize \<or>
              fields_size > length input - kHeaderSize
           then Inl ''invalid RPC metadata envelope''
           else Inr \<lparr>service = take service_size (drop kHeaderSize input),
                     method_name = take method_size (drop (kHeaderSize + service_size) input),
                     idempotency_key =
                       take key_size (drop (kHeaderSize + service_size + method_size) input),
                     application_metadata =
                       take application_size
                         (drop (kHeaderSize + service_size + method_size + key_size) input),
                     timeout_ms = timeout\<rparr>)"

section \<open>Layout\<close>

lemma kMetadataMagic_length [simp]: "length kMetadataMagic = 4"
  by (simp add: kMetadataMagic_def)

lemma metadata_header_layout:
  "metadata_header m = kMetadataMagic @ PutU64 (timeout_ms m) @ PutU32 (of_nat (length (service m))) @
     PutU32 (of_nat (length (method_name m))) @ PutU32 (of_nat (length (idempotency_key m))) @
     PutU32 (of_nat (length (application_metadata m)))"
  by (simp add: metadata_header_def kHeaderSize_def codec_simps)

lemma length_metadata_header [simp]: "length (metadata_header m) = 28"
  by (simp add: metadata_header_layout)

definition metadata_fits :: "RequestMetadata \<Rightarrow> bool" where
  "metadata_fits m \<longleftrightarrow> length (service m) \<le> kMaxFieldSize \<and> length (method_name m) \<le> kMaxFieldSize \<and>
     length (idempotency_key m) \<le> kMaxFieldSize \<and> length (application_metadata m) \<le> kMaxFieldSize"

definition metadata_bytes :: "RequestMetadata \<Rightarrow> string" where
  "metadata_bytes m = metadata_header m @ service m @ method_name m @ idempotency_key m @
     application_metadata m"

lemma EncodedSize_cases:
  "RequestMetadataEncodedSize m =
     (if metadata_fits m then Inr (length (metadata_bytes m)) else Inl ''metadata field exceeds limit'')"
  by (auto simp: RequestMetadataEncodedSize_def CheckField_def metadata_fits_def metadata_bytes_def
        kHeaderSize_def kMaxFieldSize_def Let_def)

lemma Append_cases:
  "AppendRequestMetadata m out =
     (if metadata_fits m then Inr (out @ metadata_bytes m) else Inl ''metadata field exceeds limit'')"
  by (simp add: AppendRequestMetadata_def EncodedSize_cases metadata_bytes_def)

lemma Encode_cases:
  "EncodeRequestMetadata m =
     (if metadata_fits m then Inr (metadata_bytes m) else Inl ''metadata field exceeds limit'')"
  by (simp add: EncodeRequestMetadata_def EncodedSize_cases Append_cases)

section \<open>Round trips\<close>

lemma Decode_bytes:
  assumes "metadata_fits m"
  shows "DecodeRequestMetadataView (metadata_bytes m @ rest) = Inr m"
proof -
  have sizes: "unat (of_nat (length v) :: u32) = length v" if "length v \<le> kMaxFieldSize" for v :: string
    using that by (simp add: unat_of_nat kMaxFieldSize_def)
  let ?in = "metadata_bytes m @ rest"
  have len: "length ?in = 28 + (length (service m) + length (method_name m) + length (idempotency_key m)
      + length (application_metadata m)) + length rest"
    by (simp add: metadata_bytes_def)
  have gets: "GetU64 (drop 4 ?in) = timeout_ms m"
    "GetU32 (drop 12 ?in) = of_nat (length (service m))"
    "GetU32 (drop 16 ?in) = of_nat (length (method_name m))"
    "GetU32 (drop 20 ?in) = of_nat (length (idempotency_key m))"
    "GetU32 (drop 24 ?in) = of_nat (length (application_metadata m))"
    by (simp_all add: metadata_bytes_def metadata_header_layout u32_field.get_put u64_field.get_put)
  have magic: "take 4 ?in = kMetadataMagic"
    by (simp add: metadata_bytes_def metadata_header_layout)
  from assms show ?thesis
    unfolding DecodeRequestMetadataView_def gets magic metadata_fits_def
    by (simp add: sizes len Let_def kHeaderSize_def) (simp add: metadata_bytes_def)
qed

lemma drop_field: "drop n s = take k (drop n s) @ drop (n + k) s"
  by (metis append_take_drop_id drop_drop add.commute)

lemma Decode_prefix:
  assumes "DecodeRequestMetadataView s = Inr m"
  shows "metadata_fits m \<and> s = metadata_bytes m @ drop (length (metadata_bytes m)) s"
proof -
  define a where "a = unat (GetU32 (drop 12 s))"
  define b where "b = unat (GetU32 (drop 16 s))"
  define c where "c = unat (GetU32 (drop 20 s))"
  define d where "d = unat (GetU32 (drop 24 s))"
  from assms have len: "28 \<le> length s" and magic: "take 4 s = kMetadataMagic"
    and fit: "a \<le> kMaxFieldSize" "b \<le> kMaxFieldSize" "c \<le> kMaxFieldSize" "d \<le> kMaxFieldSize"
      "a + b + c + d \<le> length s - 28"
    and m: "m = \<lparr>service = take a (drop 28 s), method_name = take b (drop (28 + a) s),
        idempotency_key = take c (drop (28 + a + b) s),
        application_metadata = take d (drop (28 + a + b + c) s), timeout_ms = GetU64 (drop 4 s)\<rparr>"
    by (auto simp: DecodeRequestMetadataView_def Let_def a_def b_def c_def d_def kHeaderSize_def
          split: if_splits)
  have lens: "length (service m) = a" "length (method_name m) = b" "length (idempotency_key m) = c"
    "length (application_metadata m) = d"
    using len fit by (simp_all add: m)
  have hdr: "metadata_header m = take 28 s"
  proof -
    have "metadata_header m = take 4 s @ take 8 (drop 4 s) @ take 4 (drop 12 s) @ take 4 (drop 16 s) @
        take 4 (drop 20 s) @ take 4 (drop 24 s)"
      using len unfolding metadata_header_layout lens
      by (simp add: magic a_def b_def c_def d_def m u32_field.put_get u64_field.put_get)
    also have "\<dots> = take 28 s"
      using take_add [of 4 "8 + 4 + 4 + 4 + 4" s] take_add [of 8 "4 + 4 + 4 + 4" "drop 4 s"]
        take_add [of 4 "4 + 4 + 4" "drop 12 s"] take_add [of 4 "4 + 4" "drop 16 s"]
        take_add [of 4 4 "drop 20 s"] by simp
    finally show ?thesis .
  qed
  have "s = take 28 s @ drop 28 s" by simp
  also have "drop 28 s = service m @ drop (28 + a) s"
    unfolding m by (simp add: drop_field [of 28 s a, symmetric])
  also have "drop (28 + a) s = method_name m @ drop (28 + a + b) s"
    unfolding m by (simp add: drop_field [of "28 + a" s b, symmetric])
  also have "drop (28 + a + b) s = idempotency_key m @ drop (28 + a + b + c) s"
    unfolding m by (simp add: drop_field [of "28 + a + b" s c, symmetric])
  also have "drop (28 + a + b + c) s = application_metadata m @ drop (28 + a + b + c + d) s"
    unfolding m by (simp add: drop_field [of "28 + a + b + c" s d, symmetric])
  finally have "s = metadata_bytes m @ drop (28 + a + b + c + d) s"
    by (simp add: metadata_bytes_def hdr)
  moreover have "length (metadata_bytes m) = 28 + a + b + c + d"
    by (simp add: metadata_bytes_def lens)
  moreover have "metadata_fits m"
    using fit by (simp add: metadata_fits_def lens)
  ultimately show ?thesis by simp
qed

text \<open>
  C12. Whatever the metadata encoder writes, the decoder reads back unchanged, also when more
  bytes follow it in the buffer.
\<close>

theorem metadata_roundtrip:
  "EncodeRequestMetadata m = Inr bs \<Longrightarrow> DecodeRequestMetadataView (bs @ rest) = Inr m"
  by (auto simp: Encode_cases Decode_bytes split: if_splits)

theorem metadata_roundtrip_witness:
  "DecodeRequestMetadataView
     (metadata_bytes \<lparr>service = ''EchoService'', method_name = ''Echo'', idempotency_key = ''k1'',
        application_metadata = [], timeout_ms = 5000\<rparr> @ ''tail'')
   = Inr \<lparr>service = ''EchoService'', method_name = ''Echo'', idempotency_key = ''k1'',
        application_metadata = [], timeout_ms = 5000\<rparr>"
  by (rule metadata_roundtrip) (simp add: Encode_cases metadata_fits_def kMaxFieldSize_def)

text \<open>
  C13. The decoder accepts nothing else: an accepted input is the encoding of the decoded
  metadata, which the encoder would write, followed by ignored bytes. In particular no field
  reaches outside the input.
\<close>

theorem metadata_decode_canonical:
  "DecodeRequestMetadataView input = Inr m \<Longrightarrow>
     \<exists>bs rest. EncodeRequestMetadata m = Inr bs \<and> input = bs @ rest"
  using Decode_prefix [of input m] by (auto simp: Encode_cases)

theorem metadata_decode_canonical_witness:
  "\<exists>bs rest. EncodeRequestMetadata
       \<lparr>service = ''S'', method_name = ''M'', idempotency_key = [], application_metadata = ''x'',
        timeout_ms = 7\<rparr> = Inr bs
     \<and> metadata_bytes \<lparr>service = ''S'', method_name = ''M'', idempotency_key = [],
          application_metadata = ''x'', timeout_ms = 7\<rparr> @ ''zz'' = bs @ rest"
  by (rule metadata_decode_canonical)
     (simp add: Decode_bytes metadata_fits_def kMaxFieldSize_def)

end
