(* ===== verification/Frame.thy ===== *)
theory Frame
  imports RpcMetadata
begin

text \<open>
  The frame layer of the wire protocol, encoder side: \<open>protocol/frame.h\<close> and the first half of
  \<open>protocol/frame.cpp\<close>. A frame is a 32-byte big-endian header followed by the metadata and
  the body. \<open>MessageType\<close> is an \<open>enum class : std::uint8_t\<close> that the decoder casts from a
  byte of the input, so it is its underlying word with named constants. \<open>Frame\<close> and
  \<open>FrameView\<close> hold the same values and are one record.

  The lemmas give the header layout, the inverse of the header writer on the fields the
  decoder reads, and the equivalence of the single-pass \<open>EncodeRequest\<close> with encoding the
  metadata first and framing it second.
\<close>

definition kMagic :: u32 where "kMagic = 0x52504352"
definition kVersion :: u16 where "kVersion = 1"
definition kFixedHeaderSize :: u16 where "kFixedHeaderSize = 32"

type_synonym MessageType = u8

definition REQUEST :: MessageType where "REQUEST = 1"
definition RESPONSE :: MessageType where "RESPONSE = 2"
definition CANCEL :: MessageType where "CANCEL = 3"
definition PING :: MessageType where "PING = 4"
definition PONG :: MessageType where "PONG = 5"

lemmas message_types = REQUEST_def RESPONSE_def CANCEL_def PING_def PONG_def

record FrameHeader =
  flags :: u32
  message_type :: MessageType
  request_id :: u64

record Frame =
  header :: FrameHeader
  metadata :: string
  body :: string

definition PutU16 :: "u16 \<Rightarrow> string" where
  "PutU16 value = (let encoded = bswap value in store_le encoded)"

definition GetU16 :: "string \<Rightarrow> u16" where
  "GetU16 data = (let encoded = load_le (take 2 data) in bswap encoded)"

interpretation u16_field: field_codec PutU16 GetU16 2
  by unfold_locales
    (simp_all add: PutU16_def GetU16_def Let_def store_bswap bswap_load store_load_le load_store_le)

lemmas u16_length [simp, codec_simps] = u16_field.length_put

text \<open>\<open>BuildHeader\<close> writes into an array of \<open>kFixedHeaderSize\<close> characters.\<close>

definition BuildHeader :: "string \<Rightarrow> u32 \<Rightarrow> MessageType \<Rightarrow> u64 \<Rightarrow> u32 \<Rightarrow> u32 \<Rightarrow> string" where
  "BuildHeader out fl type rid metadata_size body_size =
     (let out = memcpy_at 0 (PutU32 kMagic) out;
          out = memcpy_at 4 (PutU16 kVersion) out;
          out = memcpy_at 6 (PutU16 kFixedHeaderSize) out;
          out = memcpy_at 8 (PutU32 fl) out;
          out = out[12 := char_of (unat type)];
          out = out[13 := CHR 0x00];
          out = out[14 := CHR 0x00];
          out = out[15 := CHR 0x00];
          out = memcpy_at 16 (PutU64 rid) out;
          out = memcpy_at 24 (PutU32 metadata_size) out
      in memcpy_at 28 (PutU32 body_size) out)"

definition IsValidMessageType :: "u8 \<Rightarrow> bool" where
  "IsValidMessageType value \<longleftrightarrow> value \<ge> REQUEST \<and> value \<le> PONG"

definition Encode :: "Frame \<Rightarrow> string + string" where
  "Encode frame =
     (if length (metadata frame) > 2 ^ 32 - 1 \<or> length (body frame) > 2 ^ 32 - 1
      then Inl ''frame field exceeds uint32 length''
      else if \<not> IsValidMessageType (message_type (header frame)) then Inl ''invalid frame enum''
      else if (message_type (header frame) = REQUEST \<or> message_type (header frame) = RESPONSE) \<and>
              request_id (header frame) = 0
      then Inl ''request and response frames require a request id''
      else
        let hdr = BuildHeader (replicate (unat kFixedHeaderSize) (CHR 0x00)) (flags (header frame))
                    (message_type (header frame)) (request_id (header frame))
                    (of_nat (length (metadata frame))) (of_nat (length (body frame)))
        in Inr (hdr @ metadata frame @ body frame))"

text \<open>
  In \<open>EncodeRequest\<close> the size check on the body overrides the message of a failed metadata
  check; the \<open>AppendRequestMetadata\<close> failure branch clears the output.
\<close>

definition EncodeRequest :: "RequestMetadata \<Rightarrow> string \<Rightarrow> u64 \<Rightarrow> string + string" where
  "EncodeRequest md bdy rid =
     (if rid = 0 then Inl ''request frames require a request id''
      else if length bdy > 2 ^ 32 - 1 then Inl ''frame field exceeds uint32 length''
      else case RequestMetadataEncodedSize md of
        Inl e \<Rightarrow> Inl e
      | Inr metadata_size \<Rightarrow>
          let out = BuildHeader (replicate (unat kFixedHeaderSize) (CHR 0x00)) 0 REQUEST rid
                      (of_nat metadata_size) (of_nat (length bdy))
          in case AppendRequestMetadata md out of
               Inl e \<Rightarrow> Inl e
             | Inr out \<Rightarrow> Inr (out @ bdy))"

section \<open>Layout of the header\<close>

text \<open>The header as the fields it carries, in wire order.\<close>

definition header_bytes :: "FrameHeader \<Rightarrow> u32 \<Rightarrow> u32 \<Rightarrow> string" where
  "header_bytes h ms bs =
     PutU32 kMagic @ PutU16 kVersion @ PutU16 kFixedHeaderSize @ PutU32 (flags h) @
     [char_of (unat (message_type h)), CHR 0x00, CHR 0x00, CHR 0x00] @ PutU64 (request_id h) @
     PutU32 ms @ PutU32 bs"

lemma list_update_memcpy: "i < length xs \<Longrightarrow> xs[i := x] = memcpy_at i [x] xs"
  by (simp add: memcpy_at_def upd_conv_take_nth_drop)

lemma unat_kFixedHeaderSize [simp]: "unat kFixedHeaderSize = 32"
  by (simp add: kFixedHeaderSize_def)

lemma length_header_bytes [simp]: "length (header_bytes h ms bs) = 32"
  by (simp add: header_bytes_def)

lemma BuildHeader_bytes:
  "BuildHeader (replicate 32 z) (flags h) (message_type h) (request_id h) ms bs
     = header_bytes h ms bs"
  by (simp add: BuildHeader_def header_bytes_def list_update_memcpy codec_simps)

definition header_ok :: "FrameHeader \<Rightarrow> bool" where
  "header_ok h \<longleftrightarrow> IsValidMessageType (message_type h) \<and>
     (message_type h = REQUEST \<or> message_type h = RESPONSE \<longrightarrow> request_id h \<noteq> 0)"

definition frame_fits :: "Frame \<Rightarrow> bool" where
  "frame_fits f \<longleftrightarrow> header_ok (header f) \<and> length (metadata f) < 2 ^ 32 \<and> length (body f) < 2 ^ 32"

definition frame_bytes :: "Frame \<Rightarrow> string" where
  "frame_bytes f = header_bytes (header f) (of_nat (length (metadata f))) (of_nat (length (body f))) @
     metadata f @ body f"

lemma Encode_frame_bytes: "frame_fits f \<Longrightarrow> Encode f = Inr (frame_bytes f)"
  by (auto simp: Encode_def frame_fits_def header_ok_def frame_bytes_def BuildHeader_bytes)

lemma Encode_Inr_iff: "Encode f = Inr bs \<longleftrightarrow> frame_fits f \<and> bs = frame_bytes f"
proof (cases "frame_fits f")
  case True
  then show ?thesis by (auto simp: Encode_frame_bytes)
next
  case False
  then show ?thesis
    by (simp add: Encode_def frame_fits_def header_ok_def) auto
qed

text \<open>Reading the fields back from the front of a buffer.\<close>

lemma header_fields:
  "GetU32 (header_bytes h ms bs @ r) = kMagic"
  "GetU16 (drop 4 (header_bytes h ms bs @ r)) = kVersion"
  "GetU16 (drop 6 (header_bytes h ms bs @ r)) = kFixedHeaderSize"
  "GetU32 (drop 8 (header_bytes h ms bs @ r)) = flags h"
  "(header_bytes h ms bs @ r) ! 12 = char_of (unat (message_type h))"
  "(header_bytes h ms bs @ r) ! 13 = CHR 0x00"
  "(header_bytes h ms bs @ r) ! 14 = CHR 0x00"
  "(header_bytes h ms bs @ r) ! 15 = CHR 0x00"
  "GetU64 (drop 16 (header_bytes h ms bs @ r)) = request_id h"
  "GetU32 (drop 24 (header_bytes h ms bs @ r)) = ms"
  "GetU32 (drop 28 (header_bytes h ms bs @ r)) = bs"
  by (simp_all add: header_bytes_def nth_append u16_field.get_put u32_field.get_put u64_field.get_put)

lemma of_char_of_unat: "(of_char (char_of (unat (w :: u8))) :: u8) = w"
proof -
  have "(of_char (char_of (unat w)) :: u8) = of_nat (of_char (char_of (unat w)) :: nat)"
    by (simp only: of_nat_of_char)
  also have "\<dots> = w" using unsigned_less [of w, where 'a = nat] by simp
  finally show ?thesis .
qed

lemma char_of_unat_of_char: "char_of (unat (of_char c :: u8)) = c"
proof -
  have "(of_char c :: u8) = of_nat (of_char c)" by (simp only: of_nat_of_char)
  then have "unat (of_char c :: u8) = of_char c"
    using of_char_nat_less [of c] by (simp add: unat_of_nat del: of_nat_of_char)
  then show ?thesis by simp
qed

lemma take4_drop12: "16 \<le> length s \<Longrightarrow> take 4 (drop 12 s) = [s ! 12, s ! 13, s ! 14, s ! 15]"
  by (rule nth_equalityI) (auto simp: less_Suc_eq numeral_eq_Suc)

text \<open>A buffer that passes the decoder's checks starts with the header of the fields read.\<close>

lemma header_bytes_read:
  assumes "32 \<le> length s" "GetU32 s = kMagic" "GetU16 (drop 4 s) = kVersion"
    "GetU16 (drop 6 s) = kFixedHeaderSize" "s ! 13 = CHR 0x00" "s ! 14 = CHR 0x00" "s ! 15 = CHR 0x00"
  shows "take 32 s = header_bytes
     \<lparr>flags = GetU32 (drop 8 s), message_type = of_char (s ! 12), request_id = GetU64 (drop 16 s)\<rparr>
     (GetU32 (drop 24 s)) (GetU32 (drop 28 s))"
proof -
  have "take 32 s = take 4 s @ take 2 (drop 4 s) @ take 2 (drop 6 s) @ take 4 (drop 8 s) @
      take 4 (drop 12 s) @ take 8 (drop 16 s) @ take 4 (drop 24 s) @ take 4 (drop 28 s)"
    using take_add [of 4 "2 + 2 + 4 + 4 + 8 + 4 + 4" s] take_add [of 2 "2 + 4 + 4 + 8 + 4 + 4" "drop 4 s"]
      take_add [of 2 "4 + 4 + 8 + 4 + 4" "drop 6 s"] take_add [of 4 "4 + 8 + 4 + 4" "drop 8 s"]
      take_add [of 4 "8 + 4 + 4" "drop 12 s"] take_add [of 8 "4 + 4" "drop 16 s"]
      take_add [of 4 4 "drop 24 s"] by simp
  with assms take4_drop12 [of s, symmetric] show ?thesis
    by (simp add: header_bytes_def u16_field.take_drop_put u32_field.take_drop_put
          u64_field.take_drop_put char_of_unat_of_char
          u32_field.put_get [of s, symmetric])
qed

section \<open>The single-pass request encoder\<close>

text \<open>
  C14. \<open>EncodeRequest\<close>, which writes header, envelope and body in one pass, produces the frame
  that \<open>Encode\<close> produces for a \<open>REQUEST\<close> frame whose metadata is the separately encoded
  envelope, and fails exactly when that composition fails.
\<close>

theorem EncodeRequest_is_Encode:
  "EncodeRequest md bdy rid =
     (if rid = 0 then Inl ''request frames require a request id''
      else if length bdy \<ge> 2 ^ 32 then Inl ''frame field exceeds uint32 length''
      else case EncodeRequestMetadata md of
        Inl e \<Rightarrow> Inl e
      | Inr env \<Rightarrow> Encode \<lparr>header = \<lparr>flags = 0, message_type = REQUEST, request_id = rid\<rparr>,
                         metadata = env, body = bdy\<rparr>)"
proof (cases "metadata_fits md")
  case True
  then have "length (metadata_bytes md) < 2 ^ 32"
    by (simp add: metadata_bytes_def metadata_fits_def kMaxFieldSize_def)
  moreover have "IsValidMessageType REQUEST"
    by (simp add: IsValidMessageType_def message_types)
  ultimately show ?thesis
    using True BuildHeader_bytes [of "CHR 0x00" "\<lparr>flags = 0, message_type = REQUEST, request_id = rid\<rparr>"]
    by (simp add: EncodeRequest_def Encode_cases EncodedSize_cases Append_cases Encode_def
          not_less le_eq_less_or_eq)
next
  case False
  then show ?thesis
    by (simp add: EncodeRequest_def Encode_cases EncodedSize_cases)
qed

end
