(* ===== verification/StreamParser.thy ===== *)
theory StreamParser
  imports CoroPrelude
begin

text \<open>
  Incremental parsing of a byte stream. A parser looks at the bytes received so far and
  either needs more of them, rejects them, or takes one item off the front. The locale
  \<open>stream_parser\<close> states the laws under which the items extracted from a stream do not depend
  on how the stream was cut into chunks; the frame decoder is shown to implement such a
  parser.
\<close>

datatype 'f parse = Need | Bad string | Got 'f string

text \<open>All items at the front of a string, the error that stopped the parser, and the rest.\<close>

function parses :: "(string \<Rightarrow> 'f parse) \<Rightarrow> string \<Rightarrow> 'f list \<times> string option \<times> string" where
  "parses p s = (case p s of
     Need \<Rightarrow> ([], None, s)
   | Bad e \<Rightarrow> ([], Some e, s)
   | Got f r \<Rightarrow> if length r < length s
                then let (fs, e, l) = parses p r in (f # fs, e, l)
                else ([f], None, r))"
  by pat_completeness auto
termination by (relation "measure (\<lambda>(p, s). length s)") auto

declare parses.simps [simp del]

text \<open>Parsing after every chunk, keeping the unparsed rest \<open>l\<close> in front of the next one.\<close>

fun parse_chunks :: "(string \<Rightarrow> 'f parse) \<Rightarrow> string \<Rightarrow> string list \<Rightarrow> 'f list \<times> string option" where
  "parse_chunks p l [] = ([], None)"
| "parse_chunks p l (c # cs) =
     (case parses p (l @ c) of
        (fs, Some e, _) \<Rightarrow> (fs, Some e)
      | (fs, None, r) \<Rightarrow> (let (gs, e) = parse_chunks p r cs in (fs @ gs, e)))"

locale stream_parser =
  fixes p :: "string \<Rightarrow> 'f parse"
  assumes got_append: "p s = Got f r \<Longrightarrow> p (s @ t) = Got f (r @ t)"
    and bad_append: "p s = Bad e \<Longrightarrow> p (s @ t) = Bad e"
    and got_less: "p s = Got f r \<Longrightarrow> length r < length s"
begin

lemma parses_Need: "p s = Need \<Longrightarrow> parses p s = ([], None, s)"
  by (simp add: parses.simps)

lemma parses_Got: "p s = Got f r \<Longrightarrow> parses p s = (let (fs, e, l) = parses p r in (f # fs, e, l))"
  by (subst parses.simps) (simp add: got_less)

lemma parses_Bad: "p s = Bad e \<Longrightarrow> parses p s = ([], Some e, s)"
  by (simp add: parses.simps)

lemma parses_rest: "parses p s = (fs, None, l) \<Longrightarrow> p l = Need"
proof (induction "length s" arbitrary: s fs rule: less_induct)
  case less
  show ?case
  proof (cases "p s")
    case Need
    with less.prems show ?thesis by (simp add: parses_Need)
  next
    case (Bad e)
    with less.prems show ?thesis by (simp add: parses_Bad)
  next
    case (Got f r)
    with less.prems have "parses p r = (tl fs, None, l)"
      by (auto simp: parses_Got split: prod.splits)
    with less.hyps [OF got_less [OF Got]] show ?thesis by simp
  qed
qed

lemma parses_append:
  "parses p (s @ t) =
     (case parses p s of
        (fs, Some e, l) \<Rightarrow> (fs, Some e, l @ t)
      | (fs, None, l) \<Rightarrow> let (gs, e, l') = parses p (l @ t) in (fs @ gs, e, l'))"
proof (induction "length s" arbitrary: s rule: less_induct)
  case less
  show ?case
  proof (cases "p s")
    case Need
    then show ?thesis by (simp add: parses_Need)
  next
    case (Bad e)
    then show ?thesis by (simp add: parses_Bad bad_append)
  next
    case (Got f r)
    from less.hyps [OF got_less [OF Got]] show ?thesis
      by (simp add: parses_Got [OF Got] parses_Got [OF got_append [OF Got]]
            split: prod.splits option.splits)
  qed
qed

text \<open>The items and the error are those of the whole stream, whatever the chunks were.\<close>

lemma parse_chunks_concat:
  "p l = Need \<Longrightarrow> parse_chunks p l cs = (let (fs, e, _) = parses p (l @ concat cs) in (fs, e))"
proof (induction cs arbitrary: l)
  case Nil
  then show ?case by (simp add: parses_Need)
next
  case (Cons c cs)
  obtain fs e r where r: "parses p (l @ c) = (fs, e, r)" by (metis prod_cases3)
  show ?case
  proof (cases e)
    case None
    with r have "p r = Need" by (simp add: parses_rest)
    with None r Cons.IH [of r] show ?thesis
      using parses_append [of "l @ c" "concat cs"] by (simp split: prod.splits)
  next
    case (Some e')
    with r show ?thesis using parses_append [of "l @ c" "concat cs"] by simp
  qed
qed

text \<open>A parser that reads every encoded item back reads back a sequence of them.\<close>

lemma parses_encoded:
  assumes "\<And>f t. f \<in> set fs \<Longrightarrow> p (enc f @ t) = Got f t"
  shows "parses p (concat (map enc fs) @ t) = (let (gs, e, l) = parses p t in (fs @ gs, e, l))"
  using assms
proof (induction fs)
  case (Cons f fs)
  then have "p (enc f @ concat (map enc fs) @ t) = Got f (concat (map enc fs) @ t)" by simp
  from parses_Got [OF this] Cons show ?case by (simp split: prod.splits)
qed (simp split: prod.splits)

end

end
