(* ===== verification/FrameDecoder.thy ===== *)
theory FrameDecoder
  imports Frame StreamParser
begin

text \<open>
  The incremental frame decoder, class \<open>FrameDecoder\<close> of \<open>protocol/frame.h\<close> and the second half of
  \<open>protocol/frame.cpp\<close>. The receive buffer is the array itself, with its capacity, fill
  level, read offset and the region handed out by \<open>PrepareWritable\<close>.

  The abstraction of a decoder state is the unparsed part of the byte stream,
  \<open>pending_stream\<close>; every operation is shown to act on it the way the abstract parser
  \<open>parse_frame\<close> prescribes, within the memory bounds.
\<close>

record FrameLimits =
  max_metadata_size :: u32
  max_body_size :: u32
  max_buffer_size :: nat

definition default_limits :: FrameLimits where
  "default_limits = \<lparr>max_metadata_size = 64 * 1024, max_body_size = 16 * 1024 * 1024,
     max_buffer_size = 17 * 1024 * 1024\<rparr>"

datatype DecodeStatus = NEED_MORE | FRAME_READY | PROTOCOL_ERROR

datatype DecoderState = READ_FIXED_HEADER | READ_METADATA | FAILED

record FrameDecoder =
  limits :: FrameLimits
  dec_state :: DecoderState
  buffer :: string
  buffer_size :: nat
  buffer_capacity :: nat
  prepared_size :: nat
  read_offset :: nat
  pending_header :: FrameHeader
  pending_metadata_size :: u32
  pending_body_size :: u32
  dec_error :: string

definition empty_header :: FrameHeader where
  "empty_header = \<lparr>flags = 0, message_type = REQUEST, request_id = 0\<rparr>"

definition new_decoder :: "FrameLimits \<Rightarrow> FrameDecoder" where
  "new_decoder lim =
     (let min_buffer = unat kFixedHeaderSize + unat (max_metadata_size lim) + unat (max_body_size lim);
          lim = (if max_buffer_size lim < min_buffer then lim\<lparr>max_buffer_size := min_buffer\<rparr> else lim)
      in \<lparr>limits = lim, dec_state = READ_FIXED_HEADER, buffer = [], buffer_size = 0,
          buffer_capacity = 0, prepared_size = 0, read_offset = 0, pending_header = empty_header,
          pending_metadata_size = 0, pending_body_size = 0, dec_error = []\<rparr>)"

definition ReadableBytes :: "FrameDecoder \<Rightarrow> nat" where
  "ReadableBytes d = buffer_size d - read_offset d"

definition Fail :: "string \<Rightarrow> FrameDecoder \<Rightarrow> FrameDecoder" where
  "Fail message d = d\<lparr>dec_state := FAILED, dec_error := message\<rparr>"

definition CompactBuffer :: "FrameDecoder \<Rightarrow> FrameDecoder" where
  "CompactBuffer d =
     (if read_offset d = 0 then d
      else
        let readable = buffer_size d - read_offset d;
            buf = (if readable \<noteq> 0
                   then memcpy_at 0 (take readable (drop (read_offset d) (buffer d))) (buffer d)
                   else buffer d)
        in d\<lparr>buffer := buf, buffer_size := readable, read_offset := 0\<rparr>)"

definition EnsureWritable :: "nat \<Rightarrow> FrameDecoder \<Rightarrow> bool \<times> FrameDecoder" where
  "EnsureWritable sz d =
     (if sz > max_buffer_size (limits d) - buffer_size d
      then (False, Fail ''decoder buffer limit exceeded'' d)
      else
        let required = buffer_size d + sz
        in if required \<le> buffer_capacity d then (True, d)
           else
             let next_capacity = max (16 * 1024) (buffer_capacity d * 2);
                 next_capacity = max next_capacity required;
                 next_capacity = min next_capacity (max_buffer_size (limits d));
                 next = replicate next_capacity (CHR 0x00);
                 next = (if buffer_size d \<noteq> 0
                         then memcpy_at 0 (take (buffer_size d) (buffer d)) next else next)
             in (True, d\<lparr>buffer := next, buffer_capacity := next_capacity\<rparr>))"

text \<open>
  \<open>Feed(data, size)\<close>: \<open>None\<close> is the null pointer, \<open>Some s\<close> a pointer to at least \<open>size\<close>
  characters.
\<close>

definition Feed :: "string option \<Rightarrow> nat \<Rightarrow> FrameDecoder \<Rightarrow> DecodeStatus \<times> FrameDecoder" where
  "Feed data sz d =
     (if dec_state d = FAILED then (PROTOCOL_ERROR, d)
      else if sz = 0 then (NEED_MORE, d)
      else case data of
        None \<Rightarrow> (PROTOCOL_ERROR, Fail ''null frame input'' d)
      | Some input \<Rightarrow>
          let d = (if sz > buffer_capacity d - buffer_size d then CompactBuffer d else d)
          in case EnsureWritable sz d of
               (False, d) \<Rightarrow> (PROTOCOL_ERROR, d)
             | (True, d) \<Rightarrow>
                 (NEED_MORE, d\<lparr>buffer := memcpy_at (buffer_size d) (take sz input) (buffer d),
                               buffer_size := buffer_size d + sz\<rparr>))"

text \<open>\<open>PrepareWritable\<close> returns the offset in the buffer of the pointer it hands out.\<close>

definition PrepareWritable :: "nat \<Rightarrow> FrameDecoder \<Rightarrow> nat option \<times> FrameDecoder" where
  "PrepareWritable sz d =
     (if dec_state d = FAILED \<or> sz = 0 \<or> prepared_size d \<noteq> 0 then (None, d)
      else
        let d = (if sz > buffer_capacity d - buffer_size d then CompactBuffer d else d)
        in case EnsureWritable sz d of
             (False, d) \<Rightarrow> (None, d)
           | (True, d) \<Rightarrow> (Some (buffer_size d), d\<lparr>prepared_size := sz\<rparr>))"

definition CommitWritable :: "nat \<Rightarrow> FrameDecoder \<Rightarrow> DecodeStatus \<times> FrameDecoder" where
  "CommitWritable sz d =
     (if prepared_size d = 0 \<or> sz > prepared_size d
      then (PROTOCOL_ERROR, (Fail ''invalid decoder write commit'' d)\<lparr>prepared_size := 0\<rparr>)
      else (NEED_MORE, d\<lparr>buffer_size := buffer_size d + sz, prepared_size := 0\<rparr>))"

definition ValidateHeader :: "u32 \<Rightarrow> u32 \<Rightarrow> FrameDecoder \<Rightarrow> bool \<times> FrameDecoder" where
  "ValidateHeader metadata_size body_size d =
     (if (message_type (pending_header d) = REQUEST \<or> message_type (pending_header d) = RESPONSE) \<and>
         request_id (pending_header d) = 0
      then (False, Fail ''request and response frames require a request id'' d)
      else if metadata_size > max_metadata_size (limits d) \<or> body_size > max_body_size (limits d)
      then (False, Fail ''frame field exceeds configured limit'' d)
      else (True, d))"

definition DecodeHeader :: "FrameDecoder \<Rightarrow> bool \<times> FrameDecoder" where
  "DecodeHeader d =
     (let data = drop (read_offset d) (buffer d)
      in if GetU32 data \<noteq> kMagic then (False, Fail ''invalid frame magic'' d)
         else if GetU16 (drop 4 data) \<noteq> kVersion then (False, Fail ''unsupported frame version'' d)
         else if GetU16 (drop 6 data) \<noteq> kFixedHeaderSize
         then (False, Fail ''unsupported frame header size'' d)
         else
           let type = of_char (data ! 12) :: u8
           in if \<not> IsValidMessageType type \<or> data ! 13 \<noteq> CHR 0x00 \<or> data ! 14 \<noteq> CHR 0x00 \<or>
                 data ! 15 \<noteq> CHR 0x00
              then (False, Fail ''invalid frame header enum or reserved field'' d)
              else
                let d = d\<lparr>pending_header := \<lparr>flags = GetU32 (drop 8 data), message_type = type,
                                             request_id = GetU64 (drop 16 data)\<rparr>,
                          pending_metadata_size := GetU32 (drop 24 data),
                          pending_body_size := GetU32 (drop 28 data)\<rparr>
                in case ValidateHeader (pending_metadata_size d) (pending_body_size d) d of
                     (False, d) \<Rightarrow> (False, d)
                   | (True, d) \<Rightarrow>
                       (True, d\<lparr>read_offset := read_offset d + unat kFixedHeaderSize,
                                dec_state := READ_METADATA\<rparr>))"

lemma DecodeHeader_state: "DecodeHeader d = (True, d') \<Longrightarrow> dec_state d' = READ_METADATA"
  by (auto simp: DecodeHeader_def Let_def split: if_splits prod.splits bool.splits)

text \<open>
  \<open>NextView\<close>: the out parameter is \<open>Some\<close> frame where the code assigns it. The loop ends
  because a successful \<open>DecodeHeader\<close> leaves the header state.
\<close>

function NextView :: "FrameDecoder \<Rightarrow> DecodeStatus \<times> Frame option \<times> FrameDecoder" where
  "NextView d =
     (case dec_state d of
        READ_FIXED_HEADER \<Rightarrow>
          if ReadableBytes d < unat kFixedHeaderSize then (NEED_MORE, None, d)
          else (case DecodeHeader d of
                  (False, d') \<Rightarrow> (PROTOCOL_ERROR, None, d')
                | (True, d') \<Rightarrow> NextView d')
      | READ_METADATA \<Rightarrow>
          if ReadableBytes d < unat (pending_metadata_size d) + unat (pending_body_size d)
          then (NEED_MORE, None, d)
          else
            let ms = unat (pending_metadata_size d);
                bs = unat (pending_body_size d);
                meta = take ms (drop (read_offset d) (buffer d));
                d1 = d\<lparr>read_offset := read_offset d + ms\<rparr>;
                bdy = take bs (drop (read_offset d1) (buffer d1));
                d2 = d1\<lparr>read_offset := read_offset d1 + bs, dec_state := READ_FIXED_HEADER\<rparr>
            in (FRAME_READY, Some \<lparr>header = pending_header d, metadata = meta, body = bdy\<rparr>, d2)
      | FAILED \<Rightarrow> (PROTOCOL_ERROR, None, d))"
  by pat_completeness auto
termination
  by (relation "measure (\<lambda>d. if dec_state d = READ_FIXED_HEADER then 1 else 0)")
     (auto dest: DecodeHeader_state [OF sym])

declare NextView.simps [simp del]

definition Reset :: "FrameDecoder \<Rightarrow> FrameDecoder" where
  "Reset d = d\<lparr>dec_state := READ_FIXED_HEADER, buffer_size := 0, read_offset := 0,
     prepared_size := 0, pending_header := empty_header, pending_metadata_size := 0,
     pending_body_size := 0, dec_error := []\<rparr>"

section \<open>The abstract parser\<close>

definition check_header :: "FrameLimits \<Rightarrow> string \<Rightarrow> string + FrameHeader \<times> u32 \<times> u32" where
  "check_header lim s =
     (let h = \<lparr>flags = GetU32 (drop 8 s), message_type = of_char (s ! 12),
              request_id = GetU64 (drop 16 s)\<rparr>;
          ms = GetU32 (drop 24 s);
          bs = GetU32 (drop 28 s)
      in if GetU32 s \<noteq> kMagic then Inl ''invalid frame magic''
         else if GetU16 (drop 4 s) \<noteq> kVersion then Inl ''unsupported frame version''
         else if GetU16 (drop 6 s) \<noteq> kFixedHeaderSize then Inl ''unsupported frame header size''
         else if \<not> IsValidMessageType (message_type h) \<or> s ! 13 \<noteq> CHR 0x00 \<or> s ! 14 \<noteq> CHR 0x00 \<or>
                 s ! 15 \<noteq> CHR 0x00
         then Inl ''invalid frame header enum or reserved field''
         else if \<not> header_ok h then Inl ''request and response frames require a request id''
         else if ms > max_metadata_size lim \<or> bs > max_body_size lim
         then Inl ''frame field exceeds configured limit''
         else Inr (h, ms, bs))"

definition parse_frame :: "FrameLimits \<Rightarrow> string \<Rightarrow> Frame parse" where
  "parse_frame lim s =
     (if length s < 32 then Need
      else case check_header lim s of
        Inl e \<Rightarrow> Bad e
      | Inr (h, ms, bs) \<Rightarrow>
          if length s < 32 + unat ms + unat bs then Need
          else Got \<lparr>header = h, metadata = take (unat ms) (drop 32 s),
                    body = take (unat bs) (drop (32 + unat ms) s)\<rparr>
                 (drop (32 + unat ms + unat bs) s))"

lemma check_header_append: "32 \<le> length s \<Longrightarrow> check_header lim (s @ t) = check_header lim s"
  by (simp add: check_header_def Let_def nth_append u16_field.get_append u32_field.get_append
        u64_field.get_append cong: if_cong)

lemma check_header_bytes:
  "header_ok h \<Longrightarrow> ms \<le> max_metadata_size lim \<Longrightarrow> bs \<le> max_body_size lim \<Longrightarrow>
     check_header lim (header_bytes h ms bs @ t) = Inr (h, ms, bs)"
  by (simp add: check_header_def header_fields of_char_of_unat not_less [symmetric] header_ok_def
        del: drop_append)

lemma check_header_Inr:
  assumes "check_header lim s = Inr (h, ms, bs)" "32 \<le> length s"
  shows "take 32 s = header_bytes h ms bs" "header_ok h" "ms \<le> max_metadata_size lim"
    "bs \<le> max_body_size lim"
  using assms header_bytes_read [of s]
  by (auto simp: check_header_def Let_def not_less split: if_splits)

lemma parse_frame_Got:
  assumes "parse_frame lim s = Got f r"
  shows "frame_fits f \<and> s = frame_bytes f @ r"
proof -
  from assms obtain h ms bs where c: "check_header lim s = Inr (h, ms, bs)"
    and len: "32 + unat ms + unat bs \<le> length s"
    and f: "f = \<lparr>header = h, metadata = take (unat ms) (drop 32 s),
        body = take (unat bs) (drop (32 + unat ms) s)\<rparr>"
    and r: "r = drop (32 + unat ms + unat bs) s"
    by (auto simp: parse_frame_def split: if_splits sum.splits)
  note hdr = check_header_Inr [OF c]
  have "s = take 32 s @ drop 32 s" by simp
  also have "drop 32 s = metadata f @ drop (32 + unat ms) s"
    unfolding f by (simp add: drop_field [of 32 s "unat ms", symmetric])
  also have "drop (32 + unat ms) s = body f @ r"
    unfolding f r by (simp add: drop_field [of "32 + unat ms" s "unat bs", symmetric])
  finally have "s = take 32 s @ metadata f @ body f @ r" .
  moreover have "length (metadata f) = unat ms" "length (body f) = unat bs"
    using len by (simp_all add: f)
  moreover have "header f = h" by (simp add: f)
  ultimately show ?thesis
    using hdr len unsigned_less [of ms, where 'a = nat] unsigned_less [of bs, where 'a = nat]
    by (simp add: frame_fits_def frame_bytes_def)
qed

definition within_limits :: "FrameLimits \<Rightarrow> Frame \<Rightarrow> bool" where
  "within_limits lim f \<longleftrightarrow> length (metadata f) \<le> unat (max_metadata_size lim) \<and>
     length (body f) \<le> unat (max_body_size lim)"

lemma parse_frame_bytes:
  assumes "frame_fits f" "within_limits lim f"
  shows "parse_frame lim (frame_bytes f @ t) = Got f t"
proof -
  let ?ms = "of_nat (length (metadata f)) :: u32" and ?bs = "of_nat (length (body f)) :: u32"
  have u: "unat ?ms = length (metadata f)" "unat ?bs = length (body f)"
    using assms by (simp_all add: frame_fits_def unat_of_nat)
  then have "?ms \<le> max_metadata_size lim" "?bs \<le> max_body_size lim"
    using assms by (simp_all add: within_limits_def word_le_nat_alt)
  then have "check_header lim (frame_bytes f @ t) = Inr (header f, ?ms, ?bs)"
    using assms check_header_bytes [of "header f"] by (simp add: frame_fits_def frame_bytes_def)
  then show ?thesis using u
    by (simp add: parse_frame_def) (simp add: frame_bytes_def)
qed

interpretation frames: stream_parser "parse_frame lim" for lim
proof
  fix s t :: string and f r
  assume "parse_frame lim s = Got f r"
  then show "parse_frame lim (s @ t) = Got f (r @ t)"
    by (auto simp: parse_frame_def check_header_append split: if_splits sum.splits)
next
  fix s t :: string and e
  assume "parse_frame lim s = Bad e"
  then show "parse_frame lim (s @ t) = Bad e"
    by (auto simp: parse_frame_def check_header_append split: if_splits sum.splits)
next
  fix s f r
  assume "parse_frame lim s = Got f r"
  then show "length r < length s" by (auto simp: parse_frame_def split: if_splits sum.splits)
qed

section \<open>Invariant and abstraction\<close>

definition readable :: "FrameDecoder \<Rightarrow> string" where
  "readable d = drop (read_offset d) (take (buffer_size d) (buffer d))"

definition pending_stream :: "FrameDecoder \<Rightarrow> string" where
  "pending_stream d =
     (if dec_state d = READ_METADATA
      then header_bytes (pending_header d) (pending_metadata_size d) (pending_body_size d) else []) @
     readable d"

definition limits_ok :: "FrameLimits \<Rightarrow> bool" where
  "limits_ok lim \<longleftrightarrow> 32 + unat (max_metadata_size lim) + unat (max_body_size lim) \<le> max_buffer_size lim"

definition decoder_inv :: "FrameDecoder \<Rightarrow> bool" where
  "decoder_inv d \<longleftrightarrow> limits_ok (limits d) \<and> length (buffer d) = buffer_capacity d \<and>
     buffer_size d + prepared_size d \<le> buffer_capacity d \<and>
     buffer_capacity d \<le> max_buffer_size (limits d) \<and> read_offset d \<le> buffer_size d \<and>
     (dec_state d = READ_METADATA \<longrightarrow> header_ok (pending_header d) \<and>
        pending_metadata_size d \<le> max_metadata_size (limits d) \<and>
        pending_body_size d \<le> max_body_size (limits d))"

lemma length_readable: "decoder_inv d \<Longrightarrow> length (readable d) = ReadableBytes d"
  by (auto simp: decoder_inv_def readable_def ReadableBytes_def min_def)

lemma new_decoder_inv: "decoder_inv (new_decoder lim)" "pending_stream (new_decoder lim) = []"
  by (simp_all add: new_decoder_def decoder_inv_def limits_ok_def Let_def pending_stream_def readable_def)

lemma Fail_inv: "decoder_inv d \<Longrightarrow> decoder_inv (Fail e d)"
  by (simp add: decoder_inv_def Fail_def)

lemma Reset_inv: "decoder_inv d \<Longrightarrow> decoder_inv (Reset d) \<and> pending_stream (Reset d) = []"
  by (simp add: decoder_inv_def Reset_def pending_stream_def readable_def)

text \<open>What \<open>Feed\<close> and \<open>PrepareWritable\<close> do first: compact when needed, then ensure room.\<close>

definition make_room :: "nat \<Rightarrow> FrameDecoder \<Rightarrow> bool \<times> FrameDecoder" where
  "make_room n d =
     EnsureWritable n (if n > buffer_capacity d - buffer_size d then CompactBuffer d else d)"

lemma CompactBuffer_facts:
  assumes "decoder_inv d" "prepared_size d = 0"
  shows "decoder_inv (CompactBuffer d)" "readable (CompactBuffer d) = readable d"
    "buffer_size (CompactBuffer d) = ReadableBytes d" "read_offset (CompactBuffer d) = 0"
    "limits (CompactBuffer d) = limits d" "dec_state (CompactBuffer d) = dec_state d"
    "pending_header (CompactBuffer d) = pending_header d"
    "pending_metadata_size (CompactBuffer d) = pending_metadata_size d"
    "pending_body_size (CompactBuffer d) = pending_body_size d"
    "prepared_size (CompactBuffer d) = 0"
  using assms
  by (auto simp: CompactBuffer_def decoder_inv_def readable_def ReadableBytes_def Let_def
        drop_take memcpy_at_def min_def)

lemma EnsureWritable_shape:
  assumes "decoder_inv d" "buffer_size d + n \<le> max_buffer_size (limits d)"
  obtains buf c where "EnsureWritable n d = (True, d\<lparr>buffer := buf, buffer_capacity := c\<rparr>)"
    "length buf = c" "take (buffer_size d) buf = take (buffer_size d) (buffer d)"
    "buffer_size d + n \<le> c" "c \<le> max_buffer_size (limits d)"
proof (cases "buffer_size d + n \<le> buffer_capacity d")
  case True
  with assms have "EnsureWritable n d = (True, d)" by (simp add: EnsureWritable_def)
  with True assms that [of "buffer_capacity d" "buffer d"] show ?thesis
    by (simp add: decoder_inv_def)
next
  case False
  define c where "c = min (max (max (16 * 1024) (buffer_capacity d * 2)) (buffer_size d + n))
    (max_buffer_size (limits d))"
  have c: "buffer_size d + n \<le> c" "c \<le> max_buffer_size (limits d)"
    using assms(2) by (simp_all add: c_def)
  let ?zero = "replicate c (CHR 0x00)" and ?old = "take (buffer_size d) (buffer d)"
  let ?buf = "if buffer_size d \<noteq> 0 then memcpy_at 0 ?old ?zero else ?zero"
  have "EnsureWritable n d = (True, d\<lparr>buffer := ?buf, buffer_capacity := c\<rparr>)"
    using assms(2) False unfolding EnsureWritable_def Let_def c_def [symmetric] by auto
  moreover have "length ?old = buffer_size d" using assms(1) by (simp add: decoder_inv_def)
  ultimately show ?thesis using that c by (simp add: memcpy_at_def)
qed

lemma make_room_shape:
  assumes "decoder_inv d" "prepared_size d = 0" "ReadableBytes d + n \<le> max_buffer_size (limits d)"
  obtains buf bs c ro where "make_room n d
      = (True, d\<lparr>buffer := buf, buffer_size := bs, buffer_capacity := c, read_offset := ro\<rparr>)"
    "length buf = c" "drop ro (take bs buf) = readable d" "ro \<le> bs" "bs + n \<le> c"
    "c \<le> max_buffer_size (limits d)"
proof -
  let ?c = "if n > buffer_capacity d - buffer_size d then CompactBuffer d else d"
  have c: "decoder_inv ?c" "readable ?c = readable d" "limits ?c = limits d"
    using assms by (simp_all add: CompactBuffer_facts)
  have "buffer_size ?c + n \<le> max_buffer_size (limits ?c)"
    using assms by (auto simp: CompactBuffer_facts decoder_inv_def)
  from EnsureWritable_shape [OF c(1) this] obtain buf cap
    where e: "EnsureWritable n ?c = (True, ?c\<lparr>buffer := buf, buffer_capacity := cap\<rparr>)"
      "length buf = cap" "take (buffer_size ?c) buf = take (buffer_size ?c) (buffer ?c)"
      "buffer_size ?c + n \<le> cap" "cap \<le> max_buffer_size (limits ?c)" .
  have "?c\<lparr>buffer := buf, buffer_capacity := cap\<rparr>
      = d\<lparr>buffer := buf, buffer_size := buffer_size ?c, buffer_capacity := cap, read_offset := read_offset ?c\<rparr>"
    by (simp add: CompactBuffer_def Let_def)
  moreover have "drop (read_offset ?c) (take (buffer_size ?c) buf) = readable d"
    using e(3) c(2) by (simp only: readable_def)
  moreover have "read_offset ?c \<le> buffer_size ?c"
    using c(1) by (simp only: decoder_inv_def)
  ultimately show ?thesis using that e(1,2,4,5) c(3) by (metis make_room_def)
qed

lemma make_room_fail:
  assumes "decoder_inv d" "prepared_size d = 0" "ReadableBytes d + n > max_buffer_size (limits d)"
    and "make_room n d = (b, d')"
  shows "\<not> b" "decoder_inv d'" "dec_state d' = FAILED" "dec_error d' = ''decoder buffer limit exceeded''"
proof -
  have "n > buffer_capacity d - buffer_size d"
    and "n > max_buffer_size (limits d) - ReadableBytes d"
    using assms by (auto simp: decoder_inv_def ReadableBytes_def)
  then have "(b, d') = EnsureWritable n (CompactBuffer d)"
    using assms(4) by (simp add: make_room_def)
  also have "\<dots> = (False, Fail ''decoder buffer limit exceeded'' (CompactBuffer d))"
    using assms \<open>n > max_buffer_size (limits d) - ReadableBytes d\<close> by (simp add: EnsureWritable_def CompactBuffer_facts)
  finally show "\<not> b" "decoder_inv d'" "dec_state d' = FAILED"
    "dec_error d' = ''decoder buffer limit exceeded''"
    using assms by (simp_all add: Fail_inv CompactBuffer_facts) (simp_all add: Fail_def)
qed

section \<open>Every operation against the abstract parser\<close>

lemma DecodeHeader_Inl_shape:
  assumes "check_header (limits d) (drop (read_offset d) (buffer d)) = Inl e"
  shows "\<exists>h ms bs. DecodeHeader d = (False,
     Fail e (d\<lparr>pending_header := h, pending_metadata_size := ms, pending_body_size := bs\<rparr>))"
proof -
  define data where "data = drop (read_offset d) (buffer d)"
  note defs = check_header_def DecodeHeader_def ValidateHeader_def Let_def data_def [symmetric]
  have keep: ?thesis if "DecodeHeader d = (False, Fail e d)"
    using that by (intro exI [of _ "pending_header d"] exI [of _ "pending_metadata_size d"]
        exI [of _ "pending_body_size d"]) simp
  consider (fixed) "GetU32 data \<noteq> kMagic \<or> GetU16 (drop 4 data) \<noteq> kVersion
      \<or> GetU16 (drop 6 data) \<noteq> kFixedHeaderSize \<or> \<not> IsValidMessageType (of_char (data ! 12))
      \<or> data ! 13 \<noteq> CHR 0x00 \<or> data ! 14 \<noteq> CHR 0x00 \<or> data ! 15 \<noteq> CHR 0x00"
    | (rest) "GetU32 data = kMagic" "GetU16 (drop 4 data) = kVersion"
      "GetU16 (drop 6 data) = kFixedHeaderSize" "IsValidMessageType (of_char (data ! 12))"
      "data ! 13 = CHR 0x00" "data ! 14 = CHR 0x00" "data ! 15 = CHR 0x00"
    by blast
  then show ?thesis
  proof cases
    case fixed
    with assms show ?thesis by (intro keep) (simp add: defs split: if_split_asm)
  next
    case rest
    with assms show ?thesis by (auto simp: defs header_ok_def split: if_splits)
  qed
qed

lemma DecodeHeader_Inl:
  assumes "check_header (limits d) (drop (read_offset d) (buffer d)) = Inl e"
    and "DecodeHeader d = (b, d')" "decoder_inv d"
  shows "\<not> b" "dec_state d' = FAILED" "dec_error d' = e" "limits d' = limits d"
    "prepared_size d' = prepared_size d" "decoder_inv d'"
  using DecodeHeader_Inl_shape [OF assms(1)] assms(2,3) by (auto simp: Fail_def decoder_inv_def)

lemma DecodeHeader_Inr:
  assumes "check_header (limits d) (drop (read_offset d) (buffer d)) = Inr (h, ms, bs)"
  shows "DecodeHeader d = (True, d\<lparr>pending_header := h, pending_metadata_size := ms,
     pending_body_size := bs, read_offset := read_offset d + 32, dec_state := READ_METADATA\<rparr>)"
proof -
  define data where "data = drop (read_offset d) (buffer d)"
  have "GetU32 data = kMagic" "GetU16 (drop 4 data) = kVersion"
      "GetU16 (drop 6 data) = kFixedHeaderSize" "IsValidMessageType (of_char (data ! 12))"
      "data ! 13 = CHR 0x00" "data ! 14 = CHR 0x00" "data ! 15 = CHR 0x00" "header_ok h"
      "ms \<le> max_metadata_size (limits d)" "bs \<le> max_body_size (limits d)"
      "h = \<lparr>flags = GetU32 (drop 8 data), message_type = of_char (data ! 12),
              request_id = GetU64 (drop 16 data)\<rparr>" "ms = GetU32 (drop 24 data)" "bs = GetU32 (drop 28 data)"
    using assms by (simp_all add: check_header_def Let_def data_def [symmetric] not_less split: if_split_asm)
  then show ?thesis
    unfolding DecodeHeader_def ValidateHeader_def Let_def data_def [symmetric] header_ok_def
    by (auto simp: not_less)
qed

text \<open>The outcome of \<open>NextView\<close> that the abstract parser prescribes.\<close>

definition next_outcome :: "FrameDecoder \<Rightarrow> DecodeStatus \<Rightarrow> Frame option \<Rightarrow> FrameDecoder \<Rightarrow> bool" where
  "next_outcome d st fo d' \<longleftrightarrow>
     decoder_inv d' \<and> limits d' = limits d \<and> prepared_size d' = prepared_size d \<and>
     (case parse_frame (limits d) (pending_stream d) of
        Need \<Rightarrow> st = NEED_MORE \<and> fo = None \<and> dec_state d' \<noteq> FAILED \<and> pending_stream d' = pending_stream d
      | Bad e \<Rightarrow> st = PROTOCOL_ERROR \<and> fo = None \<and> dec_state d' = FAILED \<and> dec_error d' = e
      | Got f r \<Rightarrow> st = FRAME_READY \<and> fo = Some f \<and> dec_state d' = READ_FIXED_HEADER \<and>
                   pending_stream d' = r)"

lemma readable_parts:
  assumes "decoder_inv d" "ms + bs \<le> ReadableBytes d"
  shows "take ms (drop (read_offset d) (buffer d)) = take ms (readable d)"
    "take bs (drop (read_offset d + ms) (buffer d)) = take bs (drop ms (readable d))"
    "drop (read_offset d + ms + bs) (take (buffer_size d) (buffer d)) = drop (ms + bs) (readable d)"
proof -
  have r: "readable d = take (ReadableBytes d) (drop (read_offset d) (buffer d))"
    by (simp add: readable_def ReadableBytes_def drop_take)
  show "take ms (drop (read_offset d) (buffer d)) = take ms (readable d)"
    using assms(2) by (simp add: r)
  show "take bs (drop (read_offset d + ms) (buffer d)) = take bs (drop ms (readable d))"
    using assms(2) by (simp add: r drop_take add.commute)
  show "drop (read_offset d + ms + bs) (take (buffer_size d) (buffer d)) = drop (ms + bs) (readable d)"
    by (simp add: readable_def add_ac)
qed

lemma NextView_metadata:
  assumes inv: "decoder_inv d" and st: "dec_state d = READ_METADATA"
    and nv: "NextView d = (st, fo, d')"
  shows "next_outcome d st fo d'"
proof -
  let ?ms = "unat (pending_metadata_size d)" and ?bs = "unat (pending_body_size d)"
  have s: "pending_stream d
      = header_bytes (pending_header d) (pending_metadata_size d) (pending_body_size d) @ readable d"
    using st by (simp add: pending_stream_def)
  have c: "check_header (limits d) (pending_stream d)
      = Inr (pending_header d, pending_metadata_size d, pending_body_size d)"
    using inv st unfolding s by (intro check_header_bytes) (simp_all add: decoder_inv_def)
  show ?thesis
  proof (cases "ReadableBytes d < ?ms + ?bs")
    case True
    then have "parse_frame (limits d) (pending_stream d) = Need"
      using inv by (simp add: parse_frame_def c) (simp add: s length_readable)
    then show ?thesis using nv True st inv
      by (simp add: next_outcome_def NextView.simps [of d])
  next
    case False
    let ?f = "\<lparr>header = pending_header d, metadata = take ?ms (readable d),
        body = take ?bs (drop ?ms (readable d))\<rparr>"
    have "parse_frame (limits d) (pending_stream d) = Got ?f (drop (?ms + ?bs) (readable d))"
      using inv False by (simp add: parse_frame_def c) (simp add: s length_readable)
    moreover have "st = FRAME_READY" "fo = Some ?f"
      "d' = d\<lparr>read_offset := read_offset d + ?ms + ?bs, dec_state := READ_FIXED_HEADER\<rparr>"
      using nv False st inv readable_parts [of d ?ms ?bs]
      by (simp_all add: NextView.simps [of d] Let_def)
    moreover from this(3) have "pending_stream d' = drop (?ms + ?bs) (readable d)"
      using inv False readable_parts(3) [of d ?ms ?bs]
      by (simp add: pending_stream_def readable_def [of "_\<lparr>dec_state := _\<rparr>"])
    moreover from \<open>d' = _\<close> have "decoder_inv d'"
      using inv False by (auto simp: decoder_inv_def ReadableBytes_def)
    ultimately show ?thesis by (simp add: next_outcome_def)
  qed
qed

lemma NextView_refines:
  assumes inv: "decoder_inv d" and st: "dec_state d \<noteq> FAILED" and nv: "NextView d = (st, fo, d')"
  shows "next_outcome d st fo d'"
proof (cases "dec_state d")
  case READ_METADATA
  with inv nv show ?thesis by (simp add: NextView_metadata)
next
  case READ_FIXED_HEADER
  then have s: "pending_stream d = readable d" by (simp add: pending_stream_def)
  show ?thesis
  proof (cases "ReadableBytes d < 32")
    case True
    then have "parse_frame (limits d) (pending_stream d) = Need"
      using inv by (simp add: parse_frame_def s length_readable)
    then show ?thesis using nv True READ_FIXED_HEADER inv
      by (simp add: next_outcome_def NextView.simps [of d])
  next
    case False
    have data: "drop (read_offset d) (buffer d) = readable d @ drop (buffer_size d) (buffer d)"
      using inv by (subst append_take_drop_id [of "buffer_size d" "buffer d", symmetric])
        (simp add: readable_def decoder_inv_def del: append_take_drop_id)
    have len: "32 \<le> length (readable d)" using inv False by (simp add: length_readable)
    have ch: "check_header (limits d) (drop (read_offset d) (buffer d))
        = check_header (limits d) (pending_stream d)"
      unfolding data s by (rule check_header_append [OF len])
    show ?thesis
    proof (cases "check_header (limits d) (pending_stream d)")
      case (Inl e)
      then have "parse_frame (limits d) (pending_stream d) = Bad e"
        using len by (simp add: parse_frame_def s)
      moreover obtain b d1 where d1: "DecodeHeader d = (b, d1)" by (cases "DecodeHeader d")
      moreover note DecodeHeader_Inl [OF ch [unfolded Inl] d1 inv]
      ultimately show ?thesis using nv False READ_FIXED_HEADER
        by (simp add: next_outcome_def NextView.simps [of d])
    next
      case (Inr r)
      then obtain h ms bs where r: "check_header (limits d) (pending_stream d) = Inr (h, ms, bs)"
        by (cases r) auto
      define d1 where "d1 = d\<lparr>pending_header := h, pending_metadata_size := ms,
          pending_body_size := bs, read_offset := read_offset d + 32, dec_state := READ_METADATA\<rparr>"
      note hdr = check_header_Inr [OF r [unfolded s] len]
      have "readable d1 = drop 32 (readable d)"
        by (simp add: readable_def d1_def add.commute)
      then have "pending_stream d1 = header_bytes h ms bs @ drop 32 (readable d)"
        by (simp add: pending_stream_def) (simp add: d1_def)
      then have "pending_stream d1 = pending_stream d"
        by (simp add: s hdr(1) [symmetric])
      moreover have "decoder_inv d1" "limits d1 = limits d" "prepared_size d1 = prepared_size d"
        "dec_state d1 = READ_METADATA"
        using inv hdr False by (simp_all add: d1_def decoder_inv_def ReadableBytes_def)
      moreover have "NextView d1 = (st, fo, d')"
        using nv False READ_FIXED_HEADER DecodeHeader_Inr [OF ch [unfolded r]]
        by (simp add: NextView.simps [of d] d1_def)
      ultimately show ?thesis using NextView_metadata [of d1]
        by (simp add: next_outcome_def cong: parse.case_cong)
    qed
  qed
qed (use st in simp)

end
