(* ===== verification/FrameStream.thy ===== *)
theory FrameStream
  imports FrameDecoder
begin

text \<open>
  The decoder as its callers drive it: the read loops of \<open>MultiplexedConnection::ReaderLoop\<close> and
  \<open>ServerConnection::ReaderLoop\<close> hand received bytes to the decoder and take frames out of it
  with \<open>NextView\<close> until it needs more. The two ways of handing over bytes, \<open>Feed\<close> and
  \<open>PrepareWritable\<close>/\<open>CommitWritable\<close>, satisfy one contract, the locale \<open>byte_delivery\<close>, and the
  stream theorems are proved once from it.
\<close>

section \<open>Driving the decoder\<close>

lemma NextView_metadata_measure:
  "NextView d = (FRAME_READY, fo, d') \<Longrightarrow> dec_state d = READ_METADATA \<Longrightarrow>
     dec_state d' = READ_FIXED_HEADER \<and> ReadableBytes d' \<le> ReadableBytes d"
  by (auto simp: NextView.simps [of d] Let_def ReadableBytes_def split: if_splits)

lemma DecodeHeader_consumes: "DecodeHeader d = (True, d') \<Longrightarrow> ReadableBytes d' = ReadableBytes d - 32"
  by (auto simp: DecodeHeader_def ValidateHeader_def ReadableBytes_def Let_def split: if_split_asm)

lemma NextView_measure:
  assumes "NextView d = (FRAME_READY, fo, d')"
  shows "2 * ReadableBytes d' + (if dec_state d' = READ_METADATA then 1 else 0)
     < 2 * ReadableBytes d + (if dec_state d = READ_METADATA then 1 else 0)"
proof (cases "dec_state d")
  case READ_METADATA
  with NextView_metadata_measure [OF assms] show ?thesis by simp
next
  case READ_FIXED_HEADER
  with assms obtain d1 where "DecodeHeader d = (True, d1)" "NextView d1 = (FRAME_READY, fo, d')"
    "32 \<le> ReadableBytes d"
    by (auto simp: NextView.simps [of d] split: if_splits prod.splits bool.splits)
  with NextView_metadata_measure [of d1] DecodeHeader_state [of d d1] DecodeHeader_consumes [of d d1]
  show ?thesis by auto
next
  case FAILED
  with assms show ?thesis by (simp add: NextView.simps [of d])
qed

text \<open>\<open>NextView\<close> until it does not return a frame: the inner loop of the readers.\<close>

function drain :: "FrameDecoder \<Rightarrow> Frame list \<times> DecodeStatus \<times> FrameDecoder" where
  "drain d =
     (case NextView d of
        (FRAME_READY, Some f, d') \<Rightarrow> (let (fs, st, d'') = drain d' in (f # fs, st, d''))
      | (st, _, d') \<Rightarrow> ([], st, d'))"
  by pat_completeness auto
termination
  by (relation "measure (\<lambda>d. 2 * ReadableBytes d + (if dec_state d = READ_METADATA then 1 else 0))")
     (auto dest: NextView_measure [OF sym])

declare drain.simps [simp del]

type_synonym delivery = "string \<Rightarrow> FrameDecoder \<Rightarrow> DecodeStatus \<times> FrameDecoder"

fun run_decoder :: "delivery \<Rightarrow> string list \<Rightarrow> FrameDecoder \<Rightarrow> Frame list \<times> DecodeStatus \<times> FrameDecoder" where
  "run_decoder deliver [] d = ([], NEED_MORE, d)"
| "run_decoder deliver (c # cs) d =
     (case deliver c d of
        (NEED_MORE, d1) \<Rightarrow>
          (case drain d1 of
             (fs, NEED_MORE, d2) \<Rightarrow> (let (gs, st, d3) = run_decoder deliver cs d2 in (fs @ gs, st, d3))
           | r \<Rightarrow> r)
      | (st, d1) \<Rightarrow> ([], st, d1))"

definition feed :: delivery where
  "feed data d = Feed (Some data) (length data) d"

text \<open>
  \<open>receive cap data\<close>: prepare room for \<open>cap\<close> bytes, let the socket write \<open>data\<close> at the returned
  place, commit its length.
\<close>

definition receive :: "nat \<Rightarrow> delivery" where
  "receive cap data d =
     (case PrepareWritable cap d of
        (None, d1) \<Rightarrow> (PROTOCOL_ERROR, d1)
      | (Some off, d1) \<Rightarrow>
          CommitWritable (length data) (d1\<lparr>buffer := memcpy_at off data (buffer d1)\<rparr>))"

lemma drain_refines:
  assumes "decoder_inv d" "dec_state d \<noteq> FAILED" "drain d = (fs, st, d')"
  shows "decoder_inv d' \<and> limits d' = limits d \<and> prepared_size d' = prepared_size d \<and>
    (case parses (parse_frame (limits d)) (pending_stream d) of
       (gs, None, l) \<Rightarrow> fs = gs \<and> st = NEED_MORE \<and> dec_state d' \<noteq> FAILED \<and> pending_stream d' = l
     | (gs, Some e, _) \<Rightarrow> fs = gs \<and> st = PROTOCOL_ERROR \<and> dec_state d' = FAILED \<and> dec_error d' = e)"
  using assms
proof (induction d arbitrary: fs rule: drain.induct)
  case (1 d)
  obtain st1 fo d1 where nv: "NextView d = (st1, fo, d1)" by (metis prod_cases3)
  note out = NextView_refines [OF 1(2,3) nv, unfolded next_outcome_def]
  show ?case
  proof (cases "parse_frame (limits d) (pending_stream d)")
    case Need
    with out nv 1(4) show ?thesis by (auto simp: drain.simps [of d] frames.parses_Need)
  next
    case (Bad e)
    with out nv 1(4) show ?thesis by (auto simp: drain.simps [of d] frames.parses_Bad)
  next
    case (Got f r)
    with out have d1: "st1 = FRAME_READY" "fo = Some f" "decoder_inv d1" "dec_state d1 \<noteq> FAILED"
      "limits d1 = limits d" "prepared_size d1 = prepared_size d" "pending_stream d1 = r" by auto
    obtain gs where dr: "drain d1 = (gs, st, d')" and "fs = f # gs"
      using 1(4) nv d1(1,2) by (auto simp: drain.simps [of d] split: prod.splits)
    with 1(1) [OF nv [symmetric] d1(1) refl d1(2,3,4) dr] d1(5-7) show ?thesis
      by (auto simp: frames.parses_Got [OF Got] split: prod.splits option.splits)
  qed
qed

lemma parse_frame_Need_bound:
  assumes "parse_frame lim s = Need"
  shows "length s < 32 + unat (max_metadata_size lim) + unat (max_body_size lim)"
proof (cases "length s < 32")
  case False
  with assms obtain h ms bs where c: "check_header lim s = Inr (h, ms, bs)"
    and "length s < 32 + unat ms + unat bs"
    by (auto simp: parse_frame_def split: sum.splits if_splits)
  with check_header_Inr(3,4) [OF c] False show ?thesis by (simp add: word_le_nat_alt)
qed simp

lemma ReadableBytes_pending: "decoder_inv d \<Longrightarrow> ReadableBytes d \<le> length (pending_stream d)"
  by (simp add: pending_stream_def length_readable)

section \<open>The delivery contract\<close>

text \<open>Room for \<open>n\<close> more bytes beside the longest possible incomplete frame.\<close>

definition room_for :: "FrameLimits \<Rightarrow> nat \<Rightarrow> bool" where
  "room_for lim n \<longleftrightarrow>
     32 + unat (max_metadata_size lim) + unat (max_body_size lim) + n \<le> max_buffer_size lim"

locale byte_delivery =
  fixes deliver :: delivery
    and admits :: "string \<Rightarrow> bool"
    and reserve :: "string \<Rightarrow> nat"
  assumes deliver_appends:
    "decoder_inv d \<Longrightarrow> prepared_size d = 0 \<Longrightarrow> dec_state d \<noteq> FAILED \<Longrightarrow> admits c \<Longrightarrow>
     ReadableBytes d + reserve c \<le> max_buffer_size (limits d) \<Longrightarrow>
     \<exists>d'. deliver c d = (NEED_MORE, d') \<and> decoder_inv d' \<and> prepared_size d' = 0 \<and>
       dec_state d' = dec_state d \<and> limits d' = limits d \<and> pending_stream d' = pending_stream d @ c"
begin

lemma run_refines:
  assumes "decoder_inv d" "prepared_size d = 0" "dec_state d \<noteq> FAILED"
    "parse_frame (limits d) (pending_stream d) = Need" "\<forall>c \<in> set cs. admits c \<and> room_for (limits d) (reserve c)"
    "run_decoder deliver cs d = (fs, st, d')"
  shows "decoder_inv d' \<and> limits d' = limits d \<and>
     (case parse_chunks (parse_frame (limits d)) (pending_stream d) cs of
        (gs, None) \<Rightarrow> fs = gs \<and> st = NEED_MORE \<and> dec_state d' \<noteq> FAILED
      | (gs, Some e) \<Rightarrow> fs = gs \<and> st = PROTOCOL_ERROR \<and> dec_state d' = FAILED \<and> dec_error d' = e)"
  using assms
proof (induction cs arbitrary: d fs)
  case Nil
  then show ?case by auto
next
  case (Cons c cs)
  have "ReadableBytes d + reserve c \<le> max_buffer_size (limits d)"
    using parse_frame_Need_bound [OF Cons.prems(4)] ReadableBytes_pending [OF Cons.prems(1)]
      Cons.prems(5) by (simp add: room_for_def)
  then obtain d1 where d1: "deliver c d = (NEED_MORE, d1)" "decoder_inv d1" "prepared_size d1 = 0"
    "dec_state d1 \<noteq> FAILED" "limits d1 = limits d" "pending_stream d1 = pending_stream d @ c"
    using deliver_appends [of d c] Cons.prems by (auto simp: room_for_def)
  obtain hs st1 d2 where dr: "drain d1 = (hs, st1, d2)" by (metis prod_cases3)
  obtain gs e l where ps: "parses (parse_frame (limits d)) (pending_stream d @ c) = (gs, e, l)"
    by (metis prod_cases3)
  note step = drain_refines [OF d1(2,4) dr, unfolded d1(5,6) ps]
  show ?case
  proof (cases e)
    case None
    with step have d2: "decoder_inv d2" "prepared_size d2 = 0" "dec_state d2 \<noteq> FAILED" "hs = gs"
      "st1 = NEED_MORE" "limits d2 = limits d" "pending_stream d2 = l" using d1(3) by auto
    from None ps have "parse_frame (limits d) l = Need" by (simp add: frames.parses_rest)
    moreover obtain ks where "run_decoder deliver cs d2 = (ks, st, d')" "fs = gs @ ks"
      using Cons.prems(6) d1(1) dr d2(4,5) by (auto split: prod.splits)
    ultimately show ?thesis
      using Cons.IH [of d2 ks] d2 Cons.prems(5) None ps by (auto split: prod.splits option.splits)
  next
    case (Some m)
    with step Cons.prems(6) d1(1) dr ps show ?thesis by auto
  qed
qed

end

lemma Feed_make_room:
  "dec_state d \<noteq> FAILED \<Longrightarrow> n \<noteq> 0 \<Longrightarrow> Feed (Some c) n d =
     (case make_room n d of
        (False, d) \<Rightarrow> (PROTOCOL_ERROR, d)
      | (True, d) \<Rightarrow> (NEED_MORE, d\<lparr>buffer := memcpy_at (buffer_size d) (take n c) (buffer d),
                                  buffer_size := buffer_size d + n\<rparr>))"
  by (simp add: Feed_def make_room_def Let_def)

lemma PrepareWritable_make_room:
  "dec_state d \<noteq> FAILED \<Longrightarrow> n \<noteq> 0 \<Longrightarrow> prepared_size d = 0 \<Longrightarrow> PrepareWritable n d =
     (case make_room n d of
        (False, d) \<Rightarrow> (None, d)
      | (True, d) \<Rightarrow> (Some (buffer_size d), d\<lparr>prepared_size := n\<rparr>))"
  by (simp add: PrepareWritable_def make_room_def Let_def)

text \<open>Writing behind the fill level and raising it appends to the unparsed stream.\<close>

lemma append_written:
  assumes inv: "decoder_inv d" "prepared_size d = 0"
    and shape: "length buf = c" "drop ro (take bs buf) = readable d" "ro \<le> bs" "bs + n \<le> c"
      "c \<le> max_buffer_size (limits d)" and n: "length data \<le> n"
    and d': "d' = d\<lparr>buffer := memcpy_at bs data buf, buffer_size := bs + length data,
      buffer_capacity := c, read_offset := ro\<rparr>"
  shows "decoder_inv d' \<and> prepared_size d' = 0 \<and> dec_state d' = dec_state d \<and> limits d' = limits d \<and>
     pending_stream d' = pending_stream d @ data"
proof -
  have "take (bs + length data) (memcpy_at bs data buf) = take bs buf @ data"
    using shape n by simp
  then have "readable d' = drop ro (take bs buf) @ data"
    using shape n by (simp add: readable_def d')
  then have "readable d' = readable d @ data" using shape(2) by simp
  moreover have "decoder_inv d'" using inv shape n by (simp add: d' decoder_inv_def)
  ultimately show ?thesis using inv(2) by (simp add: d' pending_stream_def)
qed

interpretation fed: byte_delivery feed "\<lambda>_. True" length
proof
  fix d and c :: string
  assume d: "decoder_inv d" "prepared_size d = 0" "dec_state d \<noteq> FAILED"
    "ReadableBytes d + length c \<le> max_buffer_size (limits d)"
  show "\<exists>d'. feed c d = (NEED_MORE, d') \<and> decoder_inv d' \<and> prepared_size d' = 0 \<and>
       dec_state d' = dec_state d \<and> limits d' = limits d \<and> pending_stream d' = pending_stream d @ c"
  proof (cases "c = []")
    case True
    with d show ?thesis by (simp add: feed_def Feed_def)
  next
    case False
    from make_room_shape [OF d(1,2,4)] obtain buf bs cap ro where m: "make_room (length c) d
        = (True, d\<lparr>buffer := buf, buffer_size := bs, buffer_capacity := cap, read_offset := ro\<rparr>)"
      "length buf = cap" "drop ro (take bs buf) = readable d" "ro \<le> bs" "bs + length c \<le> cap"
      "cap \<le> max_buffer_size (limits d)" .
    then have "feed c d = (NEED_MORE, d\<lparr>buffer := memcpy_at bs c buf, buffer_size := bs + length c,
        buffer_capacity := cap, read_offset := ro\<rparr>)"
      using False d(3) by (simp add: feed_def Feed_make_room)
    with append_written [OF d(1,2) m(2-6) order_refl refl] show ?thesis by blast
  qed
qed

interpretation received: byte_delivery "receive cap" "\<lambda>c. length c \<le> cap \<and> 0 < cap" "\<lambda>_. cap" for cap
proof
  fix d and c :: string
  assume d: "decoder_inv d" "prepared_size d = 0" "dec_state d \<noteq> FAILED"
    "ReadableBytes d + cap \<le> max_buffer_size (limits d)" and c: "length c \<le> cap \<and> 0 < cap"
  from make_room_shape [OF d(1,2,4)] obtain buf bs k ro where m: "make_room cap d
      = (True, d\<lparr>buffer := buf, buffer_size := bs, buffer_capacity := k, read_offset := ro\<rparr>)"
    "length buf = k" "drop ro (take bs buf) = readable d" "ro \<le> bs" "bs + cap \<le> k"
    "k \<le> max_buffer_size (limits d)" .
  then have "receive cap c d = (NEED_MORE, d\<lparr>buffer := memcpy_at bs c buf, buffer_size := bs + length c,
      buffer_capacity := k, read_offset := ro\<rparr>)"
    using d(2,3) c by (simp add: receive_def PrepareWritable_make_room CommitWritable_def)
  with append_written [OF d(1,2) m(2-6) conjunct1 [OF c] refl]
  show "\<exists>d'. receive cap c d = (NEED_MORE, d') \<and> decoder_inv d' \<and> prepared_size d' = 0 \<and>
       dec_state d' = dec_state d \<and> limits d' = limits d \<and> pending_stream d' = pending_stream d @ c"
    by blast
qed

lemma new_decoder_start:
  "room_for lim n \<Longrightarrow> limits (new_decoder lim) = lim \<and> dec_state (new_decoder lim) = READ_FIXED_HEADER \<and>
     prepared_size (new_decoder lim) = 0"
  by (simp add: new_decoder_def room_for_def Let_def)

lemma parse_frame_Nil: "parse_frame lim [] = Need"
  by (simp add: parse_frame_def)

section \<open>Stream properties\<close>

text \<open>
  C1. A sequence of encoded frames within the limits, cut into arbitrary pieces of at most
  \<open>cap\<close> bytes and read through \<open>PrepareWritable\<close> and \<open>CommitWritable\<close> as the connection readers
  do, comes out of the decoder as exactly that sequence of frames, and the decoder never
  runs out of buffer.
\<close>

theorem stream_roundtrip:
  assumes "\<forall>f \<in> set fs. Encode f = Inr (enc f) \<and> within_limits lim f"
    and "concat cs = concat (map enc fs)"
    and "\<forall>c \<in> set cs. length c \<le> cap" and "0 < cap" and "room_for lim cap"
  shows "\<exists>d'. run_decoder (receive cap) cs (new_decoder lim) = (fs, NEED_MORE, d') \<and> decoder_inv d'"
proof -
  obtain gs st d' where r: "run_decoder (receive cap) cs (new_decoder lim) = (gs, st, d')"
    by (metis prod_cases3)
  have "parses (parse_frame lim) (concat (map enc fs) @ []) = (fs, None, [])"
    using assms(1) by (subst frames.parses_encoded)
      (auto simp: Encode_Inr_iff parse_frame_bytes frames.parses_Need parse_frame_Nil)
  then have "parse_chunks (parse_frame lim) [] cs = (fs, None)"
    by (simp add: frames.parse_chunks_concat [OF parse_frame_Nil] assms(2))
  with received.run_refines [OF new_decoder_inv(1) _ _ _ _ r] new_decoder_start [OF assms(5)] assms(3-5)
  have "gs = fs \<and> st = NEED_MORE \<and> decoder_inv d'"
    by (simp add: new_decoder_inv parse_frame_Nil)
  with r show ?thesis by simp
qed

theorem stream_roundtrip_witness:
  "let f = \<lparr>header = \<lparr>flags = 0, message_type = REQUEST, request_id = 7\<rparr>, metadata = ''m'',
       body = ''hello''\<rparr>
   in \<exists>d'. run_decoder (receive (16 * 1024)) [take 33 (frame_bytes f), drop 33 (frame_bytes f)]
        (new_decoder default_limits) = ([f], NEED_MORE, d') \<and> decoder_inv d'"
  unfolding Let_def
  by (rule stream_roundtrip [where enc = frame_bytes])
     (simp_all add: Encode_Inr_iff frame_fits_def header_ok_def IsValidMessageType_def message_types
       within_limits_def default_limits_def room_for_def, simp_all add: frame_bytes_def)



text \<open>
  A frame is only ever taken from bytes that are its encoding: when \<open>NextView\<close> returns a
  frame, the bytes it consumed are what \<open>Encode\<close> writes for that frame.
\<close>

theorem NextView_sound:
  assumes "decoder_inv d" and "NextView d = (FRAME_READY, Some f, d')"
  shows "\<exists>bs. Encode f = Inr bs \<and> pending_stream d = bs @ pending_stream d'"
proof -
  from assms(2) have "dec_state d \<noteq> FAILED" by (auto simp: NextView.simps [of d])
  from NextView_refines [OF assms(1) this assms(2)]
  have "parse_frame (limits d) (pending_stream d) = Got f (pending_stream d')"
    by (auto simp: next_outcome_def split: parse.splits)
  from parse_frame_Got [OF this] show ?thesis by (auto simp: Encode_Inr_iff)
qed

theorem NextView_sound_witness:
  "\<exists>d f d' bs. NextView d = (FRAME_READY, Some f, d') \<and> Encode f = Inr bs \<and>
     pending_stream d = bs @ pending_stream d'"
proof -
  define h where "h = \<lparr>flags = 0, message_type = PING, request_id = 0\<rparr>"
  define d where "d = (new_decoder default_limits)\<lparr>dec_state := READ_METADATA, pending_header := h,
    pending_metadata_size := 0, pending_body_size := 0\<rparr>"
  have inv: "decoder_inv d"
    using new_decoder_inv(1) [of default_limits]
    by (simp add: decoder_inv_def d_def h_def header_ok_def IsValidMessageType_def message_types)
  have "\<exists>f d'. NextView d = (FRAME_READY, Some f, d')"
    by (subst NextView.simps) (simp add: d_def Let_def)
  with NextView_sound [OF inv] show ?thesis by blast
qed

section \<open>Memory bounds for every use of the decoder\<close>

text \<open>
  Any caller: the operations in any order, with any arguments, and the socket writing into
  the region \<open>PrepareWritable\<close> handed out. \<open>Feed\<close> is not used while such a region is open.
\<close>

inductive decoder_step :: "FrameDecoder \<Rightarrow> FrameDecoder \<Rightarrow> bool" where
  step_feed: "prepared_size d = 0 \<Longrightarrow> n \<le> length input \<Longrightarrow> Feed (Some input) n d = (st, d') \<Longrightarrow>
    decoder_step d d'"
| step_feed_null: "Feed None n d = (st, d') \<Longrightarrow> decoder_step d d'"
| step_prepare: "PrepareWritable n d = (r, d') \<Longrightarrow> decoder_step d d'"
| step_write: "length data \<le> prepared_size d \<Longrightarrow>
    decoder_step d (d\<lparr>buffer := memcpy_at (buffer_size d) data (buffer d)\<rparr>)"
| step_commit: "CommitWritable n d = (st, d') \<Longrightarrow> decoder_step d d'"
| step_next: "NextView d = (st, fo, d') \<Longrightarrow> decoder_step d d'"
| step_reset: "decoder_step d (Reset d)"

lemma make_room_inv:
  assumes "decoder_inv d" "prepared_size d = 0" "make_room n d = (b, d')"
  shows "decoder_inv d'" and "b \<Longrightarrow> buffer_size d' + n \<le> buffer_capacity d' \<and> prepared_size d' = 0"
proof -
  have "decoder_inv d' \<and> (b \<longrightarrow> buffer_size d' + n \<le> buffer_capacity d' \<and> prepared_size d' = 0)"
  proof (cases "ReadableBytes d + n \<le> max_buffer_size (limits d)")
    case True
    from make_room_shape [OF assms(1,2) this] obtain buf bs c ro where "make_room n d
      = (True, d\<lparr>buffer := buf, buffer_size := bs, buffer_capacity := c, read_offset := ro\<rparr>)"
      "length buf = c" "drop ro (take bs buf) = readable d" "ro \<le> bs" "bs + n \<le> c"
      "c \<le> max_buffer_size (limits d)" .
    with assms show ?thesis by (auto simp: decoder_inv_def)
  next
    case False
    with make_room_fail [OF assms(1,2) _ assms(3)] show ?thesis by simp
  qed
  then show "decoder_inv d'" "b \<Longrightarrow> buffer_size d' + n \<le> buffer_capacity d' \<and> prepared_size d' = 0"
    by simp_all
qed

lemma Feed_inv:
  assumes inv: "decoder_inv d" "prepared_size d = 0" and n: "n \<le> length input"
    and f: "Feed (Some input) n d = (st, d')"
  shows "decoder_inv d'"
proof (cases "dec_state d = FAILED \<or> n = 0")
  case True
  with f inv show ?thesis by (auto simp: Feed_def split: if_splits)
next
  case False
  obtain b d1 where m: "make_room n d = (b, d1)" by (cases "make_room n d")
  with False f have "d' = (if b then d1\<lparr>buffer := memcpy_at (buffer_size d1) (take n input) (buffer d1),
      buffer_size := buffer_size d1 + n\<rparr> else d1)"
    by (cases b) (simp_all add: Feed_make_room)
  with make_room_inv [OF inv m] n show ?thesis by (auto simp: decoder_inv_def)
qed

lemma PrepareWritable_inv:
  assumes inv: "decoder_inv d" and p: "PrepareWritable n d = (r, d')"
  shows "decoder_inv d'"
proof (cases "dec_state d = FAILED \<or> n = 0 \<or> prepared_size d \<noteq> 0")
  case True
  with p inv show ?thesis by (auto simp: PrepareWritable_def)
next
  case False
  obtain b d1 where m: "make_room n d = (b, d1)" by (cases "make_room n d")
  with False p have "d' = (if b then d1\<lparr>prepared_size := n\<rparr> else d1)"
    by (cases b) (auto simp: PrepareWritable_make_room)
  with make_room_inv [OF inv _ m] False show ?thesis by (auto simp: decoder_inv_def)
qed

lemma NextView_inv: "decoder_inv d \<Longrightarrow> NextView d = (st, fo, d') \<Longrightarrow> decoder_inv d'"
  using NextView_refines [of d st fo d']
  by (cases "dec_state d = FAILED") (auto simp: next_outcome_def NextView.simps [of d])

interpretation decoder_system: invariant_system "\<lambda>d. \<exists>lim. d = new_decoder lim" decoder_step decoder_inv
proof
  fix d :: FrameDecoder assume "\<exists>lim. d = new_decoder lim"
  then show "decoder_inv d" by (auto simp: new_decoder_inv)
next
  fix d d' assume inv: "decoder_inv d" and "decoder_step d d'"
  from this(2) inv show "decoder_inv d'"
  proof cases
    case step_feed_null
    with inv show ?thesis by (auto simp: Feed_def Fail_inv split: if_splits)
  next
    case step_write
    with inv show ?thesis by (simp add: decoder_inv_def)
  next
    case step_commit
    with inv show ?thesis by (auto simp: CommitWritable_def Fail_def decoder_inv_def split: if_splits)
  qed (auto intro: Feed_inv PrepareWritable_inv NextView_inv simp: Reset_inv)
qed



end
