(* ===== verification/TimerList.thy ===== *)
theory TimerList
  imports CoroPrelude
begin

text \<open>
  Timer nodes and the intrusive doubly linked list they are chained in: \<open>struct TimerNode\<close>
  and \<open>struct TimerList\<close> of \<open>runtime/timer_wheel.h\<close> and \<open>.cpp\<close>. Nodes are shared objects, so
  they live in an explicit store from addresses to records; null pointers are \<open>None\<close>. A list
  is one of the slots of a wheel or a list of the caller (the \<open>expired\<close> argument of
  \<open>TimerWheel::Advance\<close>).

  The lemmas show that the pointer manipulations implement lists: in a store whose lists
  hold the sequences \<open>C\<close>, every operation is the corresponding operation on \<open>C\<close>.
\<close>

type_synonym addr = nat

datatype list_id = Slot nat | Caller nat

datatype TimerNodeType = NONE | IO_WAIT | ROUTINE_WAIT

text \<open>\<open>kNotInDeadlineHeap\<close> is \<open>None\<close> in \<open>deadline_heap_index\<close>.\<close>

record TimerNode =
  previous :: "addr option"
  next_node :: "addr option"
  node_list :: "list_id option"
  deadline_ms :: u64
  scheduled :: bool
  node_type :: TimerNodeType
  deadline_heap_index :: "nat option"

record TimerList =
  head :: "addr option"
  tail :: "addr option"

record timers =
  nodes :: "addr \<Rightarrow> TimerNode"
  lists :: "list_id \<Rightarrow> TimerList"

definition upd_node :: "addr \<Rightarrow> (TimerNode \<Rightarrow> TimerNode) \<Rightarrow> 'a timers_scheme \<Rightarrow> 'a timers_scheme" where
  "upd_node n f s = s\<lparr>nodes := (nodes s)(n := f (nodes s n))\<rparr>"

definition upd_list :: "list_id \<Rightarrow> (TimerList \<Rightarrow> TimerList) \<Rightarrow> 'a timers_scheme \<Rightarrow> 'a timers_scheme" where
  "upd_list l f s = s\<lparr>lists := (lists s)(l := f (lists s l))\<rparr>"

definition PushBack :: "list_id \<Rightarrow> addr \<Rightarrow> 'a timers_scheme \<Rightarrow> string + 'a timers_scheme" where
  "PushBack l n s =
     (if node_list (nodes s n) \<noteq> None then Inl ''timer node is already linked''
      else
        let tl = tail (lists s l);
            s = upd_node n (\<lambda>x. x\<lparr>previous := tl, next_node := None, node_list := Some l\<rparr>) s;
            s = (case tl of
                   Some t \<Rightarrow> upd_node t (\<lambda>x. x\<lparr>next_node := Some n\<rparr>) s
                 | None \<Rightarrow> upd_list l (\<lambda>x. x\<lparr>head := Some n\<rparr>) s)
        in Inr (upd_list l (\<lambda>x. x\<lparr>tail := Some n\<rparr>) s))"

definition Remove :: "list_id \<Rightarrow> addr \<Rightarrow> 'a timers_scheme \<Rightarrow> 'a timers_scheme" where
  "Remove l n s =
     (if node_list (nodes s n) \<noteq> Some l then s
      else
        let pr = previous (nodes s n);
            nx = next_node (nodes s n);
            s = (case pr of
                   Some p \<Rightarrow> upd_node p (\<lambda>x. x\<lparr>next_node := nx\<rparr>) s
                 | None \<Rightarrow> upd_list l (\<lambda>x. x\<lparr>head := nx\<rparr>) s);
            s = (case nx of
                   Some q \<Rightarrow> upd_node q (\<lambda>x. x\<lparr>previous := pr\<rparr>) s
                 | None \<Rightarrow> upd_list l (\<lambda>x. x\<lparr>tail := pr\<rparr>) s)
        in upd_node n (\<lambda>x. x\<lparr>previous := None, next_node := None, node_list := None\<rparr>) s)"

definition PopFront :: "list_id \<Rightarrow> 'a timers_scheme \<Rightarrow> addr option \<times> 'a timers_scheme" where
  "PopFront l s =
     (case head (lists s l) of
        None \<Rightarrow> (None, s)
      | Some n \<Rightarrow> (Some n, Remove l n s))"

text \<open>The loop of \<open>SpliceBack\<close> that makes \<open>l\<close> the owner of the nodes from \<open>n\<close> on.\<close>

partial_function (option) take_over ::
    "list_id \<Rightarrow> addr option \<Rightarrow> 'a timers_scheme \<Rightarrow> 'a timers_scheme option" where
  "take_over l n s =
     (case n of
        None \<Rightarrow> Some s
      | Some a \<Rightarrow>
          let s = upd_node a (\<lambda>x. x\<lparr>node_list := Some l\<rparr>) s
          in take_over l (next_node (nodes s a)) s)"

definition SpliceBack :: "list_id \<Rightarrow> list_id \<Rightarrow> 'a timers_scheme \<Rightarrow> 'a timers_scheme option" where
  "SpliceBack l other s =
     (case head (lists s other) of
        None \<Rightarrow> Some s
      | Some h \<Rightarrow>
          (case take_over l (Some h) s of
             None \<Rightarrow> None
           | Some s \<Rightarrow>
               let s = (case tail (lists s l) of
                          Some t \<Rightarrow> upd_node h (\<lambda>x. x\<lparr>previous := Some t\<rparr>)
                                     (upd_node t (\<lambda>x. x\<lparr>next_node := Some h\<rparr>) s)
                        | None \<Rightarrow> upd_list l (\<lambda>x. x\<lparr>head := Some h\<rparr>) s);
                   other_tail = tail (lists s other);
                   s = upd_list l (\<lambda>x. x\<lparr>tail := other_tail\<rparr>) s
               in Some (upd_list other (\<lambda>x. x\<lparr>head := None, tail := None\<rparr>) s)))"

section \<open>Abstraction to lists\<close>

definition first_of :: "addr list \<Rightarrow> addr option \<Rightarrow> addr option" where
  "first_of xs nx = (case xs of [] \<Rightarrow> nx | x # _ \<Rightarrow> Some x)"

definition last_of :: "addr list \<Rightarrow> addr option \<Rightarrow> addr option" where
  "last_of xs pr = (if xs = [] then pr else Some (last xs))"

lemma first_of_simps [simp]: "first_of [] nx = nx" "first_of (x # xs) nx = Some x"
  "first_of (xs @ ys) nx = first_of xs (first_of ys nx)"
  by (simp_all add: first_of_def split: list.splits)

lemma last_of_simps [simp]: "last_of [] pr = pr" "last_of (x # xs) pr = last_of xs (Some x)"
  "last_of (xs @ ys) pr = last_of ys (last_of xs pr)"
  by (simp_all add: last_of_def)

text \<open>The nodes \<open>xs\<close> chained in this order, between \<open>pr\<close> and \<open>nx\<close>.\<close>

fun linked :: "(addr \<Rightarrow> TimerNode) \<Rightarrow> list_id \<Rightarrow> addr option \<Rightarrow> addr list \<Rightarrow> addr option \<Rightarrow> bool" where
  "linked ns l pr [] nx \<longleftrightarrow> True"
| "linked ns l pr (x # xs) nx \<longleftrightarrow> previous (ns x) = pr \<and> node_list (ns x) = Some l \<and>
     next_node (ns x) = first_of xs nx \<and> linked ns l (Some x) xs nx"

definition is_list :: "'a timers_scheme \<Rightarrow> list_id \<Rightarrow> addr list \<Rightarrow> bool" where
  "is_list s l xs \<longleftrightarrow> distinct xs \<and> linked (nodes s) l None xs None \<and>
     head (lists s l) = first_of xs None \<and> tail (lists s l) = last_of xs None"

text \<open>Every list \<open>l\<close> of the store holds \<open>C l\<close>, and a node is linked exactly where it is held.\<close>

definition store_ok :: "'a timers_scheme \<Rightarrow> (list_id \<Rightarrow> addr list) \<Rightarrow> bool" where
  "store_ok s C \<longleftrightarrow> (\<forall>l. is_list s l (C l)) \<and>
     (\<forall>n l. node_list (nodes s n) = Some l \<longleftrightarrow> n \<in> set (C l))"

lemma linked_append:
  "linked ns l pr (xs @ ys) nx \<longleftrightarrow>
     linked ns l pr xs (first_of ys nx) \<and> linked ns l (last_of xs pr) ys nx"
  by (induction xs arbitrary: pr) auto

lemma linked_cong:
  "(\<And>x. x \<in> set xs \<Longrightarrow> previous (ns' x) = previous (ns x) \<and> next_node (ns' x) = next_node (ns x) \<and>
     node_list (ns' x) = node_list (ns x)) \<Longrightarrow> linked ns' l pr xs nx = linked ns l pr xs nx"
  by (induction xs arbitrary: pr) auto

lemma linked_upd_other [simp]: "n \<notin> set xs \<Longrightarrow> linked (ns(n := y)) l pr xs nx = linked ns l pr xs nx"
  by (rule linked_cong) auto

lemma store_ok_disjoint: "store_ok s C \<Longrightarrow> l \<noteq> l' \<Longrightarrow> set (C l) \<inter> set (C l') = {}"
  by (auto simp: store_ok_def) (metis option.inject)

lemma store_ok_cong:
  assumes "store_ok s C" "lists s' = lists s"
    and "\<And>n. previous (nodes s' n) = previous (nodes s n) \<and> next_node (nodes s' n) = next_node (nodes s n) \<and>
      node_list (nodes s' n) = node_list (nodes s n)"
  shows "store_ok s' C"
  using assms linked_cong [of _ "nodes s'" "nodes s"] by (simp add: store_ok_def is_list_def)

section \<open>The operations on the store\<close>

lemmas store_simps = upd_node_def upd_list_def

lemma store_ok_lists: "store_ok s C \<Longrightarrow> is_list s l (C l)"
  by (simp add: store_ok_def)

lemma store_ok_member: "store_ok s C \<Longrightarrow> node_list (nodes s n) = Some l \<longleftrightarrow> n \<in> set (C l)"
  by (simp add: store_ok_def)

text \<open>
  The shape of every proof below: the lists not named by the operation are untouched because
  the nodes it writes do not belong to them.
\<close>

lemma store_ok_updI:
  assumes ok: "store_ok s C"
    and others: "\<And>k. k \<notin> K \<Longrightarrow> lists s' k = lists s k \<and> D k = C k"
    and nodes_same: "\<And>k n. k \<notin> K \<Longrightarrow> n \<in> set (C k) \<Longrightarrow> nodes s' n = nodes s n"
    and changed: "\<And>k. k \<in> K \<Longrightarrow> is_list s' k (D k)"
    and owner: "\<And>n k. node_list (nodes s' n) = Some k \<longleftrightarrow> n \<in> set (D k)"
  shows "store_ok s' D"
proof -
  have "is_list s' k (D k)" for k
  proof (cases "k \<in> K")
    case False
    with others nodes_same have "linked (nodes s') k None (C k) None = linked (nodes s) k None (C k) None"
      by (intro linked_cong) simp
    with ok others [OF False] show ?thesis by (simp add: store_ok_def is_list_def)
  qed (simp add: changed)
  with owner show ?thesis by (simp add: store_ok_def)
qed

lemma PushBack_ok:
  assumes ok: "store_ok s C" and free: "node_list (nodes s n) = None"
  shows "\<exists>s'. PushBack l n s = Inr s' \<and> store_ok s' (C(l := C l @ [n]))"
proof -
  have n: "n \<notin> set (C k)" for k using ok free by (metis store_ok_member option.distinct(1))
  note il = store_ok_lists [OF ok, of l, unfolded is_list_def]
  show ?thesis
  proof (cases "C l" rule: rev_cases)
    case Nil
    let ?s' = "upd_list l (\<lambda>x. x\<lparr>tail := Some n\<rparr>) (upd_list l (\<lambda>x. x\<lparr>head := Some n\<rparr>)
      (upd_node n (\<lambda>x. x\<lparr>previous := None, next_node := None, node_list := Some l\<rparr>) s))"
    have "PushBack l n s = Inr ?s'"
      using il free Nil by (simp add: PushBack_def)
    moreover have "store_ok ?s' (C(l := C l @ [n]))"
      by (rule store_ok_updI [OF ok, where K = "{l}"])
         (use n Nil free store_ok_member [OF ok] in \<open>auto simp: store_simps is_list_def\<close>)
    ultimately show ?thesis by blast
  next
    case (snoc ys t)
    with n [of l] have tn: "t \<noteq> n" by auto
    have t: "t \<in> set (C l)" by (simp add: snoc)
    let ?s' = "upd_list l (\<lambda>x. x\<lparr>tail := Some n\<rparr>) (upd_node t (\<lambda>x. x\<lparr>next_node := Some n\<rparr>)
      (upd_node n (\<lambda>x. x\<lparr>previous := Some t, next_node := None, node_list := Some l\<rparr>) s))"
    have "PushBack l n s = Inr ?s'"
      using il free snoc by (simp add: PushBack_def)
    moreover have "store_ok ?s' (C(l := C l @ [n]))"
    proof (rule store_ok_updI [OF ok, where K = "{l}"])
      fix k m assume "k \<notin> {l}" "m \<in> set (C k)"
      with n t store_ok_disjoint [OF ok, of k l] have "m \<noteq> n" "m \<noteq> t" by auto
      then show "nodes ?s' m = nodes s m" by (simp add: store_simps)
    next
      fix k assume "k \<in> {l}"
      moreover have "t \<notin> set ys" "n \<notin> set ys" using il n [of l] by (auto simp: snoc)
      ultimately show "is_list ?s' k ((C(l := C l @ [n])) k)"
        using il n [of l] tn by (simp add: store_simps is_list_def linked_append snoc)
    next
      fix m k
      show "node_list (nodes ?s' m) = Some k \<longleftrightarrow> m \<in> set ((C(l := C l @ [n])) k)"
        using tn free n store_ok_member [OF ok] by (auto simp: store_simps)
    qed (auto simp: store_simps)
    ultimately show ?thesis by blast
  qed
qed

lemma Remove_ok:
  assumes ok: "store_ok s C" and mem: "n \<in> set (C l)"
  shows "store_ok (Remove l n s) (C(l := remove1 n (C l)))"
    and "nodes (Remove l n s) n = (nodes s n)\<lparr>previous := None, next_node := None, node_list := None\<rparr>"
proof -
  from mem obtain xs ys where split: "C l = xs @ n # ys" by (meson split_list)
  note il = store_ok_lists [OF ok, of l, unfolded is_list_def]
  have d: "n \<notin> set xs" "n \<notin> set ys" "set xs \<inter> set ys = {}" "distinct xs" "distinct ys"
    using il by (simp_all add: split)
  have lnk: "linked (nodes s) l None xs (Some n)" "previous (nodes s n) = last_of xs None"
    "next_node (nodes s n) = first_of ys None" "linked (nodes s) l (Some n) ys None"
    "node_list (nodes s n) = Some l"
    using il by (simp_all add: split linked_append)
  have rem: "remove1 n (C l) = xs @ ys" using d by (simp add: split remove1_append)
  have ends: "last_of xs None \<noteq> Some n" "first_of ys None \<noteq> Some n"
    using d by (auto simp: last_of_def first_of_def split: list.splits if_splits)
  then show "nodes (Remove l n s) n = (nodes s n)\<lparr>previous := None, next_node := None, node_list := None\<rparr>"
    using lnk by (auto simp: Remove_def Let_def store_simps split: option.splits)
  have other: "k \<noteq> l \<Longrightarrow> m \<in> set (C k) \<Longrightarrow> m \<noteq> n \<and> m \<notin> set xs \<and> m \<notin> set ys" for k m
    using store_ok_disjoint [OF ok, of k l] by (auto simp: split)
  have owner: "node_list (nodes (Remove l n s) m) = (if m = n then None else node_list (nodes s m))" for m
    using lnk by (auto simp: Remove_def Let_def store_simps split: option.splits)
  show "store_ok (Remove l n s) (C(l := remove1 n (C l)))"
  proof (rule store_ok_updI [OF ok, where K = "{l}"])
    fix k m assume "k \<notin> {l}" "m \<in> set (C k)"
    with other [of k m] have "m \<noteq> n" "last_of xs None \<noteq> Some m" "first_of ys None \<noteq> Some m"
      by (auto simp: last_of_def first_of_def split: list.splits if_splits)
    then show "nodes (Remove l n s) m = nodes s m"
      using lnk by (auto simp: Remove_def Let_def store_simps split: option.splits)
  next
    fix k assume "k \<in> {l}"
    then show "is_list (Remove l n s) k ((C(l := remove1 n (C l))) k)"
      using il lnk d unfolding rem
      by (cases xs rule: rev_cases; cases ys)
         (auto simp: Remove_def Let_def store_simps is_list_def linked_append split)
  next
    fix m k
    show "node_list (nodes (Remove l n s) m) = Some k \<longleftrightarrow> m \<in> set ((C(l := remove1 n (C l))) k)"
      using owner store_ok_member [OF ok, of m k] other [of k m] rem split d by auto
  next
    fix k assume "k \<notin> {l}"
    then show "lists (Remove l n s) k = lists s k \<and> (C(l := remove1 n (C l))) k = C k"
      by (auto simp: Remove_def Let_def store_simps split: option.splits)
  qed
qed
text \<open>What the list operations leave alone: everything but the links, and the rest of the state.\<close>

definition same_data :: "'a timers_scheme \<Rightarrow> 'a timers_scheme \<Rightarrow> bool" where
  "same_data s s' \<longleftrightarrow> timers.more s' = timers.more s \<and>
     (\<forall>n. deadline_ms (nodes s' n) = deadline_ms (nodes s n) \<and> scheduled (nodes s' n) = scheduled (nodes s n) \<and>
        node_type (nodes s' n) = node_type (nodes s n) \<and>
        deadline_heap_index (nodes s' n) = deadline_heap_index (nodes s n))"

lemma PushBack_data: "PushBack l n s = Inr s' \<Longrightarrow> same_data s s'"
  by (auto simp: PushBack_def Let_def store_simps same_data_def split: option.splits if_splits)

lemma Remove_data: "same_data s (Remove l n s)"
  by (auto simp: Remove_def Let_def store_simps same_data_def split: option.splits)

lemma take_over_chain:
  assumes "linked (nodes s) k pr xs None" "distinct xs"
  shows "take_over l (first_of xs None) s =
    Some (s\<lparr>nodes := \<lambda>n. if n \<in> set xs then (nodes s n)\<lparr>node_list := Some l\<rparr> else nodes s n\<rparr>)"
  using assms
proof (induction xs arbitrary: s pr)
  case Nil
  then show ?case by (subst take_over.simps) simp
next
  case (Cons x xs)
  let ?s = "upd_node x (\<lambda>y. y\<lparr>node_list := Some l\<rparr>) s"
  have "next_node (nodes ?s x) = first_of xs None" "linked (nodes ?s) k (Some x) xs None"
    using Cons.prems by (simp_all add: store_simps)
  then have "take_over l (Some x) s =
      Some (?s\<lparr>nodes := \<lambda>n. if n \<in> set xs then (nodes ?s n)\<lparr>node_list := Some l\<rparr> else nodes ?s n\<rparr>)"
    using Cons.IH [of ?s] Cons.prems by (subst take_over.simps) (simp add: Let_def)
  also have "\<dots> = Some (s\<lparr>nodes := \<lambda>n. if n \<in> set (x # xs) then (nodes s n)\<lparr>node_list := Some l\<rparr> else nodes s n\<rparr>)"
    using Cons.prems by (auto simp: store_simps fun_eq_iff)
  finally show ?case by simp
qed

lemma linked_take_over:
  assumes "linked ns k pr xs nx" "set xs \<subseteq> A"
  shows "linked (\<lambda>n. if n \<in> A then (ns n)\<lparr>node_list := Some l\<rparr> else ns n) l pr xs nx"
  using assms by (induction xs arbitrary: pr) auto

lemma SpliceBack_ok:
  assumes ok: "store_ok s C" and ne: "l \<noteq> k"
  shows "\<exists>s'. SpliceBack l k s = Some s' \<and> store_ok s' (C(l := C l @ C k, k := [])) \<and> same_data s s'"
proof (cases "C k")
  case Nil
  then have "C(l := C l @ C k, k := []) = C" by auto
  moreover have "SpliceBack l k s = Some s"
    using store_ok_lists [OF ok, of k] Nil by (simp add: SpliceBack_def is_list_def)
  ultimately show ?thesis using ok by (simp add: same_data_def)
next
  case (Cons h hs)
  note ik = store_ok_lists [OF ok, of k, unfolded is_list_def]
  note il = store_ok_lists [OF ok, of l, unfolded is_list_def]
  have dj: "set (C l) \<inter> set (C k) = {}" using store_ok_disjoint [OF ok ne] .
  let ?ns = "\<lambda>n. if n \<in> set (C k) then (nodes s n)\<lparr>node_list := Some l\<rparr> else nodes s n"
  have ch: "take_over l (Some h) s = Some (s\<lparr>nodes := ?ns\<rparr>)"
    using take_over_chain [of s k None "C k" l] ik by (simp add: Cons)
  have lk: "linked ?ns l None (C k) None" by (rule linked_take_over [of _ k]) (use ik in simp_all)
  have hk: "head (lists s k) = Some h" "tail (lists s k) = Some (last (C k))" using ik by (simp_all add: Cons last_of_def)
  have other: "m \<in> set (C j) \<Longrightarrow> j \<notin> {l, k} \<Longrightarrow> m \<notin> set (C l) \<and> m \<notin> set (C k)" for m j
    using store_ok_disjoint [OF ok, of j l] store_ok_disjoint [OF ok, of j k] by auto
  show ?thesis
  proof (cases "C l" rule: rev_cases)
    case Nil
    let ?s' = "upd_list k (\<lambda>x. x\<lparr>head := None, tail := None\<rparr>) (upd_list l (\<lambda>x. x\<lparr>tail := Some (last (C k))\<rparr>)
      (upd_list l (\<lambda>x. x\<lparr>head := Some h\<rparr>) (s\<lparr>nodes := ?ns\<rparr>)))"
    have "SpliceBack l k s = Some ?s'"
      using hk ch il Nil ne by (simp add: SpliceBack_def Let_def) (simp add: store_simps)
    moreover have "store_ok ?s' (C(l := C l @ C k, k := []))"
      by (rule store_ok_updI [OF ok, where K = "{l, k}"])
         (use other Nil ne lk ik store_ok_member [OF ok] in \<open>auto simp: store_simps is_list_def Cons last_of_def\<close>)
    ultimately show ?thesis by (auto simp: same_data_def store_simps)
  next
    case (snoc ys t)
    have tl: "tail (lists s l) = Some t" "t \<notin> set (C k)" "t \<in> set (C l)" "t \<noteq> h" "h \<notin> set (C l)" "h \<notin> set hs"
      "t \<notin> set ys" "h \<notin> set ys" "t \<notin> set hs"
      using il ik dj by (auto simp: snoc Cons)
    let ?s' = "upd_list k (\<lambda>x. x\<lparr>head := None, tail := None\<rparr>) (upd_list l (\<lambda>x. x\<lparr>tail := Some (last (C k))\<rparr>)
      (upd_node h (\<lambda>x. x\<lparr>previous := Some t\<rparr>) (upd_node t (\<lambda>x. x\<lparr>next_node := Some h\<rparr>) (s\<lparr>nodes := ?ns\<rparr>))))"
    have "SpliceBack l k s = Some ?s'"
      using hk ch tl ne by (simp add: SpliceBack_def Let_def) (simp add: store_simps)
    moreover have "store_ok ?s' (C(l := C l @ C k, k := []))"
    proof (rule store_ok_updI [OF ok, where K = "{l, k}"])
      fix j m assume "j \<notin> {l, k}" "m \<in> set (C j)"
      with other [of m j] tl show "nodes ?s' m = nodes s m" by (auto simp: store_simps Cons)
    next
      fix j assume "j \<in> {l, k}"
      moreover have "linked ?ns l None ys (Some t) = linked (nodes s) l None ys (Some t)"
        by (rule linked_cong) (use dj in \<open>auto simp: snoc\<close>)
      then have "linked ?ns l None ys (Some t)" using il by (simp add: snoc linked_append)
      moreover have "linked ?ns l (Some h) hs None" "previous (?ns h) = None" "next_node (?ns h) = first_of hs None"
        using lk unfolding Cons by (simp_all del: list.set)
      ultimately show "is_list ?s' j ((C(l := C l @ C k, k := [])) j)"
        using il ik lk ne tl dj
        by (auto simp: store_simps is_list_def linked_append snoc Cons last_of_def)
    next
      fix m j
      show "node_list (nodes ?s' m) = Some j \<longleftrightarrow> m \<in> set ((C(l := C l @ C k, k := [])) j)"
      proof -
        have own: "node_list (nodes ?s' m) = (if m \<in> set (C k) then Some l else node_list (nodes s m))"
          by (simp add: store_simps)
        have "j = l \<or> j = k \<or> m \<notin> set (C j) \<or> m \<notin> set (C k)" using other [of m j] by blast
        with store_ok_member [OF ok, of m j] store_ok_member [OF ok, of m k] show ?thesis
          unfolding own using ne by auto
      qed
    qed (auto simp: store_simps)
    ultimately show ?thesis by (auto simp: same_data_def store_simps)
  qed
qed

lemma PopFront_ok:
  assumes ok: "store_ok s C" and p: "PopFront l s = (r, s')"
  shows "r = first_of (C l) None \<and> store_ok s' (C(l := tl (C l)))"
proof (cases "C l")
  case Nil
  moreover have "C(l := []) = C" using Nil by auto
  ultimately show ?thesis
    using p ok store_ok_lists [OF ok, of l] by (simp add: PopFront_def is_list_def)
next
  case (Cons h hs)
  with Remove_ok(1) [OF ok, of h l] p store_ok_lists [OF ok, of l] show ?thesis
    by (auto simp: PopFront_def is_list_def)
qed

text \<open>
  C17. The intrusive doubly linked timer lists implement sequences: in a store whose lists hold
  the sequences \<open>C\<close>, linking an unlinked node appends it, unlinking deletes it from the list
  that holds it, popping takes the first node, and splicing moves all nodes of one list
  behind those of another. All lists stay well linked and no other list changes.
\<close>

theorem timer_lists_refine:
  assumes "store_ok s C"
  shows "(node_list (nodes s n) = None \<longrightarrow>
           (\<exists>s'. PushBack l n s = Inr s' \<and> store_ok s' (C(l := C l @ [n])))) \<and>
     (n \<in> set (C l) \<longrightarrow> store_ok (Remove l n s) (C(l := remove1 n (C l)))) \<and>
     (\<exists>s'. PopFront l s = (first_of (C l) None, s') \<and> store_ok s' (C(l := tl (C l)))) \<and>
     (l \<noteq> k \<longrightarrow> (\<exists>s'. SpliceBack l k s = Some s' \<and> store_ok s' (C(l := C l @ C k, k := []))))"
proof (intro conjI impI)
  show "\<exists>s'. PopFront l s = (first_of (C l) None, s') \<and> store_ok s' (C(l := tl (C l)))"
    using PopFront_ok [OF assms, of l] by (cases "PopFront l s") blast
  show "l \<noteq> k \<Longrightarrow> \<exists>s'. SpliceBack l k s = Some s' \<and> store_ok s' (C(l := C l @ C k, k := []))"
    using SpliceBack_ok [OF assms, of l k] by blast
qed (simp_all add: PushBack_ok [OF assms] Remove_ok(1) [OF assms])

definition idle_timers :: timers where
  "idle_timers = \<lparr>nodes = \<lambda>_. \<lparr>previous = None, next_node = None, node_list = None, deadline_ms = 5,
      scheduled = False, node_type = IO_WAIT, deadline_heap_index = None\<rparr>,
      lists = \<lambda>_. \<lparr>head = None, tail = None\<rparr>\<rparr>"

theorem timer_lists_refine_witness:
  "\<exists>s'. PushBack (Slot 3) 7 idle_timers = Inr s' \<and> store_ok s' ((\<lambda>_. [])(Slot 3 := [7]))"
proof -
  have "store_ok idle_timers (\<lambda>_. [])" by (simp add: store_ok_def is_list_def idle_timers_def)
  from timer_lists_refine [OF this, of 7 "Slot 3"] show ?thesis
    by (simp add: idle_timers_def)
qed

end
