(* ===== verification/DeadlineHeap.thy ===== *)
theory DeadlineHeap
  imports TimerList "HOL-Library.Multiset" "HOL-Library.Product_Lexorder"
begin

text \<open>
  The binary heap over the scheduled timers, the \<open>DeadlineHeap\<close> functions of
  \<open>runtime/timer_wheel.cpp\<close>. The heap is an array of node pointers; every node stores its own
  position, which makes removal from the middle possible. The record of the wheel extends
  the store of timer nodes and lists.

  The lemmas: positions stay consistent with the array, the array stays ordered by deadline
  (ties by address, as \<open>DeadlineBefore\<close> compares), insertion and removal change the set of
  queued timers by exactly the given one, and the front is the earliest deadline.
\<close>

record TimerWheel = timers +
  slot_count :: nat
  current_tick_ms :: u64
  current_slot :: nat
  wheel_size :: nat
  deadline_heap :: "addr list"

definition DeadlineBefore :: "TimerWheel \<Rightarrow> addr \<Rightarrow> addr \<Rightarrow> bool" where
  "DeadlineBefore w left right \<longleftrightarrow> deadline_ms (nodes w left) < deadline_ms (nodes w right) \<or>
     (deadline_ms (nodes w left) = deadline_ms (nodes w right) \<and> left < right)"

definition set_index :: "addr \<Rightarrow> nat option \<Rightarrow> TimerWheel \<Rightarrow> TimerWheel" where
  "set_index a i w = upd_node a (\<lambda>x. x\<lparr>deadline_heap_index := i\<rparr>) w"

definition DeadlineHeapSwap :: "nat \<Rightarrow> nat \<Rightarrow> TimerWheel \<Rightarrow> TimerWheel" where
  "DeadlineHeapSwap left right w =
     (let h = deadline_heap w;
          h = h[left := h ! right, right := h ! left];
          w = w\<lparr>deadline_heap := h\<rparr>;
          w = set_index (h ! left) (Some left) w
      in set_index (h ! right) (Some right) w)"

lemma heap_of_upd [simp]:
  "deadline_heap (upd_node a f w) = deadline_heap w" "deadline_heap (set_index a i w) = deadline_heap w"
  by (simp_all add: upd_node_def set_index_def)

lemma length_heap_swap [simp]: "length (deadline_heap (DeadlineHeapSwap l r w)) = length (deadline_heap w)"
  by (simp add: DeadlineHeapSwap_def Let_def)

function DeadlineHeapSiftUp :: "nat \<Rightarrow> TimerWheel \<Rightarrow> TimerWheel" where
  "DeadlineHeapSiftUp index w =
     (if index > 0 then
        let parent = (index - 1) div 2
        in if \<not> DeadlineBefore w (deadline_heap w ! index) (deadline_heap w ! parent) then w
           else DeadlineHeapSiftUp parent (DeadlineHeapSwap index parent w)
      else w)"
  by pat_completeness auto
termination by (relation "measure (\<lambda>(i, w). i)") auto

function DeadlineHeapSiftDown :: "nat \<Rightarrow> TimerWheel \<Rightarrow> TimerWheel" where
  "DeadlineHeapSiftDown index w =
     (let left = index * 2 + 1
      in if left \<ge> length (deadline_heap w) then w
         else
           let right = left + 1;
               child = (if right < length (deadline_heap w) \<and>
                           DeadlineBefore w (deadline_heap w ! right) (deadline_heap w ! left)
                        then right else left)
           in if \<not> DeadlineBefore w (deadline_heap w ! child) (deadline_heap w ! index) then w
              else DeadlineHeapSiftDown child (DeadlineHeapSwap index child w))"
  by pat_completeness auto
termination by (relation "measure (\<lambda>(i, w). length (deadline_heap w) - i)") (auto split: if_splits)

declare DeadlineHeapSiftUp.simps [simp del] DeadlineHeapSiftDown.simps [simp del]

definition DeadlineHeapInsert :: "addr \<Rightarrow> TimerWheel \<Rightarrow> string + TimerWheel" where
  "DeadlineHeapInsert a w =
     (if deadline_heap_index (nodes w a) \<noteq> None then Inl ''timer node is already in deadline heap''
      else
        let w = set_index a (Some (length (deadline_heap w))) w;
            w = w\<lparr>deadline_heap := deadline_heap w @ [a]\<rparr>
        in Inr (DeadlineHeapSiftUp (the (deadline_heap_index (nodes w a))) w))"

definition DeadlineHeapRemove :: "addr \<Rightarrow> TimerWheel \<Rightarrow> TimerWheel" where
  "DeadlineHeapRemove a w =
     (case deadline_heap_index (nodes w a) of
        None \<Rightarrow> w
      | Some index \<Rightarrow>
          let lst = last (deadline_heap w);
              w = w\<lparr>deadline_heap := butlast (deadline_heap w)\<rparr>;
              w = set_index a None w
          in if index = length (deadline_heap w) then w
             else
               let w = w\<lparr>deadline_heap := (deadline_heap w)[index := lst]\<rparr>;
                   w = set_index lst (Some index) w
               in if index > 0 \<and> DeadlineBefore w lst (deadline_heap w ! ((index - 1) div 2))
                  then DeadlineHeapSiftUp index w
                  else DeadlineHeapSiftDown index w)"

definition NextDeadlineMs :: "TimerWheel \<Rightarrow> u64" where
  "NextDeadlineMs w = (case deadline_heap w of [] \<Rightarrow> - 1 | a # _ \<Rightarrow> deadline_ms (nodes w a))"

section \<open>Heap order on array positions\<close>

definition par :: "nat \<Rightarrow> nat" where
  "par j = (j - 1) div 2"

definition heap_order :: "(nat \<Rightarrow> 'k::linorder) \<Rightarrow> nat \<Rightarrow> bool" where
  "heap_order f n \<longleftrightarrow> (\<forall>j < n. 0 < j \<longrightarrow> f (par j) \<le> f j)"

text \<open>Heap order except that position \<open>i\<close> may be too small (\<open>up_order\<close>) or too large (\<open>down_order\<close>).\<close>

definition up_order :: "(nat \<Rightarrow> 'k::linorder) \<Rightarrow> nat \<Rightarrow> nat \<Rightarrow> bool" where
  "up_order f n i \<longleftrightarrow> (\<forall>j < n. 0 < j \<and> j \<noteq> i \<longrightarrow> f (par j) \<le> f j) \<and>
     (\<forall>j < n. 0 < j \<and> par j = i \<and> 0 < i \<longrightarrow> f (par i) \<le> f j)"

definition down_order :: "(nat \<Rightarrow> 'k::linorder) \<Rightarrow> nat \<Rightarrow> nat \<Rightarrow> bool" where
  "down_order f n i \<longleftrightarrow> (\<forall>j < n. 0 < j \<and> par j \<noteq> i \<longrightarrow> f (par j) \<le> f j) \<and>
     (\<forall>j < n. 0 < j \<and> par j = i \<and> 0 < i \<longrightarrow> f (par i) \<le> f j)"

lemma par_less: "0 < j \<Longrightarrow> par j < j"
  by (simp add: par_def)

lemma par_child: "0 < j \<Longrightarrow> par j = i \<longleftrightarrow> j = 2 * i + 1 \<or> j = 2 * i + 2"
  by (auto simp: par_def)

lemma heap_order_min: "heap_order f n \<Longrightarrow> i < n \<Longrightarrow> f 0 \<le> f i"
proof (induction i rule: less_induct)
  case (less i)
  show ?case
  proof (cases "i = 0")
    case False
    with less par_less [of i] have "f 0 \<le> f (par i)" by auto
    also have "\<dots> \<le> f i" using less.prems False by (auto simp: heap_order_def)
    finally show ?thesis .
  qed simp
qed

lemma up_order_done: "up_order f n i \<Longrightarrow> i = 0 \<or> f (par i) \<le> f i \<Longrightarrow> heap_order f n"
  unfolding up_order_def heap_order_def by (metis less_numeral_extra(3))

lemma up_order_swap:
  assumes "up_order f n i" "0 < i" "i < n" "f i < f (par i)"
  shows "up_order (f(i := f (par i), par i := f i)) n (par i)"
proof -
  let ?p = "par i" and ?g = "f(i := f (par i), par i := f i)"
  have p: "?p < i" using assms(2) by (rule par_less)
  have edge: "f (par j) \<le> f j" if "j < n" "0 < j" "j \<noteq> i" for j
    using assms(1) that by (auto simp: up_order_def)
  have kids: "f ?p \<le> f j" if "j < n" "0 < j" "par j = i" for j
    using assms(1,2) that by (auto simp: up_order_def)
  have "?g (par j) \<le> ?g j" if j: "j < n" "0 < j" "j \<noteq> ?p" for j
  proof (cases "j = i")
    case True
    then show ?thesis using p assms(4) by simp
  next
    case False
    have "par j < j" using j(2) by (rule par_less)
    then show ?thesis
      using edge [OF j(1,2) False] kids [OF j(1,2)] False j(3) assms(4) p by auto
  qed
  moreover have "?g (par ?p) \<le> ?g j" if j: "j < n" "0 < j" "par j = ?p" "0 < ?p" for j
  proof -
    have pp: "par ?p < ?p" "f (par ?p) \<le> f ?p"
      using edge [of ?p] j(4) p assms(3) par_less [of ?p] by auto
    have "j \<noteq> ?p" using par_less [OF j(2)] j(3) by auto
    then show ?thesis using edge [OF j(1,2)] j(3) pp p by (auto intro: order_trans)
  qed
  ultimately show ?thesis by (auto simp: up_order_def)
qed

lemma down_order_done:
  assumes "down_order f n i" "\<And>c. c < n \<Longrightarrow> 0 < c \<Longrightarrow> par c = i \<Longrightarrow> f i \<le> f c"
  shows "heap_order f n"
  using assms unfolding down_order_def heap_order_def by metis

lemma down_order_swap:
  assumes "down_order f n i" "c < n" "0 < c" "par c = i" "f c < f i"
    and least: "\<And>j. j < n \<Longrightarrow> 0 < j \<Longrightarrow> par j = i \<Longrightarrow> f c \<le> f j"
  shows "down_order (f(i := f c, c := f i)) n c"
proof -
  let ?g = "f(i := f c, c := f i)"
  have ci: "i < c" using assms(3,4) par_less by blast
  have edge: "f (par j) \<le> f j" if "j < n" "0 < j" "par j \<noteq> i" for j
    using assms(1) that by (auto simp: down_order_def)
  have kids: "f (par i) \<le> f j" if "j < n" "0 < j" "par j = i" "0 < i" for j
    using assms(1) that by (auto simp: down_order_def)
  have "?g (par j) \<le> ?g j" if j: "j < n" "0 < j" "par j \<noteq> c" for j
  proof (cases "j = c")
    case True
    then show ?thesis using assms(4,5) ci by simp
  next
    case False
    have "par j < j" using j(2) by (rule par_less)
    then show ?thesis
      using edge [OF j(1,2)] kids [OF assms(2,3,4)] least [OF j(1,2)] False j assms(4,5) ci by auto
  qed
  moreover have "?g (par c) \<le> ?g j" if j: "j < n" "0 < j" "par j = c" for j
    using edge [OF j(1,2)] j assms(4,5) ci par_less [OF j(2)] by auto
  ultimately show ?thesis by (auto simp: down_order_def)
qed

section \<open>The concrete heap\<close>

definition key :: "TimerWheel \<Rightarrow> addr \<Rightarrow> u64 \<times> addr" where
  "key w a = (deadline_ms (nodes w a), a)"

definition keys :: "TimerWheel \<Rightarrow> nat \<Rightarrow> u64 \<times> addr" where
  "keys w j = key w (deadline_heap w ! j)"

lemma DeadlineBefore_key: "DeadlineBefore w l r \<longleftrightarrow> key w l < key w r"
  by (auto simp: DeadlineBefore_def key_def less_prod_def)

definition index_ok :: "TimerWheel \<Rightarrow> bool" where
  "index_ok w \<longleftrightarrow> distinct (deadline_heap w) \<and>
     (\<forall>a i. deadline_heap_index (nodes w a) = Some i \<longleftrightarrow> i < length (deadline_heap w) \<and> deadline_heap w ! i = a)"

definition heap_inv :: "TimerWheel \<Rightarrow> bool" where
  "heap_inv w \<longleftrightarrow> index_ok w \<and> heap_order (keys w) (length (deadline_heap w))"

text \<open>
  The heap functions write the array and the stored positions, nothing else: \<open>no_heap\<close> is
  the wheel without both.
\<close>

definition no_heap :: "TimerWheel \<Rightarrow> TimerWheel" where
  "no_heap w = w\<lparr>nodes := \<lambda>a. (nodes w a)\<lparr>deadline_heap_index := None\<rparr>, deadline_heap := []\<rparr>"

lemma no_heap_eqD:
  assumes "no_heap w' = no_heap w"
  shows "lists w' = lists w" "slot_count w' = slot_count w" "current_tick_ms w' = current_tick_ms w"
    "current_slot w' = current_slot w" "wheel_size w' = wheel_size w"
    "deadline_ms (nodes w' a) = deadline_ms (nodes w a)" "previous (nodes w' a) = previous (nodes w a)"
    "next_node (nodes w' a) = next_node (nodes w a)" "node_list (nodes w' a) = node_list (nodes w a)"
    "scheduled (nodes w' a) = scheduled (nodes w a)" "node_type (nodes w' a) = node_type (nodes w a)"
    "key w' a = key w a"
proof -
  have *: "f (no_heap w') = f (no_heap w)" for f :: "TimerWheel \<Rightarrow> 'b" using assms by simp
  show "lists w' = lists w" using * [of lists] by (simp add: no_heap_def)
  show "slot_count w' = slot_count w" using arg_cong [OF assms, of slot_count] by (simp add: no_heap_def)
  show "current_tick_ms w' = current_tick_ms w"
    using arg_cong [OF assms, of current_tick_ms] by (simp add: no_heap_def)
  show "current_slot w' = current_slot w" using arg_cong [OF assms, of current_slot] by (simp add: no_heap_def)
  show "wheel_size w' = wheel_size w" using arg_cong [OF assms, of wheel_size] by (simp add: no_heap_def)
  have n: "(nodes w' a)\<lparr>deadline_heap_index := None\<rparr> = (nodes w a)\<lparr>deadline_heap_index := None\<rparr>"
    using arg_cong [OF assms, of "\<lambda>w. nodes w a"] by (simp add: no_heap_def)
  show dl: "deadline_ms (nodes w' a) = deadline_ms (nodes w a)" using arg_cong [OF n, of deadline_ms] by simp
  show "previous (nodes w' a) = previous (nodes w a)" using arg_cong [OF n, of previous] by simp
  show "next_node (nodes w' a) = next_node (nodes w a)" using arg_cong [OF n, of next_node] by simp
  show "node_list (nodes w' a) = node_list (nodes w a)" using arg_cong [OF n, of node_list] by simp
  show "scheduled (nodes w' a) = scheduled (nodes w a)" using arg_cong [OF n, of scheduled] by simp
  show "node_type (nodes w' a) = node_type (nodes w a)" using arg_cong [OF n, of node_type] by simp
  show "key w' a = key w a" by (simp add: key_def dl)
qed

lemma no_heap_simps [simp]:
  "no_heap (set_index a i w) = no_heap w" "no_heap (w\<lparr>deadline_heap := h\<rparr>) = no_heap w"
  by (simp_all add: no_heap_def set_index_def upd_node_def fun_eq_iff)

lemma index_set_index [simp]:
  "deadline_heap_index (nodes (set_index a i w) b) = (if b = a then i else deadline_heap_index (nodes w b))"
  by (simp add: set_index_def upd_node_def)

lemma nodes_heap_update [simp]: "nodes (w\<lparr>deadline_heap := h\<rparr>) = nodes w"
  by simp

lemma Swap_facts:
  assumes "index_ok w" "l < length (deadline_heap w)" "r < length (deadline_heap w)" "l \<noteq> r"
  shows "index_ok (DeadlineHeapSwap l r w)" "no_heap (DeadlineHeapSwap l r w) = no_heap w"
    "mset (deadline_heap (DeadlineHeapSwap l r w)) = mset (deadline_heap w)"
    "keys (DeadlineHeapSwap l r w) = (keys w)(l := keys w r, r := keys w l)"
proof -
  let ?w = "DeadlineHeapSwap l r w" and ?h = "deadline_heap w"
  have h: "deadline_heap ?w = ?h[l := ?h ! r, r := ?h ! l]" by (simp add: DeadlineHeapSwap_def Let_def)
  show m: "mset (deadline_heap ?w) = mset ?h" unfolding h using assms(3,2) by (rule mset_swap)
  show nh: "no_heap ?w = no_heap w" by (simp add: DeadlineHeapSwap_def Let_def)
  show "keys ?w = (keys w)(l := keys w r, r := keys w l)"
    using assms(2-4) by (auto simp: keys_def fun_eq_iff no_heap_eqD(12) [OF nh] h nth_list_update)
  have d: "distinct ?h" and ix: "\<And>a i. deadline_heap_index (nodes w a) = Some i \<longleftrightarrow> i < length ?h \<and> ?h ! i = a"
    using assms(1) by (auto simp: index_ok_def)
  have "distinct (deadline_heap ?w)" using d m by (metis mset_eq_imp_distinct_iff)
  moreover have "deadline_heap_index (nodes ?w a) =
      (if a = ?h ! l then Some r else if a = ?h ! r then Some l else deadline_heap_index (nodes w a))" for a
    using assms(2-4) by (simp add: DeadlineHeapSwap_def Let_def)
  ultimately show "index_ok ?w"
    unfolding index_ok_def h
    using assms(2-4) ix nth_eq_iff_index_eq [OF d] by (auto simp: nth_list_update)
qed

lemma SiftUp_facts:
  assumes "index_ok w" "up_order (keys w) (length (deadline_heap w)) i" "i < length (deadline_heap w)"
  shows "heap_inv (DeadlineHeapSiftUp i w) \<and> no_heap (DeadlineHeapSiftUp i w) = no_heap w \<and>
    mset (deadline_heap (DeadlineHeapSiftUp i w)) = mset (deadline_heap w)"
  using assms
proof (induction i w rule: DeadlineHeapSiftUp.induct)
  case (1 i w)
  let ?p = "(i - 1) div 2"
  show ?case
  proof (cases "0 < i \<and> DeadlineBefore w (deadline_heap w ! i) (deadline_heap w ! ?p)")
    case True
    then have p: "?p < i" "keys w i < keys w ?p" by (auto simp: DeadlineBefore_key keys_def)
    note sw = Swap_facts [OF 1(2), of i ?p]
    have step: "DeadlineHeapSiftUp i w = DeadlineHeapSiftUp ?p (DeadlineHeapSwap i ?p w)"
      using True by (subst DeadlineHeapSiftUp.simps) (simp add: Let_def)
    have "up_order (keys (DeadlineHeapSwap i ?p w)) (length (deadline_heap w)) ?p"
      using up_order_swap [OF 1(3) _ 1(4)] True p 1(4) sw(4) by (simp add: par_def)
    then show ?thesis
      unfolding step using 1(1) [of ?p] True sw(1-3) 1(4) p by simp
  next
    case False
    then have "DeadlineHeapSiftUp i w = w"
      by (subst DeadlineHeapSiftUp.simps) (auto simp: Let_def)
    moreover from False have "i = 0 \<or> keys w ?p \<le> keys w i"
      by (auto simp: DeadlineBefore_key keys_def not_less)
    with up_order_done [OF 1(3)] have "heap_order (keys w) (length (deadline_heap w))"
      by (simp add: par_def)
    ultimately show ?thesis using 1(2) by (simp add: heap_inv_def)
  qed
qed

lemma smaller_child:
  fixes f :: "nat \<Rightarrow> 'k::linorder"
  assumes "c = (if i * 2 + 1 + 1 < n \<and> f (i * 2 + 1 + 1) < f (i * 2 + 1) then i * 2 + 1 + 1 else i * 2 + 1)"
    and "j < n" "0 < j" "par j = i"
  shows "f c \<le> f j"
proof -
  have "j = i * 2 + 1 \<or> j = i * 2 + 1 + 1" using assms(3,4) par_child [of j i] by (auto simp: mult.commute)
  then show ?thesis using assms(1,2) by (cases "f (i * 2 + 1 + 1) < f (i * 2 + 1)") auto
qed

lemma SiftDown_facts:
  assumes "index_ok w" "down_order (keys w) (length (deadline_heap w)) i" "i < length (deadline_heap w)"
  shows "heap_inv (DeadlineHeapSiftDown i w) \<and> no_heap (DeadlineHeapSiftDown i w) = no_heap w \<and>
    mset (deadline_heap (DeadlineHeapSiftDown i w)) = mset (deadline_heap w)"
  using assms
proof (induction i w rule: DeadlineHeapSiftDown.induct)
  case (1 i w)
  let ?n = "length (deadline_heap w)" and ?l = "i * 2 + 1" and ?r = "i * 2 + 1 + 1"
  define c where "c = (if ?r < ?n \<and> DeadlineBefore w (deadline_heap w ! ?r) (deadline_heap w ! ?l) then ?r else ?l)"
  have least: "keys w c \<le> keys w j" if "j < ?n" "0 < j" "par j = i" for j
    using smaller_child [OF _ that, of c "keys w"] by (simp only: c_def DeadlineBefore_key keys_def)
  show ?case
  proof (cases "?l < ?n \<and> DeadlineBefore w (deadline_heap w ! c) (deadline_heap w ! i)")
    case True
    then have c: "c < ?n" "0 < c" "par c = i" "i < c" "keys w c < keys w i"
      by (auto simp: c_def DeadlineBefore_key keys_def par_def)
    note sw = Swap_facts [OF 1(2), of i c]
    have step: "DeadlineHeapSiftDown i w = DeadlineHeapSiftDown c (DeadlineHeapSwap i c w)"
      unfolding DeadlineHeapSiftDown.simps [of i w] Let_def c_def [symmetric] using True by simp
    have k: "keys (DeadlineHeapSwap i c w) = (keys w)(i := keys w c, c := keys w i)"
      using sw(4) c 1(4) by simp
    have "down_order (keys (DeadlineHeapSwap i c w)) ?n c"
      unfolding k by (rule down_order_swap [OF 1(3) c(1,2,3,5)]) (rule least)
    then show ?thesis
      unfolding step using 1(1) [OF refl _ refl c_def] True sw(1-3) 1(4) c by simp
  next
    case False
    then have "DeadlineHeapSiftDown i w = w"
      unfolding DeadlineHeapSiftDown.simps [of i w] Let_def c_def [symmetric] by auto
    moreover have "heap_order (keys w) ?n"
    proof (rule down_order_done [OF 1(3)])
      fix j assume j: "j < ?n" "0 < j" "par j = i"
      then have "?l < ?n" by (auto simp: par_child)
      with False have "keys w i \<le> keys w c" by (auto simp: DeadlineBefore_key keys_def not_less)
      also have "\<dots> \<le> keys w j" by (rule least [OF j])
      finally show "keys w i \<le> keys w j" .
    qed
    ultimately show ?thesis using 1(2) by (simp add: heap_inv_def)
  qed
qed
lemma order_cong:
  assumes "\<And>j. j < n \<Longrightarrow> f j = g j" "i < n"
  shows "up_order f n i = up_order g n i" "down_order f n i = down_order g n i"
    "heap_order f n = heap_order g n"
proof -
  have p: "f (par j) = g (par j)" if "j < n" for j
    using that by (intro assms(1)) (simp add: par_def)
  show "up_order f n i = up_order g n i" "down_order f n i = down_order g n i"
    "heap_order f n = heap_order g n"
    using assms p by (simp_all add: up_order_def down_order_def heap_order_def cong: conj_cong)
qed

lemma up_order_replace:
  assumes "heap_order f n" "m \<le> n" "0 < i" "i < m" "x < f (par i)"
  shows "up_order (f(i := x)) m i"
proof -
  have e: "f (par j) \<le> f j" if "j < m" "0 < j" for j using assms(1,2) that by (simp add: heap_order_def)
  have i: "par i < i" "f (par i) \<le> f i" using assms e par_less by auto
  have "(f(i := x)) (par j) \<le> (f(i := x)) j" if "j < m" "0 < j" "j \<noteq> i" for j
    using e [OF that(1,2)] that(3) i assms(5) by auto
  moreover have "(f(i := x)) (par i) \<le> (f(i := x)) j" if "j < m" "0 < j" "par j = i" for j
    using e [OF that(1,2)] that i par_less [OF that(2)] by auto
  ultimately show ?thesis by (auto simp: up_order_def)
qed

lemma down_order_replace:
  assumes "heap_order f n" "m \<le> n" "i < m" "i = 0 \<or> f (par i) \<le> x"
  shows "down_order (f(i := x)) m i"
proof -
  have e: "f (par j) \<le> f j" if "j < m" "0 < j" for j using assms(1,2) that by (simp add: heap_order_def)
  have "(f(i := x)) (par j) \<le> (f(i := x)) j" if "j < m" "0 < j" "par j \<noteq> i" for j
    using e [OF that(1,2)] that(3) assms(4) that(2) by auto
  moreover have "(f(i := x)) (par i) \<le> (f(i := x)) j" if "j < m" "0 < j" "par j = i" "0 < i" for j
    using e [OF that(1,2)] e [of i] assms(3) that par_less [OF that(2)] par_less [OF that(4)] by auto
  ultimately show ?thesis by (auto simp: down_order_def)
qed

lemma index_ok_mem: "index_ok w \<Longrightarrow> deadline_heap_index (nodes w a) = None \<longleftrightarrow> a \<notin> set (deadline_heap w)"
  unfolding index_ok_def in_set_conv_nth by (metis option.exhaust option.distinct(1))

lemma heap_update_id [simp]: "deadline_heap (w\<lparr>deadline_heap := h\<rparr>) = h"
  by simp

lemma Insert_facts:
  assumes inv: "heap_inv w" and new: "deadline_heap_index (nodes w a) = None"
  shows "\<exists>w'. DeadlineHeapInsert a w = Inr w' \<and> heap_inv w' \<and> no_heap w' = no_heap w \<and>
     set (deadline_heap w') = insert a (set (deadline_heap w))"
proof -
  let ?h = "deadline_heap w"
  let ?n = "length ?h"
  define v where "v = (set_index a (Some ?n) w)\<lparr>deadline_heap := ?h @ [a]\<rparr>"
  have ix: "index_ok w" and ho: "heap_order (keys w) ?n" using inv by (auto simp: heap_inv_def)
  have a: "a \<notin> set ?h" using index_ok_mem [OF ix] new by simp
  have nh: "no_heap v = no_heap w" by (simp add: v_def)
  have iv: "index_ok v"
    using ix a by (auto simp: v_def index_ok_def nth_append less_Suc_eq)
  have kv: "j < ?n \<Longrightarrow> keys v j = keys w j" for j
    by (simp add: keys_def no_heap_eqD(12) [OF nh] nth_append) (simp add: v_def nth_append)
  have "up_order (keys v) (Suc ?n) ?n"
    unfolding up_order_def
  proof (intro conjI allI impI)
    fix j assume "j < Suc ?n" "0 < j \<and> j \<noteq> ?n"
    then show "keys v (par j) \<le> keys v j"
      using ho kv [of j] kv [of "par j"] par_less [of j] by (auto simp: heap_order_def)
  next
    fix j assume "j < Suc ?n" "0 < j \<and> par j = ?n \<and> 0 < ?n"
    then show "keys v (par ?n) \<le> keys v j" using par_less [of j] by auto
  qed
  moreover have hv: "deadline_heap v = ?h @ [a]" by (simp add: v_def)
  ultimately have s: "heap_inv (DeadlineHeapSiftUp ?n v) \<and> no_heap (DeadlineHeapSiftUp ?n v) = no_heap v \<and>
    mset (deadline_heap (DeadlineHeapSiftUp ?n v)) = mset (deadline_heap v)"
    using SiftUp_facts [OF iv, of ?n] by simp
  moreover have "DeadlineHeapInsert a w = Inr (DeadlineHeapSiftUp ?n v)"
    using new by (simp add: DeadlineHeapInsert_def Let_def v_def)
  moreover have "set (deadline_heap (DeadlineHeapSiftUp ?n v)) = insert a (set ?h)"
    using s hv by (metis mset_eq_setD set_append sup_commute list.set insert_is_Un)
  ultimately show ?thesis using nh by auto
qed

lemma Remove_heap_facts:
  assumes inv: "heap_inv w"
  shows "heap_inv (DeadlineHeapRemove a w) \<and> no_heap (DeadlineHeapRemove a w) = no_heap w \<and>
    set (deadline_heap (DeadlineHeapRemove a w)) = set (deadline_heap w) - {a}"
proof (cases "deadline_heap_index (nodes w a)")
  case None
  with index_ok_mem [of w a] inv show ?thesis by (simp add: DeadlineHeapRemove_def heap_inv_def)
next
  case (Some i)
  have ix: "index_ok w" and ho: "heap_order (keys w) (length (deadline_heap w))"
    using inv by (auto simp: heap_inv_def)
  with Some have i: "i < length (deadline_heap w)" "deadline_heap w ! i = a" by (auto simp: index_ok_def)
  then obtain ys z where h: "deadline_heap w = ys @ [z]" by (cases "deadline_heap w" rule: rev_cases) auto
  have d: "distinct ys" "z \<notin> set ys" using ix by (auto simp: index_ok_def h)
  have pos: "deadline_heap_index (nodes w b) = Some j \<longleftrightarrow> j < Suc (length ys) \<and> (ys @ [z]) ! j = b" for b j
    using ix by (simp add: index_ok_def h)
  show ?thesis
  proof (cases "i = length ys")
    case True
    define v where "v = set_index a None (w\<lparr>deadline_heap := ys\<rparr>)"
    have r: "DeadlineHeapRemove a w = v" using Some True by (simp add: DeadlineHeapRemove_def Let_def v_def h)
    have nh: "no_heap v = no_heap w" and hv: "deadline_heap v = ys" by (simp_all add: v_def)
    have az: "a = z" using i True by (simp add: h)
    have kv: "j < length ys \<Longrightarrow> keys v j = keys w j" for j
      by (simp add: keys_def no_heap_eqD(12) [OF nh] hv h nth_append)
    have "keys v (par j) \<le> keys v j" if "j < length ys" "0 < j" for j
      using ho that kv [of j] kv [of "par j"] par_less [of j] by (simp add: heap_order_def h)
    then have "heap_order (keys v) (length ys)" by (simp add: heap_order_def)
    moreover have "index_ok v"
      using d pos by (auto simp: index_ok_def v_def az nth_append less_Suc_eq)
    ultimately show ?thesis using r nh hv d az by (simp add: heap_inv_def h)
  next
    case False
    then have il: "i < length ys" "ys ! i = a" using i by (auto simp: h nth_append)
    define v where "v = set_index z (Some i) ((set_index a None (w\<lparr>deadline_heap := ys\<rparr>))\<lparr>deadline_heap := ys[i := z]\<rparr>)"
    have nh: "no_heap v = no_heap w" and hv: "deadline_heap v = ys[i := z]" by (simp_all add: v_def)
    have r: "DeadlineHeapRemove a w = (if i > 0 \<and> DeadlineBefore v z (ys[i := z] ! ((i - 1) div 2))
        then DeadlineHeapSiftUp i v else DeadlineHeapSiftDown i v)"
      using Some False by (simp add: DeadlineHeapRemove_def Let_def v_def h)
    have az: "a \<noteq> z" using il d by auto
    have iv: "index_ok v"
      unfolding index_ok_def
    proof (intro conjI allI)
      show "distinct (deadline_heap v)" using d il by (simp add: hv distinct_list_update)
      fix b j
      show "deadline_heap_index (nodes v b) = Some j \<longleftrightarrow> j < length (deadline_heap v) \<and> deadline_heap v ! j = b"
        using d il az pos [of b j] nth_eq_iff_index_eq [OF d(1), of j i]
        by (auto simp: v_def nth_list_update nth_append less_Suc_eq)
    qed
    have kv: "j < length ys \<Longrightarrow> keys v j = ((keys w)(i := key w z)) j" for j
      using il by (simp add: keys_def no_heap_eqD(12) [OF nh] hv h nth_append nth_list_update)
    have par_i: "0 < i \<Longrightarrow> key v (ys[i := z] ! ((i - 1) div 2)) = keys w (par i)"
      using kv [of "par i"] par_less [of i] il by (simp add: keys_def [of v] hv par_def)
    have kz: "key v z = key w z" by (rule no_heap_eqD(12) [OF nh])
    have fin: "heap_inv u \<and> no_heap u = no_heap v \<and> mset (deadline_heap u) = mset (deadline_heap v) \<Longrightarrow>
        heap_inv u \<and> no_heap u = no_heap w \<and> set (deadline_heap u) = set (deadline_heap w) - {a}" for u
      using nh hv d il by (auto simp: h set_update_distinct dest!: mset_eq_setD)
    show ?thesis
    proof (cases "i > 0 \<and> DeadlineBefore v z (ys[i := z] ! ((i - 1) div 2))")
      case True
      then have "key w z < keys w (par i)"
        using par_i kz by (simp add: DeadlineBefore_key)
      with True il ho have "up_order ((keys w)(i := key w z)) (length ys) i"
        by (intro up_order_replace [of _ "length (deadline_heap w)"]) (simp_all add: h)
      then have "up_order (keys v) (length (deadline_heap v)) i"
        using order_cong(1) [of "length ys" "keys v" "(keys w)(i := key w z)", OF kv il(1)]
        by (simp only: hv length_list_update)
      with SiftUp_facts [OF iv this] il True r fin show ?thesis by (simp add: hv)
    next
      case False
      then have "i = 0 \<or> keys w (par i) \<le> key w z"
        using par_i kz by (cases "i = 0") (simp_all add: DeadlineBefore_key not_less)
      with il ho have "down_order ((keys w)(i := key w z)) (length ys) i"
        by (intro down_order_replace [of _ "length (deadline_heap w)"]) (simp_all add: h)
      then have "down_order (keys v) (length (deadline_heap v)) i"
        using order_cong(2) [of "length ys" "keys v" "(keys w)(i := key w z)", OF kv il(1)]
        by (simp only: hv length_list_update)
      with SiftDown_facts [OF iv this] il have "heap_inv (DeadlineHeapSiftDown i v) \<and>
          no_heap (DeadlineHeapSiftDown i v) = no_heap v \<and>
          mset (deadline_heap (DeadlineHeapSiftDown i v)) = mset (deadline_heap v)" by (simp add: hv)
      moreover from False have "DeadlineHeapRemove a w = DeadlineHeapSiftDown i v" by (simp only: r if_False)
      ultimately show ?thesis using fin by simp
    qed
  qed
qed

section \<open>The heap as a deadline queue\<close>

text \<open>
  What the timer wheel relies on: a set of timers from which any one can be removed and
  whose earliest deadline is known.
\<close>

locale deadline_queue =
  fixes q_inv :: "'s \<Rightarrow> bool"
    and members :: "'s \<Rightarrow> 'a set"
    and due :: "'s \<Rightarrow> 'a \<Rightarrow> 'd::linorder"
    and front :: "'s \<Rightarrow> 'a option"
    and q_insert :: "'a \<Rightarrow> 's \<Rightarrow> string + 's"
    and q_remove :: "'a \<Rightarrow> 's \<Rightarrow> 's"
  assumes finite_members: "finite (members s)"
    and front_None: "q_inv s \<Longrightarrow> front s = None \<longleftrightarrow> members s = {}"
    and front_Some: "q_inv s \<Longrightarrow> front s = Some a \<Longrightarrow> a \<in> members s \<and> (\<forall>b \<in> members s. due s a \<le> due s b)"
    and insert_ok: "q_inv s \<Longrightarrow> a \<notin> members s \<Longrightarrow>
      \<exists>s'. q_insert a s = Inr s' \<and> q_inv s' \<and> members s' = insert a (members s) \<and> due s' = due s"
    and remove_ok: "q_inv s \<Longrightarrow>
      q_inv (q_remove a s) \<and> members (q_remove a s) = members s - {a} \<and> due (q_remove a s) = due s"
begin

lemma front_is_Min: "q_inv s \<Longrightarrow> front s = Some a \<Longrightarrow> due s a = Min (due s ` members s)"
  using front_Some [of s a] finite_members [of s] by (intro Min_eqI [symmetric]) auto

lemma front_after_insert:
  assumes "q_inv s" "a \<notin> members s"
  obtains s' b where "q_insert a s = Inr s'" "q_inv s'" "front s' = Some b"
    "due s b = Min (insert (due s a) (due s ` members s))"
proof -
  from insert_ok [OF assms] obtain s' where s': "q_insert a s = Inr s'" "q_inv s'"
    "members s' = insert a (members s)" "due s' = due s" by blast
  then have "front s' \<noteq> None" using front_None by auto
  then obtain b where "front s' = Some b" by blast
  with front_is_Min [OF s'(2) this] s' that show ?thesis by simp
qed

end

definition heap_front :: "TimerWheel \<Rightarrow> addr option" where
  "heap_front w = (case deadline_heap w of [] \<Rightarrow> None | a # _ \<Rightarrow> Some a)"

lemma heap_front_least:
  assumes "heap_inv w" "a \<in> set (deadline_heap w)"
  shows "deadline_ms (nodes w (deadline_heap w ! 0)) \<le> deadline_ms (nodes w a)"
proof -
  from assms(2) obtain i where i: "i < length (deadline_heap w)" "deadline_heap w ! i = a"
    by (auto simp: in_set_conv_nth)
  with assms(1) heap_order_min [of "keys w" "length (deadline_heap w)" i] have "keys w 0 \<le> keys w i" by (simp add: heap_inv_def)
  with i show ?thesis by (auto simp: keys_def key_def less_eq_prod_def)
qed

interpretation timer_queue: deadline_queue heap_inv "\<lambda>w. set (deadline_heap w)"
  "\<lambda>w a. deadline_ms (nodes w a)" heap_front DeadlineHeapInsert DeadlineHeapRemove
proof (unfold_locales, goal_cases)
  case (1 w)
  then show ?case by simp
next
  case (2 w)
  then show ?case by (simp add: heap_front_def split: list.splits)
next
  case (3 w a)
  with heap_front_least [OF 3(1)] show ?case by (auto simp: heap_front_def split: list.splits)
next
  case (4 w a)
  then have "deadline_heap_index (nodes w a) = None"
    using index_ok_mem by (simp add: heap_inv_def)
  from Insert_facts [OF 4(1) this] obtain w' where "DeadlineHeapInsert a w = Inr w'" "heap_inv w'"
    and nh: "no_heap w' = no_heap w" and "set (deadline_heap w') = insert a (set (deadline_heap w))" by blast
  moreover have "(\<lambda>b. deadline_ms (nodes w' b)) = (\<lambda>b. deadline_ms (nodes w b))"
    by (rule ext) (rule no_heap_eqD(6) [OF nh])
  ultimately show ?case by (intro exI [of _ w'] conjI)
next
  case (5 w a)
  note r = Remove_heap_facts [OF 5, of a]
  have "(\<lambda>b. deadline_ms (nodes (DeadlineHeapRemove a w) b)) = (\<lambda>b. deadline_ms (nodes w b))"
    by (rule ext) (rule no_heap_eqD(6) [OF conjunct1 [OF conjunct2 [OF r]]])
  with r show ?case by blast
qed

text \<open>
  C16. The deadline heap is a correct priority queue: \<open>NextDeadlineMs\<close> is the earliest deadline of
  the queued timers (the maximal value when there is none), inserting a timer that is not
  queued succeeds and adds exactly it, removing one takes out exactly it from wherever it
  is, and both keep array order and stored positions consistent.
\<close>

theorem deadline_heap_correct:
  assumes "heap_inv w"
  shows "NextDeadlineMs w = (if deadline_heap w = [] then - 1
       else Min ((\<lambda>b. deadline_ms (nodes w b)) ` set (deadline_heap w))) \<and>
     (a \<notin> set (deadline_heap w) \<longrightarrow> (\<exists>w'. DeadlineHeapInsert a w = Inr w' \<and> heap_inv w' \<and>
        set (deadline_heap w') = insert a (set (deadline_heap w)))) \<and>
     heap_inv (DeadlineHeapRemove a w) \<and>
     set (deadline_heap (DeadlineHeapRemove a w)) = set (deadline_heap w) - {a}"
proof (intro conjI)
  show "NextDeadlineMs w = (if deadline_heap w = [] then - 1
       else Min ((\<lambda>b. deadline_ms (nodes w b)) ` set (deadline_heap w)))"
  proof (cases "deadline_heap w")
    case Nil
    then show ?thesis by (simp add: NextDeadlineMs_def)
  next
    case (Cons b bs)
    then have "heap_front w = Some b" by (simp add: heap_front_def)
    from timer_queue.front_is_Min [OF assms this] show ?thesis
      using Cons by (simp add: NextDeadlineMs_def del: Min_insert)
  qed
  show "a \<notin> set (deadline_heap w) \<longrightarrow> (\<exists>w'. DeadlineHeapInsert a w = Inr w' \<and> heap_inv w' \<and>
        set (deadline_heap w') = insert a (set (deadline_heap w)))"
    using timer_queue.insert_ok [OF assms, of a] by blast
qed (use timer_queue.remove_ok [OF assms, of a] in blast)+

definition empty_wheel :: TimerWheel where
  "empty_wheel = \<lparr>nodes = nodes idle_timers, lists = lists idle_timers, slot_count = 4,
     current_tick_ms = 1, current_slot = 0, wheel_size = 0, deadline_heap = []\<rparr>"

theorem deadline_heap_correct_witness:
  "heap_inv empty_wheel \<and> NextDeadlineMs empty_wheel = - 1 \<and>
     (\<exists>w'. DeadlineHeapInsert 3 empty_wheel = Inr w' \<and> set (deadline_heap w') = {3})"
proof -
  have inv: "heap_inv empty_wheel"
    by (simp add: heap_inv_def index_ok_def heap_order_def empty_wheel_def idle_timers_def)
  from deadline_heap_correct [OF this, of 3] inv show ?thesis by (auto simp: empty_wheel_def)
qed

end
