(* ===== verification/TimerWheel.thy ===== *)
theory TimerWheel
  imports DeadlineHeap
begin

text \<open>
  The hashed timer wheel, class \<open>TimerWheel\<close> of \<open>runtime/timer_wheel.h\<close> and \<open>.cpp\<close>: one list
  of timers per slot of one millisecond, plus the deadline heap over all scheduled timers.
  \<open>Slot i\<close> for \<open>i < slot_count\<close> is \<open>slots_[i]\<close>. \<open>WheelAdd\<close>, \<open>WheelRemove\<close> and \<open>WheelAdvance\<close> are
  the methods \<open>Add\<close>, \<open>Remove\<close> and \<open>Advance\<close>; the clock reading of the constructor is an
  argument.

  The lemmas: the wheel invariant (lists, heap, flags and counter agree on which timers are
  scheduled, every timer lies in a slot that is reached no later than its deadline) is
  established by the constructor and kept by every operation; no deadline is missed.
\<close>

definition new_wheel :: "nat \<Rightarrow> u64 \<Rightarrow> u64 \<Rightarrow> (addr \<Rightarrow> TimerNode) \<Rightarrow> (list_id \<Rightarrow> TimerList) \<Rightarrow> string + TimerWheel" where
  "new_wheel slots start_ms now ns ls =
     (if slots = 0 then Inl ''timer wheel requires at least one slot''
      else Inr \<lparr>nodes = ns, lists = (\<lambda>l. case l of Slot _ \<Rightarrow> \<lparr>head = None, tail = None\<rparr> | Caller _ \<Rightarrow> ls l),
                slot_count = slots, current_tick_ms = (if start_ms = 0 then now else start_ms),
                current_slot = 0, wheel_size = 0, deadline_heap = []\<rparr>)"

definition WheelRemove :: "addr \<Rightarrow> TimerWheel \<Rightarrow> TimerWheel" where
  "WheelRemove n w =
     (case node_list (nodes w n) of
        None \<Rightarrow> w
      | Some l \<Rightarrow>
          let w = DeadlineHeapRemove n w;
              was_scheduled = scheduled (nodes w n);
              w = Remove l n w;
              w = upd_node n (\<lambda>x. x\<lparr>scheduled := False\<rparr>) w
          in if was_scheduled \<and> wheel_size w \<noteq> 0 then w\<lparr>wheel_size := wheel_size w - 1\<rparr> else w)"

definition WheelAdd :: "addr \<Rightarrow> TimerWheel \<Rightarrow> string + TimerWheel" where
  "WheelAdd n w =
     (if deadline_ms (nodes w n) \<le> current_tick_ms w
      then Inl ''timer deadline must be after the last processed tick''
      else
        let w = WheelRemove n w;
            deadline = deadline_ms (nodes w n);
            remaining = (if deadline > current_tick_ms w then deadline - current_tick_ms w else 0);
            offset = max 1 (min (unat remaining) (slot_count w - 1))
        in case PushBack (Slot ((current_slot w + offset) mod slot_count w)) n w of
             Inl e \<Rightarrow> Inl e
           | Inr w \<Rightarrow>
               let w = upd_node n (\<lambda>x. x\<lparr>scheduled := True\<rparr>) w
               in case DeadlineHeapInsert n w of
                    Inl e \<Rightarrow> Inl e
                  | Inr w \<Rightarrow> Inr (w\<lparr>wheel_size := wheel_size w + 1\<rparr>))"

text \<open>The body of the inner loop of \<open>Advance\<close>, and the loop over the nodes of one slot.\<close>

definition expire_node :: "addr \<Rightarrow> TimerWheel \<Rightarrow> TimerWheel" where
  "expire_node n w =
     (let w = DeadlineHeapRemove n w;
          w = upd_node n (\<lambda>x. x\<lparr>scheduled := False\<rparr>) w
      in if wheel_size w \<noteq> 0 then w\<lparr>wheel_size := wheel_size w - 1\<rparr> else w)"

partial_function (option) expire_slot :: "addr option \<Rightarrow> TimerWheel \<Rightarrow> TimerWheel option" where
  "expire_slot n w =
     (case n of
        None \<Rightarrow> Some w
      | Some a \<Rightarrow> let w = expire_node a w in expire_slot (next_node (nodes w a)) w)"

fun advance_slots :: "list_id \<Rightarrow> nat \<Rightarrow> nat \<Rightarrow> TimerWheel \<Rightarrow> TimerWheel option" where
  "advance_slots expired step 0 w = Some w"
| "advance_slots expired step (Suc k) w =
     (let slot = Slot ((current_slot w + step) mod slot_count w)
      in case expire_slot (head (lists w slot)) w of
           None \<Rightarrow> None
         | Some w \<Rightarrow>
             (case SpliceBack expired slot w of
                None \<Rightarrow> None
              | Some w \<Rightarrow> advance_slots expired (Suc step) k w))"

definition WheelAdvance :: "u64 \<Rightarrow> list_id \<Rightarrow> TimerWheel \<Rightarrow> TimerWheel option" where
  "WheelAdvance now_ms expired w =
     (if now_ms \<le> current_tick_ms w then Some w
      else
        let elapsed = now_ms - current_tick_ms w;
            steps = min (unat elapsed) (slot_count w)
        in case advance_slots expired 1 steps w of
             None \<Rightarrow> None
           | Some w \<Rightarrow>
               Some (w\<lparr>current_slot := (current_slot w + unat elapsed mod slot_count w) mod slot_count w,
                       current_tick_ms := now_ms\<rparr>))"

section \<open>Invariant\<close>

definition slotted :: "nat \<Rightarrow> (list_id \<Rightarrow> addr list) \<Rightarrow> addr set" where
  "slotted k C = (\<Union>i < k. set (C (Slot i)))"

text \<open>Which timers are scheduled: lists, heap, flags and counter agree.\<close>

definition wheel_core :: "TimerWheel \<Rightarrow> (list_id \<Rightarrow> addr list) \<Rightarrow> bool" where
  "wheel_core w C \<longleftrightarrow> store_ok w C \<and> heap_inv w \<and> 0 < slot_count w \<and> current_slot w < slot_count w \<and>
     set (deadline_heap w) = slotted (slot_count w) C \<and> (\<forall>i \<ge> slot_count w. C (Slot i) = []) \<and>
     (\<forall>n. scheduled (nodes w n) \<longleftrightarrow> n \<in> set (deadline_heap w)) \<and> wheel_size w = length (deadline_heap w)"

text \<open>Timer \<open>n\<close> in slot \<open>i\<close> is reached after \<open>d\<close> ticks, no later than its deadline.\<close>

definition placed :: "TimerWheel \<Rightarrow> nat \<Rightarrow> addr \<Rightarrow> bool" where
  "placed w i n \<longleftrightarrow> (\<exists>d. 1 \<le> d \<and> d \<le> slot_count w \<and> i = (current_slot w + d) mod slot_count w \<and>
     unat (current_tick_ms w) + d \<le> unat (deadline_ms (nodes w n)))"

definition wheel_inv :: "TimerWheel \<Rightarrow> (list_id \<Rightarrow> addr list) \<Rightarrow> bool" where
  "wheel_inv w C \<longleftrightarrow> wheel_core w C \<and> (\<forall>i < slot_count w. \<forall>n \<in> set (C (Slot i)). placed w i n)"

text \<open>The parts of the state a step leaves alone.\<close>

definition clock_same :: "TimerWheel \<Rightarrow> TimerWheel \<Rightarrow> bool" where
  "clock_same w w' \<longleftrightarrow> slot_count w' = slot_count w \<and> current_tick_ms w' = current_tick_ms w \<and>
     current_slot w' = current_slot w \<and> (\<forall>n. deadline_ms (nodes w' n) = deadline_ms (nodes w n))"

lemma clock_same_refl [simp]: "clock_same w w"
  by (simp add: clock_same_def)

lemma clock_same_trans: "clock_same w w' \<Longrightarrow> clock_same w' w'' \<Longrightarrow> clock_same w w''"
  by (simp add: clock_same_def)

lemma clock_same_placed: "clock_same w w' \<Longrightarrow> placed w' i n = placed w i n"
  by (simp add: clock_same_def placed_def)

lemma heap_inv_cong:
  assumes "deadline_heap w' = deadline_heap w"
    "\<And>n. deadline_ms (nodes w' n) = deadline_ms (nodes w n)"
    "\<And>n. deadline_heap_index (nodes w' n) = deadline_heap_index (nodes w n)"
  shows "heap_inv w' = heap_inv w"
proof -
  have "keys w' = keys w" using assms by (simp add: keys_def key_def fun_eq_iff)
  with assms show ?thesis by (simp add: heap_inv_def index_ok_def)
qed

lemma same_data_wheel:
  assumes "same_data w w'"
  shows "deadline_heap w' = deadline_heap w" "wheel_size w' = wheel_size w" "clock_same w w'"
    "heap_inv w' = heap_inv w" "scheduled (nodes w' n) = scheduled (nodes w n)"
proof -
  have m: "timers.more w' = timers.more w" using assms by (simp add: same_data_def)
  have f: "f (timers.more w') = f (timers.more w)" for f :: "_ \<Rightarrow> 'b" by (simp add: m)
  show h: "deadline_heap w' = deadline_heap w" "wheel_size w' = wheel_size w"
    using m by (cases w; cases w'; simp)+
  show "clock_same w w'"
    using m assms by (cases w; cases w'; simp add: clock_same_def same_data_def)
  show "heap_inv w' = heap_inv w" by (rule heap_inv_cong) (use h assms in \<open>simp_all add: same_data_def\<close>)
  show "scheduled (nodes w' n) = scheduled (nodes w n)" using assms by (simp add: same_data_def)
qed

section \<open>Every operation keeps the invariant\<close>

lemma upd_scheduled_simps [simp]:
  "deadline_heap (upd_node n f w) = deadline_heap (w :: TimerWheel)" "wheel_size (upd_node n f w) = wheel_size w"
  "slot_count (upd_node n f w) = slot_count w" "current_slot (upd_node n f w) = current_slot w"
  "current_tick_ms (upd_node n f w) = current_tick_ms w" "lists (upd_node n f w) = lists w"
  by (simp_all add: upd_node_def)

lemma nodes_upd_node [simp]: "nodes (upd_node n f w) m = (if m = n then f (nodes w n) else nodes w m)"
  by (simp add: upd_node_def)

definition unschedule :: "addr \<Rightarrow> TimerWheel \<Rightarrow> TimerWheel" where
  "unschedule n w = upd_node n (\<lambda>x. x\<lparr>scheduled := False\<rparr>) (DeadlineHeapRemove n w)"

lemma length_set_remove:
  assumes "distinct xs" "distinct ys" "set ys = set xs - {n}"
  shows "length ys = length xs - (if n \<in> set xs then 1 else 0)"
proof -
  have "length ys = card (set xs - {n})" using assms(2,3) by (simp add: distinct_card [symmetric])
  then show ?thesis using assms(1) by (simp add: distinct_card [symmetric] card_Diff_singleton_if)
qed

lemma unschedule_facts:
  assumes inv: "heap_inv w"
  shows "heap_inv (unschedule n w)" "set (deadline_heap (unschedule n w)) = set (deadline_heap w) - {n}"
    "length (deadline_heap (unschedule n w)) = length (deadline_heap w) - (if n \<in> set (deadline_heap w) then 1 else 0)"
    "clock_same w (unschedule n w)" "wheel_size (unschedule n w) = wheel_size w"
    "scheduled (nodes (unschedule n w) m) \<longleftrightarrow> m \<noteq> n \<and> scheduled (nodes w m)"
    "store_ok (unschedule n w) C \<longleftrightarrow> store_ok w C" "lists (unschedule n w) = lists w"
    "next_node (nodes (unschedule n w) m) = next_node (nodes w m)"
    "node_list (nodes (unschedule n w) m) = node_list (nodes w m)"
proof -
  let ?r = "DeadlineHeapRemove n w" and ?u = "unschedule n w"
  from Remove_heap_facts [OF inv, of n] have r: "heap_inv ?r" "no_heap ?r = no_heap w"
    "set (deadline_heap ?r) = set (deadline_heap w) - {n}" by auto
  note nh = no_heap_eqD [OF r(2)]
  have "heap_inv ?u = heap_inv ?r" by (rule heap_inv_cong) (simp_all add: unschedule_def)
  with r show "heap_inv ?u" by simp
  show s: "set (deadline_heap ?u) = set (deadline_heap w) - {n}" using r by (simp add: unschedule_def)
  have "distinct (deadline_heap w)" "distinct (deadline_heap ?u)"
    using inv \<open>heap_inv ?u\<close> by (simp_all add: heap_inv_def index_ok_def)
  from length_set_remove [OF this s] show "length (deadline_heap ?u)
      = length (deadline_heap w) - (if n \<in> set (deadline_heap w) then 1 else 0)" .
  show "clock_same w ?u" "wheel_size ?u = wheel_size w" "lists ?u = lists w"
    "scheduled (nodes ?u m) \<longleftrightarrow> m \<noteq> n \<and> scheduled (nodes w m)"
    "next_node (nodes ?u m) = next_node (nodes w m)" "node_list (nodes ?u m) = node_list (nodes w m)"
    by (simp_all add: clock_same_def unschedule_def nh)
  have "store_ok ?u C" if "store_ok w C" for C
    by (rule store_ok_cong [OF that]) (simp_all add: unschedule_def nh)
  moreover have "store_ok w C" if "store_ok ?u C" for C
    by (rule store_ok_cong [OF that]) (simp_all add: unschedule_def nh)
  ultimately show "store_ok ?u C \<longleftrightarrow> store_ok w C" by blast
qed

lemma heap_size_update [simp]:
  "heap_inv (w\<lparr>wheel_size := k\<rparr>) = heap_inv w" "store_ok (w\<lparr>wheel_size := k\<rparr>) C = store_ok w C"
  by (rule heap_inv_cong, simp_all) (simp add: store_ok_def is_list_def)

lemma expire_node_unschedule:
  "expire_node n w = (unschedule n w)\<lparr>wheel_size := wheel_size (unschedule n w) - 1\<rparr>"
  by (simp add: expire_node_def unschedule_def Let_def)

lemma core_member:
  assumes "wheel_core w C"
  shows "n \<in> set (deadline_heap w) \<longleftrightarrow> (\<exists>i. node_list (nodes w n) = Some (Slot i))"
proof -
  have "node_list (nodes w n) = Some (Slot i) \<longleftrightarrow> n \<in> set (C (Slot i))" for i
    using assms store_ok_member by (auto simp: wheel_core_def)
  moreover have "n \<in> set (C (Slot i)) \<Longrightarrow> i < slot_count w" for i
    using assms by (cases "i < slot_count w") (auto simp: wheel_core_def)
  ultimately show ?thesis using assms by (auto simp: wheel_core_def slotted_def)
qed

lemma WheelRemove_ok:
  assumes core: "wheel_core w C"
  shows "wheel_core (WheelRemove n w) (\<lambda>l. remove1 n (C l)) \<and> clock_same w (WheelRemove n w) \<and>
     node_list (nodes (WheelRemove n w) n) = None \<and> deadline_heap_index (nodes (WheelRemove n w) n) = None"
proof (cases "node_list (nodes w n)")
  case None
  have "n \<notin> set (C l)" for l
    using core None store_ok_member [of w C n l] by (simp add: wheel_core_def)
  then have "(\<lambda>l. remove1 n (C l)) = C" by (simp add: remove1_idem)
  moreover have "n \<notin> set (deadline_heap w)" using core_member [OF core] None by simp
  then have "deadline_heap_index (nodes w n) = None"
    using core index_ok_mem [of w n] by (simp add: wheel_core_def heap_inv_def)
  ultimately show ?thesis using core None by (simp add: WheelRemove_def)
next
  case (Some l)
  have ok: "store_ok w C" and hi: "heap_inv w" using core by (simp_all add: wheel_core_def)
  have mem: "n \<in> set (C l)" using Some store_ok_member [OF ok] by simp
  have others: "k \<noteq> l \<Longrightarrow> n \<notin> set (C k)" for k using store_ok_disjoint [OF ok, of k l] mem by auto
  define r where "r = DeadlineHeapRemove n w"
  from Remove_heap_facts [OF hi, of n] have r: "heap_inv r" "no_heap r = no_heap w"
    "set (deadline_heap r) = set (deadline_heap w) - {n}" by (auto simp: r_def)
  note nh = no_heap_eqD [OF r(2)]
  have okr: "store_ok r C" by (rule store_ok_cong [OF ok]) (simp_all add: nh)
  define v where "v = Remove l n r"
  note sd = same_data_wheel [OF Remove_data [of r l n], folded v_def]
  have Ceq: "C(l := remove1 n (C l)) = (\<lambda>k. remove1 n (C k))"
    using others by (auto simp: remove1_idem)
  have okv: "store_ok v (\<lambda>k. remove1 n (C k))"
    using Remove_ok(1) [OF okr mem] by (simp add: v_def Ceq)
  define u where "u = upd_node n (\<lambda>x. x\<lparr>scheduled := False\<rparr>) v"
  have u1: "store_ok u (\<lambda>k. remove1 n (C k))" by (rule store_ok_cong [OF okv]) (simp_all add: u_def)
  have "heap_inv u = heap_inv v" by (rule heap_inv_cong) (simp_all add: u_def)
  then have u2: "heap_inv u" using sd(4) r(1) by simp
  have hu: "deadline_heap u = deadline_heap r" by (simp add: u_def sd)
  have clk: "clock_same w u" using sd(3) by (simp add: clock_same_def u_def nh)
  have sch: "scheduled (nodes u m) \<longleftrightarrow> m \<noteq> n \<and> scheduled (nodes w m)" for m
    using sd(5) [of m] by (simp add: u_def nh)
  have nl: "node_list (nodes u n) = None"
    using Remove_ok(2) [OF okr mem] by (simp add: u_def v_def)
  have sl: "slotted (slot_count w) (\<lambda>k. remove1 n (C k)) = slotted (slot_count w) C - {n}"
    using ok by (auto simp: slotted_def store_ok_def is_list_def)
  have len: "length (deadline_heap r) = length (deadline_heap w) - (if n \<in> set (deadline_heap w) then 1 else 0)"
    by (rule length_set_remove) (use hi r in \<open>simp_all add: heap_inv_def index_ok_def\<close>)
  have "wheel_size u = wheel_size w" "wheel_size v = wheel_size w" "scheduled (nodes r n) = scheduled (nodes w n)"
    using sd(2) by (simp_all add: u_def nh)
  then have "WheelRemove n w = (if scheduled (nodes w n) \<and> wheel_size w \<noteq> 0
      then u\<lparr>wheel_size := wheel_size w - 1\<rparr> else u\<lparr>wheel_size := wheel_size w\<rparr>)"
    using Some unfolding WheelRemove_def Let_def r_def [symmetric]
    by (simp add: u_def v_def)
  also have "\<dots> = u\<lparr>wheel_size := length (deadline_heap u)\<rparr>"
    using core len unfolding hu wheel_core_def by auto
  finally have res: "WheelRemove n w = u\<lparr>wheel_size := length (deadline_heap u)\<rparr>" .
  have "wheel_core (u\<lparr>wheel_size := length (deadline_heap u)\<rparr>) (\<lambda>k. remove1 n (C k))"
    using core u1 u2 clk sch sl unfolding wheel_core_def
    by (simp add: hu r(3) clock_same_def) blast
  moreover have "deadline_heap_index (nodes u n) = None"
    using index_ok_mem [of u n] u2 hu r(3) by (simp add: heap_inv_def)
  ultimately show ?thesis
    unfolding res using clk nl by (simp add: clock_same_def)
qed

lemma Insert_wheel:
  assumes "heap_inv w" "deadline_heap_index (nodes w n) = None"
  obtains w' where "DeadlineHeapInsert n w = Inr w'" "heap_inv w'" "clock_same w w'" "wheel_size w' = wheel_size w"
    "set (deadline_heap w') = insert n (set (deadline_heap w))"
    "length (deadline_heap w') = Suc (length (deadline_heap w))"
    "\<And>m. scheduled (nodes w' m) = scheduled (nodes w m)" "\<And>C. store_ok w C \<Longrightarrow> store_ok w' C"
proof -
  from Insert_facts [OF assms] obtain w' where w': "DeadlineHeapInsert n w = Inr w'" "heap_inv w'"
    and nh: "no_heap w' = no_heap w" and s: "set (deadline_heap w') = insert n (set (deadline_heap w))" by blast
  note e = no_heap_eqD [OF nh]
  have d: "distinct (deadline_heap w)" "distinct (deadline_heap w')" "n \<notin> set (deadline_heap w)"
    using assms w'(2) index_ok_mem [of w n] by (simp_all add: heap_inv_def index_ok_def)
  have "length (deadline_heap w') = card (insert n (set (deadline_heap w)))"
    using d(2) s by (simp add: distinct_card [symmetric])
  then have "length (deadline_heap w') = Suc (length (deadline_heap w))"
    using d by (simp add: distinct_card)
  moreover have "store_ok w' C" if "store_ok w C" for C
    by (rule store_ok_cong [OF that]) (simp_all add: e)
  ultimately show ?thesis
    using that w' s e by (simp add: clock_same_def)
qed

lemma WheelAdd_ok:
  assumes inv: "wheel_inv w C" and late: "current_tick_ms w < deadline_ms (nodes w n)"
  defines "D \<equiv> \<lambda>l. remove1 n (C l)"
  shows "\<exists>w' i. WheelAdd n w = Inr w' \<and> i < slot_count w \<and> wheel_inv w' (D(Slot i := D (Slot i) @ [n])) \<and>
     clock_same w w'"
proof -
  define v where "v = WheelRemove n w"
  have core: "wheel_core w C" using inv by (simp add: wheel_inv_def)
  from WheelRemove_ok [OF core, of n] have v: "wheel_core v D" "clock_same w v"
    "node_list (nodes v n) = None" "deadline_heap_index (nodes v n) = None" by (simp_all add: v_def D_def)
  define rem where "rem = deadline_ms (nodes w n) - current_tick_ms w"
  define off where "off = max 1 (min (unat rem) (slot_count w - 1))"
  define i where "i = (current_slot w + off) mod slot_count w"
  have pos: "0 < slot_count w" using core by (simp add: wheel_core_def)
  have i: "i < slot_count w" using pos by (simp add: i_def)
  have ur: "unat rem = unat (deadline_ms (nodes w n)) - unat (current_tick_ms w)"
    using late by (simp add: rem_def unat_sub word_less_nat_alt word_le_nat_alt)
  have ul: "unat (current_tick_ms w) < unat (deadline_ms (nodes w n))" using late by (simp add: word_less_nat_alt)
  have off: "1 \<le> off" "off \<le> slot_count w" "unat (current_tick_ms w) + off \<le> unat (deadline_ms (nodes w n))"
    using ul pos ur by (auto simp: off_def)
  have sv: "store_ok v D" using v(1) by (simp add: wheel_core_def)
  from PushBack_ok [OF sv v(3), of "Slot i"] obtain p where p: "PushBack (Slot i) n v = Inr p"
    "store_ok p (D(Slot i := D (Slot i) @ [n]))" by blast
  note sd = same_data_wheel [OF PushBack_data [OF p(1)]]
  define q where "q = upd_node n (\<lambda>x. x\<lparr>scheduled := True\<rparr>) p"
  have q: "store_ok q (D(Slot i := D (Slot i) @ [n]))" by (rule store_ok_cong [OF p(2)]) (simp_all add: q_def)
  have "heap_inv q = heap_inv p" by (rule heap_inv_cong) (simp_all add: q_def)
  then have hq: "heap_inv q" using sd(4) v(1) by (simp add: wheel_core_def)
  have "deadline_heap_index (nodes q n) = None"
    using PushBack_data [OF p(1)] v(4) by (simp add: q_def same_data_def)
  from Insert_wheel [OF hq this] obtain z where z: "DeadlineHeapInsert n q = Inr z" "heap_inv z" "clock_same q z"
    "wheel_size z = wheel_size q" "set (deadline_heap z) = insert n (set (deadline_heap q))"
    "length (deadline_heap z) = Suc (length (deadline_heap q))"
    "\<And>m. scheduled (nodes z m) = scheduled (nodes q m)" "\<And>C. store_ok q C \<Longrightarrow> store_ok z C" by metis
  have cl: "clock_same w q" using v(2) sd(3) by (simp add: clock_same_def q_def)
  have add: "WheelAdd n w = Inr (z\<lparr>wheel_size := wheel_size z + 1\<rparr>)"
  proof -
    have "deadline_ms (nodes v n) = deadline_ms (nodes w n)" "current_tick_ms v = current_tick_ms w"
      "slot_count v = slot_count w" "current_slot v = current_slot w" using v(2) by (simp_all add: clock_same_def)
    then show ?thesis
      using late p(1) z(1) unfolding WheelAdd_def Let_def v_def [symmetric]
      by (simp add: not_le i_def off_def rem_def q_def [symmetric])
  qed
  have hq2: "deadline_heap q = deadline_heap v" "wheel_size q = wheel_size v"
    "\<And>m. scheduled (nodes q m) = (m = n \<or> scheduled (nodes v m))"
    using sd(1,2,5) by (simp_all add: q_def)
  have sl: "slotted (slot_count w) (D(Slot i := D (Slot i) @ [n])) = insert n (slotted (slot_count w) D)"
    using i by (auto simp: slotted_def split: if_splits)
  have cz: "clock_same w z" using clock_same_trans [OF cl z(3)] .
  have "wheel_core (z\<lparr>wheel_size := wheel_size z + 1\<rparr>) (D(Slot i := D (Slot i) @ [n]))"
    using v(1,2) z(2,4-7) z(8) [OF q] hq2 sl cz i unfolding wheel_core_def clock_same_def by auto
  moreover have "placed (z\<lparr>wheel_size := wheel_size z + 1\<rparr>) j m"
    if j: "j < slot_count w" and m: "m \<in> set ((D(Slot i := D (Slot i) @ [n])) (Slot j))" for j m
  proof -
    have "placed w j m"
    proof (cases "m = n \<and> j = i")
      case True
      then show ?thesis using off by (auto simp: placed_def i_def)
    next
      case False
      then have "m \<in> set (C (Slot j))" using m by (auto simp: D_def split: if_splits dest: subsetD [OF set_remove1_subset])
      then show ?thesis using inv j by (simp add: wheel_inv_def)
    qed
    then show ?thesis using cz by (simp add: placed_def clock_same_def)
  qed
  ultimately have "wheel_inv (z\<lparr>wheel_size := wheel_size z + 1\<rparr>) (D(Slot i := D (Slot i) @ [n]))"
    using cz by (simp add: wheel_inv_def clock_same_def)
  with add i cz show ?thesis by (auto simp: clock_same_def)
qed

lemma expire_node_facts:
  assumes inv: "heap_inv w"
  shows "heap_inv (expire_node n w)" "set (deadline_heap (expire_node n w)) = set (deadline_heap w) - {n}"
    "n \<in> set (deadline_heap w) \<Longrightarrow> wheel_size w = length (deadline_heap w) \<Longrightarrow>
       wheel_size (expire_node n w) = length (deadline_heap (expire_node n w))"
    "clock_same w (expire_node n w)"
    "scheduled (nodes (expire_node n w) m) \<longleftrightarrow> m \<noteq> n \<and> scheduled (nodes w m)"
    "store_ok w C \<Longrightarrow> store_ok (expire_node n w) C" "lists (expire_node n w) = lists w"
    "next_node (nodes (expire_node n w) m) = next_node (nodes w m)"
  using unschedule_facts [OF inv, of n] unfolding expire_node_unschedule clock_same_def
  by simp_all

text \<open>Running over one slot takes exactly its timers out of the heap.\<close>

definition expired_all :: "addr list \<Rightarrow> TimerWheel \<Rightarrow> TimerWheel \<Rightarrow> bool" where
  "expired_all xs w w' \<longleftrightarrow> heap_inv w' \<and> set (deadline_heap w') = set (deadline_heap w) - set xs \<and>
     wheel_size w' = length (deadline_heap w') \<and> clock_same w w' \<and>
     (\<forall>m. scheduled (nodes w' m) \<longleftrightarrow> m \<notin> set xs \<and> scheduled (nodes w m)) \<and>
     (\<forall>C. store_ok w C \<longrightarrow> store_ok w' C) \<and> lists w' = lists w"

lemma expire_slot_ok:
  assumes "linked (nodes w) l pr xs None" "distinct xs" "set xs \<subseteq> set (deadline_heap w)" "heap_inv w"
    "wheel_size w = length (deadline_heap w)"
  shows "\<exists>w'. expire_slot (first_of xs None) w = Some w' \<and> expired_all xs w w'"
  using assms
proof (induction xs arbitrary: w pr)
  case Nil
  then show ?case by (subst expire_slot.simps) (simp add: expired_all_def)
next
  case (Cons x xs)
  note f = expire_node_facts [OF Cons.prems(4), where n = x]
  have nx: "next_node (nodes (expire_node x w) x) = first_of xs None"
    using Cons.prems(1) f(8) [of x] by simp
  have step: "expire_slot (first_of (x # xs) None) w = expire_slot (first_of xs None) (expire_node x w)"
    by (subst expire_slot.simps) (simp add: Let_def nx)
  have "linked (nodes (expire_node x w)) l (Some x) xs None = linked (nodes w) l (Some x) xs None"
  proof (rule linked_cong)
    fix y
    from Remove_heap_facts [OF Cons.prems(4), of x] have "no_heap (DeadlineHeapRemove x w) = no_heap w" by simp
    note e = no_heap_eqD [OF this]
    show "previous (nodes (expire_node x w) y) = previous (nodes w y) \<and>
      next_node (nodes (expire_node x w) y) = next_node (nodes w y) \<and>
      node_list (nodes (expire_node x w) y) = node_list (nodes w y)"
      by (simp add: expire_node_def Let_def e)
  qed
  with Cons.prems(1) have "linked (nodes (expire_node x w)) l (Some x) xs None" by simp
  moreover have "set xs \<subseteq> set (deadline_heap (expire_node x w))" "distinct xs"
    using Cons.prems(2,3) f(2) by auto
  moreover have "wheel_size (expire_node x w) = length (deadline_heap (expire_node x w))"
    using Cons.prems(3,5) f(3) by simp
  ultimately obtain w' where w': "expire_slot (first_of xs None) (expire_node x w) = Some w'"
    "expired_all xs (expire_node x w) w'" using Cons.IH f(1) by blast
  have "expired_all (x # xs) w w'"
    using w'(2) f(2,4,5,6,7) clock_same_trans [OF f(4)] unfolding expired_all_def by auto
  with w'(1) step show ?case by auto
qed

lemma core_slot_step:
  assumes core: "wheel_core w C" and i: "i < slot_count w"
  shows "\<exists>v w'. expire_slot (head (lists w (Slot i))) w = Some v \<and>
     SpliceBack (Caller j) (Slot i) v = Some w' \<and>
     wheel_core w' (C(Caller j := C (Caller j) @ C (Slot i), Slot i := [])) \<and> clock_same w w'"
proof -
  let ?D = "C(Caller j := C (Caller j) @ C (Slot i), Slot i := [])"
  have ok: "store_ok w C" using core by (simp add: wheel_core_def)
  note il = store_ok_lists [OF ok, of "Slot i", unfolded is_list_def]
  have sub: "set (C (Slot i)) \<subseteq> set (deadline_heap w)"
    using core i by (auto simp: wheel_core_def slotted_def)
  from expire_slot_ok [of w "Slot i" None "C (Slot i)"] il sub core
  obtain v where v: "expire_slot (head (lists w (Slot i))) w = Some v" "expired_all (C (Slot i)) w v"
    by (auto simp: wheel_core_def)
  then have okv: "store_ok v C" using ok by (simp add: expired_all_def)
  from SpliceBack_ok [OF okv, of "Caller j" "Slot i"] obtain w' where w': "SpliceBack (Caller j) (Slot i) v = Some w'"
    "store_ok w' ?D" "same_data v w'" by auto
  note sd = same_data_wheel [OF w'(3)]
  have cl: "clock_same w w'" using clock_same_trans [of w v w'] v(2) sd(3) by (simp add: expired_all_def)
  have dis: "k = i" if "x \<in> set (C (Slot k))" "x \<in> set (C (Slot i))" for k x
    using store_ok_disjoint [OF ok, of "Slot k" "Slot i"] that by auto
  have sl: "slotted (slot_count w) ?D = slotted (slot_count w) C - set (C (Slot i))"
    unfolding slotted_def using dis i by (auto split: if_splits)
  have h: "set (deadline_heap w') = slotted (slot_count w) ?D"
    using v(2) sd(1) core sl by (simp add: expired_all_def wheel_core_def)
  have sc: "scheduled (nodes w' m) \<longleftrightarrow> m \<in> set (deadline_heap w')" for m
    using v(2) sd(1) sd(5) [of m] core by (auto simp: expired_all_def wheel_core_def)
  have "wheel_core w' ?D"
    using core w'(2) sd(1,2,4) v(2) cl h sc unfolding wheel_core_def expired_all_def clock_same_def
    by simp
  with v(1) w'(1) cl show ?thesis by blast
qed

definition visited :: "TimerWheel \<Rightarrow> nat \<Rightarrow> nat \<Rightarrow> nat set" where
  "visited w s k = (\<lambda>t. (current_slot w + t) mod slot_count w) ` {s..<s + k}"

lemma visited_Suc: "visited w s (Suc k) = insert ((current_slot w + s) mod slot_count w) (visited w (Suc s) k)"
proof -
  have "{s..<s + Suc k} = insert s {Suc s..<Suc s + k}" by auto
  then show ?thesis by (simp add: visited_def)
qed

lemma visited_clock: "clock_same w w' \<Longrightarrow> visited w' s k = visited w s k"
  by (simp add: visited_def clock_same_def)

lemma advance_slots_ok:
  assumes "wheel_core w C"
  shows "\<exists>w' D moved. advance_slots (Caller j) s k w = Some w' \<and> wheel_core w' D \<and> clock_same w w' \<and>
     D (Caller j) = C (Caller j) @ moved \<and> set moved = (\<Union>i \<in> visited w s k. set (C (Slot i))) \<and>
     (\<forall>i. D (Slot i) = (if i \<in> visited w s k then [] else C (Slot i)))"
  using assms
proof (induction k arbitrary: s w C)
  case 0
  then show ?case by (intro exI [of _ w] exI [of _ C] exI [of _ "[]"]) (simp add: visited_def)
next
  case (Suc k)
  let ?i = "(current_slot w + s) mod slot_count w"
  let ?C = "C(Caller j := C (Caller j) @ C (Slot ?i), Slot ?i := [])"
  have i: "?i < slot_count w" using Suc.prems by (simp add: wheel_core_def)
  from core_slot_step [OF Suc.prems i, of j] obtain v u where
    v: "expire_slot (head (lists w (Slot ?i))) w = Some v" "SpliceBack (Caller j) (Slot ?i) v = Some u"
    "wheel_core u ?C" "clock_same w u" by blast
  from Suc.IH [OF v(3), of "Suc s"] obtain w' D moved where
    D: "advance_slots (Caller j) (Suc s) k u = Some w'" "wheel_core w' D" "clock_same u w'"
    "D (Caller j) = ?C (Caller j) @ moved" "set moved = (\<Union>i \<in> visited w (Suc s) k. set (?C (Slot i)))"
    "\<forall>i. D (Slot i) = (if i \<in> visited w (Suc s) k then [] else ?C (Slot i))"
    using visited_clock [OF v(4)] by auto
  have "advance_slots (Caller j) s (Suc k) w = Some w'" using v(1,2) D(1) by (simp add: Let_def)
  moreover have "D (Caller j) = C (Caller j) @ (C (Slot ?i) @ moved)" using D(4) by simp
  moreover have "set (C (Slot ?i) @ moved) = (\<Union>i \<in> visited w s (Suc k). set (C (Slot i)))"
    unfolding visited_Suc set_append D(5) by (auto split: if_splits)
  moreover have "\<forall>i. D (Slot i) = (if i \<in> visited w s (Suc k) then [] else C (Slot i))"
    using D(6) by (simp add: visited_Suc)
  ultimately show ?case using D(2) clock_same_trans [OF v(4) D(3)] by blast
qed

lemma WheelAdvance_ok:
  assumes inv: "wheel_inv w C" and now: "current_tick_ms w < now"
  shows "\<exists>w' D moved. WheelAdvance now (Caller j) w = Some w' \<and> wheel_inv w' D \<and>
     current_tick_ms w' = now \<and> slot_count w' = slot_count w \<and>
     (\<forall>n. deadline_ms (nodes w' n) = deadline_ms (nodes w n)) \<and>
     D (Caller j) = C (Caller j) @ moved \<and> slotted (slot_count w) C = set moved \<union> slotted (slot_count w) D"
proof -
  let ?S = "slot_count w" and ?e = "unat (now - current_tick_ms w)"
  have core: "wheel_core w C" using inv by (simp add: wheel_inv_def)
  then have S: "0 < ?S" "current_slot w < ?S" by (simp_all add: wheel_core_def)
  have e: "?e = unat now - unat (current_tick_ms w)" "unat (current_tick_ms w) < unat now"
    using now by (simp_all add: unat_sub word_less_nat_alt word_le_nat_alt)
  from advance_slots_ok [OF core, of j 1 "min ?e ?S"] obtain v D moved where
    v: "advance_slots (Caller j) 1 (min ?e ?S) w = Some v" "wheel_core v D" "clock_same w v"
    "D (Caller j) = C (Caller j) @ moved" "set moved = (\<Union>i \<in> visited w 1 (min ?e ?S). set (C (Slot i)))"
    "\<forall>i. D (Slot i) = (if i \<in> visited w 1 (min ?e ?S) then [] else C (Slot i))" by blast
  define w' where "w' = v\<lparr>current_slot := (current_slot w + ?e mod ?S) mod ?S, current_tick_ms := now\<rparr>"
  have adv: "WheelAdvance now (Caller j) w = Some w'"
    using now v(1,3) by (simp add: WheelAdvance_def Let_def w'_def clock_same_def not_le)
  have core': "wheel_core w' D"
  proof -
    have "store_ok w' D" by (rule store_ok_cong [of v]) (use v(2) in \<open>simp_all add: w'_def wheel_core_def\<close>)
    moreover have "heap_inv w' = heap_inv v" by (rule heap_inv_cong) (simp_all add: w'_def)
    ultimately show ?thesis using v(2,3) S by (simp add: wheel_core_def w'_def clock_same_def)
  qed
  have "placed w' i n" if i: "i < ?S" and n: "n \<in> set (D (Slot i))" for i n
  proof -
    from n v(6) have nv: "i \<notin> visited w 1 (min ?e ?S)" "n \<in> set (C (Slot i))" by (auto split: if_splits)
    from inv i nv(2) obtain d where d: "1 \<le> d" "d \<le> ?S" "i = (current_slot w + d) mod ?S"
      "unat (current_tick_ms w) + d \<le> unat (deadline_ms (nodes w n))"
      by (auto simp: wheel_inv_def placed_def)
    have "d \<notin> {1..<1 + min ?e ?S}" using nv(1) d(3) by (auto simp: visited_def)
    then have lt: "?e < d" "?e < ?S" using d(1,2) by auto
    have "i = ((current_slot w + ?e mod ?S) mod ?S + (d - ?e)) mod ?S"
    proof -
      have "current_slot w + d = current_slot w + ?e + (d - ?e)" using lt by simp
      then show ?thesis unfolding d(3) using lt(2) by (metis mod_add_left_eq mod_less)
    qed
    moreover have "unat now + (d - ?e) \<le> unat (deadline_ms (nodes w n))" using d(4) e lt by simp
    ultimately show ?thesis
      using lt d(2) v(3) unfolding placed_def w'_def clock_same_def by (auto intro!: exI [of _ "d - ?e"])
  qed
  then have "wheel_inv w' D" using core' v(3) by (simp add: wheel_inv_def w'_def clock_same_def)
  moreover have "slotted ?S C = set moved \<union> slotted ?S D"
  proof -
    define V where "V = visited w 1 (min ?e ?S)"
    have V: "V \<subseteq> {..<?S}" using S by (auto simp: V_def visited_def)
    have "set (D (Slot i)) = (if i \<in> V then {} else set (C (Slot i)))" for i using v(6) by (simp add: V_def)
    then have "slotted ?S D = (\<Union>i \<in> {..<?S} - V. set (C (Slot i)))" by (auto simp: slotted_def)
    with V show ?thesis unfolding slotted_def v(5) V_def [symmetric] by blast
  qed
  ultimately show ?thesis using adv v(3,4) by (auto simp: w'_def clock_same_def)
qed

section \<open>A wheel in use\<close>

text \<open>
  The steps of a wheel's clients (\<open>IoManager\<close> and the coroutine scheduler): they set the deadline of an
  unlinked node, add, remove and advance, and pop nodes off their list of expired timers.
\<close>

inductive wheel_step :: "TimerWheel \<Rightarrow> TimerWheel \<Rightarrow> bool" where
  set_deadline: "node_list (nodes w n) = None \<Longrightarrow>
    wheel_step w (upd_node n (\<lambda>x. x\<lparr>deadline_ms := d\<rparr>) w)"
| add_timer: "WheelAdd n w = Inr w' \<Longrightarrow> wheel_step w w'"
| remove_timer: "wheel_step w (WheelRemove n w)"
| advance: "WheelAdvance now (Caller j) w = Some w' \<Longrightarrow> wheel_step w w'"
| pop_expired: "PopFront (Caller j) w = (r, w') \<Longrightarrow> wheel_step w w'"

definition wheel_start :: "TimerWheel \<Rightarrow> bool" where
  "wheel_start w \<longleftrightarrow> (\<exists>slots start_ms now ns ls. new_wheel slots start_ms now ns ls = Inr w \<and>
     (\<forall>n. node_list (ns n) = None \<and> \<not> scheduled (ns n) \<and> deadline_heap_index (ns n) = None) \<and>
     (\<forall>j. ls (Caller j) = \<lparr>head = None, tail = None\<rparr>))"

lemma wheel_start_inv: "wheel_start w \<Longrightarrow> wheel_inv w (\<lambda>_. [])"
  by (auto simp: wheel_start_def new_wheel_def wheel_inv_def wheel_core_def store_ok_def is_list_def
        heap_inv_def index_ok_def heap_order_def slotted_def split: if_splits list_id.splits)

lemma deadline_step_inv:
  assumes inv: "wheel_inv w C" and free: "node_list (nodes w n) = None"
  shows "wheel_inv (upd_node n (\<lambda>x. x\<lparr>deadline_ms := d\<rparr>) w) C"
proof -
  let ?w = "upd_node n (\<lambda>x. x\<lparr>deadline_ms := d\<rparr>) w"
  have core: "wheel_core w C" using inv by (simp add: wheel_inv_def)
  have n: "n \<notin> set (C l)" for l
    using core free store_ok_member [of w C n l] by (simp add: wheel_core_def)
  have nh: "n \<notin> set (deadline_heap w)" using core_member [OF core] free by simp
  have "keys ?w j = keys w j" if "j < length (deadline_heap w)" for j
    using nth_mem [OF that] nh by (auto simp: keys_def key_def)
  then have "heap_order (keys ?w) (length (deadline_heap w)) = heap_order (keys w) (length (deadline_heap w))"
    by (cases "deadline_heap w = []") (simp add: heap_order_def, intro order_cong(3) [where i = 0], auto)
  then have "heap_inv ?w" using core by (simp add: wheel_core_def heap_inv_def index_ok_def)
  moreover have "store_ok ?w C" by (rule store_ok_cong [of w]) (use core in \<open>simp_all add: wheel_core_def\<close>)
  ultimately have "wheel_core ?w C" using core by (simp add: wheel_core_def)
  moreover have "placed ?w i m" if "i < slot_count w" "m \<in> set (C (Slot i))" for i m
    using inv that n by (auto simp: wheel_inv_def placed_def)
  ultimately show ?thesis by (simp add: wheel_inv_def)
qed

lemma remove_step_inv:
  assumes "wheel_inv w C"
  shows "wheel_inv (WheelRemove n w) (\<lambda>l. remove1 n (C l))"
proof -
  from assms have core: "wheel_core w C" by (simp add: wheel_inv_def)
  from WheelRemove_ok [OF core, of n] have r: "wheel_core (WheelRemove n w) (\<lambda>l. remove1 n (C l))"
    "clock_same w (WheelRemove n w)" by auto
  have "placed w i m" if "i < slot_count w" "m \<in> set (remove1 n (C (Slot i)))" for i m
    using assms that subsetD [OF set_remove1_subset that(2)] by (simp add: wheel_inv_def)
  with r(1) show ?thesis
    using clock_same_placed [OF r(2)] r(2) by (auto simp: wheel_inv_def clock_same_def)
qed

lemma pop_step_inv:
  assumes "wheel_inv w C" "PopFront (Caller j) w = (r, w')"
  shows "wheel_inv w' (C(Caller j := tl (C (Caller j))))"
proof -
  have core: "wheel_core w C" using assms(1) by (simp add: wheel_inv_def)
  then have "store_ok w' (C(Caller j := tl (C (Caller j))))"
    using PopFront_ok [OF _ assms(2)] by (simp add: wheel_core_def)
  moreover have "same_data w w'"
    using assms(2) Remove_data by (auto simp: PopFront_def same_data_def split: option.splits)
  note sd = same_data_wheel [OF this]
  moreover have "slotted k (C(Caller j := tl (C (Caller j)))) = slotted k C" for k by (simp add: slotted_def)
  ultimately have "wheel_core w' (C(Caller j := tl (C (Caller j))))"
    using core by (simp add: wheel_core_def clock_same_def)
  then show ?thesis
    using assms(1) clock_same_placed [OF sd(3)] sd(3) by (simp add: wheel_inv_def clock_same_def)
qed

interpretation wheel_system: invariant_system wheel_start wheel_step "\<lambda>w. \<exists>C. wheel_inv w C"
proof
  fix w assume "wheel_start w"
  then show "\<exists>C. wheel_inv w C" using wheel_start_inv by blast
next
  fix w w' assume "\<exists>C. wheel_inv w C" and "wheel_step w w'"
  then obtain C where inv: "wheel_inv w C" by blast
  from \<open>wheel_step w w'\<close> show "\<exists>C. wheel_inv w' C"
  proof cases
    case (add_timer n)
    then have "current_tick_ms w < deadline_ms (nodes w n)" by (auto simp: WheelAdd_def split: if_splits)
    from WheelAdd_ok [OF inv this] add_timer show ?thesis by auto
  next
    case (advance now j)
    show ?thesis
    proof (cases "now \<le> current_tick_ms w")
      case True
      then show ?thesis using advance inv by (auto simp: WheelAdvance_def)
    next
      case False
      with WheelAdvance_ok [OF inv, of now j] advance show ?thesis by (auto simp: not_le)
    qed
  qed (use inv deadline_step_inv remove_step_inv pop_step_inv in blast)+
qed

lemma wheel_inv_scheduled:
  assumes "wheel_inv w C"
  shows "scheduled (nodes w n) \<longleftrightarrow> n \<in> slotted (slot_count w) C" "heap_inv w"
    "scheduled (nodes w n) \<longleftrightarrow> n \<in> set (deadline_heap w)" "wheel_size w = card {n. scheduled (nodes w n)}"
    "scheduled (nodes w n) \<Longrightarrow> current_tick_ms w < deadline_ms (nodes w n)"
proof -
  have core: "wheel_core w C" using assms by (simp add: wheel_inv_def)
  show a: "heap_inv w" "scheduled (nodes w n) \<longleftrightarrow> n \<in> slotted (slot_count w) C"
    "scheduled (nodes w n) \<longleftrightarrow> n \<in> set (deadline_heap w)"
    using core by (simp_all add: wheel_core_def)
  have "{n. scheduled (nodes w n)} = set (deadline_heap w)" using core by (auto simp: wheel_core_def)
  moreover have "distinct (deadline_heap w)" "wheel_size w = length (deadline_heap w)"
    using core by (simp_all add: wheel_core_def heap_inv_def index_ok_def)
  ultimately show "wheel_size w = card {n. scheduled (nodes w n)}" by (simp only: distinct_card)
  assume "scheduled (nodes w n)"
  with a(2) obtain i where "i < slot_count w" "n \<in> set (C (Slot i))" by (auto simp: slotted_def)
  then have "placed w i n" using assms by (simp add: wheel_inv_def)
  then show "current_tick_ms w < deadline_ms (nodes w n)" by (auto simp: placed_def word_less_nat_alt)
qed

lemma empty_wheel_reach: "reach wheel_start wheel_step empty_wheel"
proof (rule reach.reach_init)
  show "wheel_start empty_wheel"
    unfolding wheel_start_def
    by (intro exI [of _ 4] exI [of _ 1] exI [of _ 0] exI [of _ "nodes idle_timers"] exI [of _ "lists idle_timers"])
       (auto simp: new_wheel_def empty_wheel_def idle_timers_def fun_eq_iff split: list_id.splits)
qed



text \<open>
  C5. No deadline is missed and no timer is lost: advancing a reachable wheel to a later time
  terminates, moves every scheduled timer that is due to the caller's list, leaves
  scheduled only timers that are still in the future, and every timer that stops being
  scheduled is on the caller's list.
\<close>

theorem wheel_advance_complete:
  assumes "reach wheel_start wheel_step w" and "current_tick_ms w < now"
  shows "\<exists>w'. WheelAdvance now (Caller j) w = Some w' \<and> current_tick_ms w' = now \<and>
     (\<forall>n. scheduled (nodes w n) \<and> deadline_ms (nodes w n) \<le> now \<longrightarrow> node_list (nodes w' n) = Some (Caller j)) \<and>
     (\<forall>n. scheduled (nodes w n) \<and> \<not> scheduled (nodes w' n) \<longrightarrow> node_list (nodes w' n) = Some (Caller j)) \<and>
     (\<forall>n. scheduled (nodes w' n) \<longrightarrow> scheduled (nodes w n) \<and> now < deadline_ms (nodes w n))"
proof -
  from wheel_system.reach_inv [OF assms(1)] obtain C where inv: "wheel_inv w C" by blast
  from WheelAdvance_ok [OF inv assms(2), of j] obtain w' D moved where
    w': "WheelAdvance now (Caller j) w = Some w'" "wheel_inv w' D" "current_tick_ms w' = now"
    "slot_count w' = slot_count w" "\<forall>n. deadline_ms (nodes w' n) = deadline_ms (nodes w n)"
    "D (Caller j) = C (Caller j) @ moved" "slotted (slot_count w) C = set moved \<union> slotted (slot_count w) D" by blast
  note s = wheel_inv_scheduled [OF inv] and s' = wheel_inv_scheduled [OF w'(2)]
  have gone: "node_list (nodes w' n) = Some (Caller j)" if "scheduled (nodes w n)" "\<not> scheduled (nodes w' n)" for n
  proof -
    have "n \<in> set moved" using that w'(4,7) s(1) [of n] s'(1) [of n] by auto
    then have "n \<in> set (D (Caller j))" by (simp add: w'(6))
    then show ?thesis using w'(2) store_ok_member [of w' D n "Caller j"] by (simp add: wheel_inv_def wheel_core_def)
  qed
  have fut: "scheduled (nodes w' n) \<Longrightarrow> scheduled (nodes w n) \<and> now < deadline_ms (nodes w n)" for n
    using s'(5) [of n] w'(3,4,5,7) s(1) [of n] s'(1) [of n] by auto
  have "\<not> scheduled (nodes w' n)" if "deadline_ms (nodes w n) \<le> now" for n using fut [of n] that by auto
  with w'(1,3) gone fut show ?thesis by blast
qed

theorem wheel_advance_complete_witness:
  "\<exists>w'. WheelAdvance 9 (Caller 0) empty_wheel = Some w' \<and> current_tick_ms w' = 9"
proof -
  from wheel_advance_complete [OF empty_wheel_reach, of 9 0] show ?thesis by (auto simp: empty_wheel_def)
qed

end
