(* ===== verification/ServiceTypes.thy ===== *)
theory ServiceTypes
  imports FrameDecoder
begin

text \<open>
  The types shared by client and server: \<open>transport/rpc_status.h\<close>, \<open>transport/rpc_call_options.h\<close>,
  \<open>transport/service_endpoint.h\<close> and the status enums of \<open>transport/multiplexed_connection.h\<close>.
  \<open>RpcStatus\<close> travels in the flags of a response frame and is cast from it, so it is its
  underlying word; \<open>CallStatus\<close> and \<open>ConnectionState\<close> are never cast and are datatypes. A
  \<open>std::unordered_map\<close> that is only looked up is a partial function; one that the code
  iterates over is an association list with distinct keys, in the order of iteration.

  A frame nothing was assigned to and the timeout that means none are here as well.

  The lemmas concern the decimal rendering of ports and the address key, under which
  connections, breakers and endpoints are filed.
\<close>

definition kNoTimeout :: u64 where "kNoTimeout = - 1"

definition empty_frame :: Frame where
  "empty_frame = \<lparr>header = empty_header, metadata = [], body = []\<rparr>"

section \<open>Status values\<close>

type_synonym RpcStatus = u32

definition RPC_OK :: RpcStatus where "RPC_OK = 0"
definition RPC_CANCELLED :: RpcStatus where "RPC_CANCELLED = 1"
definition RPC_INVALID_ARGUMENT :: RpcStatus where "RPC_INVALID_ARGUMENT = 2"
definition RPC_DEADLINE_EXCEEDED :: RpcStatus where "RPC_DEADLINE_EXCEEDED = 3"
definition RPC_NOT_FOUND :: RpcStatus where "RPC_NOT_FOUND = 4"
definition RPC_ALREADY_EXISTS :: RpcStatus where "RPC_ALREADY_EXISTS = 5"
definition RPC_RESOURCE_EXHAUSTED :: RpcStatus where "RPC_RESOURCE_EXHAUSTED = 6"
definition RPC_FAILED_PRECONDITION :: RpcStatus where "RPC_FAILED_PRECONDITION = 7"
definition RPC_UNAVAILABLE :: RpcStatus where "RPC_UNAVAILABLE = 8"
definition RPC_INTERNAL :: RpcStatus where "RPC_INTERNAL = 9"
definition RPC_UNIMPLEMENTED :: RpcStatus where "RPC_UNIMPLEMENTED = 10"

lemmas rpc_status_defs = RPC_OK_def RPC_CANCELLED_def RPC_INVALID_ARGUMENT_def RPC_DEADLINE_EXCEEDED_def
  RPC_NOT_FOUND_def RPC_ALREADY_EXISTS_def RPC_RESOURCE_EXHAUSTED_def RPC_FAILED_PRECONDITION_def
  RPC_UNAVAILABLE_def RPC_INTERNAL_def RPC_UNIMPLEMENTED_def

definition ResponseStatus :: "Frame \<Rightarrow> RpcStatus" where
  "ResponseStatus frame = flags (header frame)"

definition SetResponseStatus :: "RpcStatus \<Rightarrow> Frame \<Rightarrow> Frame" where
  "SetResponseStatus st frame = frame\<lparr>header := (header frame)\<lparr>flags := st\<rparr>\<rparr>"

datatype ConnectionState = DISCONNECTED | CONNECTING | READY | CLOSING | CLOSED

datatype CallStatus =
    CALL_OK | CALL_TIMEOUT | CALL_NOT_CONNECTED | CALL_INVALID_REQUEST | CALL_DUPLICATE_REQUEST_ID
  | CALL_ENCODE_ERROR | CALL_CONNECTION_CLOSED | CALL_PROTOCOL_ERROR | CALL_RESOURCE_EXHAUSTED
  | CALL_LOCAL_OVERLOADED | CALL_SERVICE_NOT_FOUND | CALL_DRAINING

record CallResult =
  call_status :: CallStatus
  rpc_status :: RpcStatus
  result_request_id :: u64
  response :: Frame

section \<open>Options\<close>

record CircuitBreakerOptions =
  window_size :: nat
  minimum_requests :: nat
  failure_threshold_percent :: nat
  open_interval_ms :: u64
  max_open_interval_ms :: u64
  half_open_max_probes :: nat

definition default_breaker_options :: CircuitBreakerOptions where
  "default_breaker_options = \<lparr>window_size = 20, minimum_requests = 10, failure_threshold_percent = 50,
     open_interval_ms = 1000, max_open_interval_ms = 30000, half_open_max_probes = 1\<rparr>"

record RetryOptions =
  max_attempts :: nat
  retry_budget_capacity :: nat
  base_backoff_ms :: u64
  max_backoff_ms :: u64

definition default_retry_options :: RetryOptions where
  "default_retry_options = \<lparr>max_attempts = 3, retry_budget_capacity = 100, base_backoff_ms = 5,
     max_backoff_ms = 250\<rparr>"

section \<open>Endpoints\<close>

record MethodCapability =
  service_version :: string
  codec :: string
  request_schema :: string
  response_schema :: string

definition capability_valid :: "MethodCapability \<Rightarrow> bool" where
  "capability_valid c \<longleftrightarrow> service_version c \<noteq> [] \<and> codec c \<noteq> []"

record Endpoint =
  host :: string
  port :: u16
  methods :: "(string \<times> MethodCapability) list"

definition endpoint_valid :: "Endpoint \<Rightarrow> bool" where
  "endpoint_valid e \<longleftrightarrow> host e \<noteq> [] \<and> port e \<noteq> 0 \<and> methods e \<noteq> []"

text \<open>\<open>std::to_string\<close> of an unsigned value.\<close>

definition digit :: "nat \<Rightarrow> char" where
  "digit d = char_of (48 + d)"

fun to_string :: "nat \<Rightarrow> string" where
  "to_string n = (if n < 10 then [digit n] else to_string (n div 10) @ [digit (n mod 10)])"

declare to_string.simps [simp del]

definition address_key :: "Endpoint \<Rightarrow> string" where
  "address_key e =
     (if CHR '':'' \<in> set (host e) \<and> (host e = [] \<or> hd (host e) \<noteq> CHR ''['')
      then ''['' @ host e @ '']:'' @ to_string (unat (port e))
      else host e @ '':'' @ to_string (unat (port e)))"

definition Supports :: "Endpoint \<Rightarrow> string \<Rightarrow> bool" where
  "Supports e meth \<longleftrightarrow> map_of (methods e) meth \<noteq> None"

section \<open>Decimal numbers\<close>

fun of_digits :: "string \<Rightarrow> nat" where
  "of_digits s = foldl (\<lambda>acc c. acc * 10 + (of_char c - 48)) 0 s"

declare of_digits.simps [simp del]

lemma of_char_digit: "d < 10 \<Longrightarrow> of_char (digit d) = 48 + d"
  by (simp add: digit_def)

lemma of_digits_snoc: "of_digits (s @ [c]) = of_digits s * 10 + (of_char c - 48)"
  by (simp add: of_digits.simps)

lemma of_digits_to_string: "of_digits (to_string n) = n"
proof (induction n rule: to_string.induct)
  case (1 n)
  show ?case
  proof (cases "n < 10")
    case True
    then show ?thesis by (simp add: to_string.simps [of n] of_digits.simps of_char_digit)
  next
    case False
    with 1 show ?thesis by (simp add: to_string.simps [of n] of_digits_snoc of_char_digit)
  qed
qed

lemma to_string_inject: "to_string m = to_string n \<longleftrightarrow> m = n"
  by (metis of_digits_to_string)

lemma to_string_digits: "c \<in> set (to_string n) \<Longrightarrow> \<exists>d < 10. c = digit d"
proof (induction n rule: to_string.induct)
  case (1 n)
  show ?case
  proof (cases "n < 10")
    case True
    with 1(2) show ?thesis by (auto simp: to_string.simps [of n])
  next
    case False
    with 1(2) have "c \<in> set (to_string (n div 10)) \<or> c = digit (n mod 10)" by (auto simp: to_string.simps [of n])
    then show ?thesis using 1(1) [OF False] by (auto intro: exI [of _ "n mod 10"])
  qed
qed

lemma digit_range: "d < 10 \<Longrightarrow> of_char (digit d) \<in> {48..57 :: nat}"
  by (simp add: of_char_digit)

lemma to_string_no_colon: "CHR '':'' \<notin> set (to_string n)"
proof
  assume "CHR '':'' \<in> set (to_string n)"
  then obtain d where d: "d < 10" "CHR '':'' = digit d" using to_string_digits by blast
  then have "(of_char (CHR '':'') :: nat) \<in> {48..57}" using digit_range by metis
  then show False by simp
qed

lemma append_sep_inject:
  "x \<notin> set ys \<Longrightarrow> x \<notin> set ys' \<Longrightarrow> xs @ x # ys = xs' @ x # ys' \<Longrightarrow> xs = xs' \<and> ys = ys'"
proof -
  assume a: "x \<notin> set ys" "x \<notin> set ys'" "xs @ x # ys = xs' @ x # ys'"
  then have "rev ys @ x # rev xs = rev ys' @ x # rev xs'" by (metis append.assoc append_Cons append_Nil rev.simps(2) rev_append)
  moreover have "takeWhile (\<lambda>c. c \<noteq> x) (rev ys @ x # rev xs) = rev ys"
    "takeWhile (\<lambda>c. c \<noteq> x) (rev ys' @ x # rev xs') = rev ys'"
    using a(1,2) by (auto simp: takeWhile_append takeWhile_eq_all_conv)
  ultimately have "rev ys = rev ys'" by simp
  with a(3) show ?thesis by simp
qed

text \<open>
  Endpoints are told apart by their address key: two endpoints with the same key have the
  same host and port, as long as hosts are not written in brackets already.
\<close>

theorem address_key_inject:
  assumes "address_key a = address_key b" and "take 1 (host a) \<noteq> ''[''" and "take 1 (host b) \<noteq> ''[''"
  shows "host a = host b \<and> port a = port b"
proof -
  define pre where "pre e = (if CHR '':'' \<in> set (host e) then ''['' @ host e @ '']'' else host e)" for e :: Endpoint
  have key: "address_key e = pre e @ CHR '':'' # to_string (unat (port e))" if "take 1 (host e) \<noteq> ''[''" for e
    using that by (cases "host e") (auto simp: address_key_def pre_def)
  from assms key have "pre a @ CHR '':'' # to_string (unat (port a)) = pre b @ CHR '':'' # to_string (unat (port b))"
    by simp
  from append_sep_inject [OF to_string_no_colon to_string_no_colon this]
  have "pre a = pre b" "port a = port b" by (simp_all add: to_string_inject word_unat_eq_iff)
  moreover have "host a = host b" if "pre a = pre b"
    using that assms(2,3) by (cases "host a"; cases "host b") (auto simp: pre_def split: if_splits)
  ultimately show ?thesis by simp
qed

theorem address_key_inject_witness:
  "address_key \<lparr>host = ''::1'', port = 80, methods = []\<rparr> = ''[::1]:80'' \<and>
   host \<lparr>host = ''::1'', port = 80, methods = []\<rparr> = host \<lparr>host = ''::1'', port = 80, methods = [(''m'', undefined)]\<rparr>"
proof -
  let ?a = "\<lparr>host = ''::1'', port = 80, methods = []\<rparr>"
  let ?b = "\<lparr>host = ''::1'', port = 80, methods = [(''m'', undefined)]\<rparr>"
  have "address_key ?a = ''[::1]:80''" "address_key ?b = ''[::1]:80''"
    by (simp_all add: address_key_def to_string.simps digit_def char_of_def bit_simps)
  then show ?thesis using address_key_inject [of ?a ?b] by simp
qed

end
