(* ===== verification/CircuitBreaker.thy ===== *)
theory CircuitBreaker
  imports ServiceTypes
begin

text \<open>
  The circuit breaker of the client, \<open>struct Breaker\<close> and the functions \<open>Allow\<close>, \<open>Record\<close> and \<open>Open\<close> of
  \<open>transport/rpc_client.cpp\<close>. One 64-bit control word packs the state, the number of probes in
  flight, the successful probes and a generation; a second word packs the sliding window's
  count and failures. Every compare-and-swap loop is modelled by the value it finally swaps
  in: a failed attempt reloads the word and computes again from it. \<open>Open\<close> is split at its two
  atomic phases (publish \<open>kOpening\<close>, then publish \<open>kOpen\<close>), between which other threads run; a
  thread that meets \<open>kOpening\<close> in \<open>Allow\<close> spins, which is the result \<open>None\<close>.

  The lemmas: the packing is lossless, the state machine keeps its invariant under every
  interleaving of the atomic steps, enough failures trip the breaker, an open breaker denies
  until its interval is over and then admits a bounded number of probes.
\<close>

definition kDeniedPermit :: u64 where "kDeniedPermit = - 1"
definition kStateMask :: u64 where "kStateMask = 0x3"
definition kClosed :: u64 where "kClosed = 0"
definition kOpen :: u64 where "kOpen = 1"
definition kHalfOpen :: u64 where "kHalfOpen = 2"
definition kOpening :: u64 where "kOpening = 3"
definition kInflightShift :: nat where "kInflightShift = 2"
definition kSuccessShift :: nat where "kSuccessShift = 18"
definition kGenerationShift :: nat where "kGenerationShift = 34"
definition kCounterMask :: u64 where "kCounterMask = 0xffff"
definition kGenerationMask :: u64 where "kGenerationMask = push_bit 30 1 - 1"

lemmas breaker_states = kClosed_def kOpen_def kHalfOpen_def kOpening_def

definition State :: "u64 \<Rightarrow> u64" where
  "State control = control AND kStateMask"

definition Generation :: "u64 \<Rightarrow> u64" where
  "Generation control = drop_bit kGenerationShift control AND kGenerationMask"

definition Inflight :: "u64 \<Rightarrow> u64" where
  "Inflight control = drop_bit kInflightShift control AND kCounterMask"

definition Successes :: "u64 \<Rightarrow> u64" where
  "Successes control = drop_bit kSuccessShift control AND kCounterMask"

definition Control :: "u64 \<Rightarrow> u64 \<Rightarrow> u64 \<Rightarrow> u64 \<Rightarrow> u64" where
  "Control state generation inflight successes =
     state OR push_bit kInflightShift (inflight AND kCounterMask) OR
     push_bit kSuccessShift (successes AND kCounterMask) OR
     push_bit kGenerationShift (generation AND kGenerationMask)"

definition NextGeneration :: "u64 \<Rightarrow> u64" where
  "NextGeneration control = (Generation control + 1) AND kGenerationMask"

definition BreakerKey :: "string \<Rightarrow> string \<Rightarrow> string" where
  "BreakerKey svc address = svc @ [CHR 0x0A] @ address"

record Breaker =
  control :: u64
  window :: u64
  reopen_at_ms :: u64
  overload_until_ms :: u64
  consecutive_opens :: nat

definition new_breaker :: Breaker where
  "new_breaker = \<lparr>control = Control kClosed 0 0 0, window = 0, reopen_at_ms = 0, overload_until_ms = 0,
     consecutive_opens = 0\<rparr>"

definition Allow :: "CircuitBreakerOptions \<Rightarrow> u64 \<Rightarrow> Breaker \<Rightarrow> (u64 \<times> Breaker) option" where
  "Allow opts now_ms b =
     (if now_ms < overload_until_ms b then Some (kDeniedPermit, b)
      else if State (control b) = kClosed then Some (control b, b)
      else if State (control b) = kOpen then
        (if now_ms < reopen_at_ms b then Some (kDeniedPermit, b)
         else let half = Control kHalfOpen (NextGeneration (control b)) 1 0
              in Some (half, b\<lparr>control := half\<rparr>))
      else if State (control b) = kOpening then None
      else if unat (Inflight (control b)) \<ge> half_open_max_probes opts then Some (kDeniedPermit, b)
      else let nxt = Control kHalfOpen (Generation (control b)) (Inflight (control b) + 1)
                       (Successes (control b))
           in Some (nxt, b\<lparr>control := nxt\<rparr>))"

text \<open>The first phase of \<open>Open\<close>: the swap to \<open>kOpening\<close> and the count of consecutive openings.\<close>

definition OpenBegin :: "u64 \<Rightarrow> Breaker \<Rightarrow> (u64 \<times> nat \<times> Breaker) option" where
  "OpenBegin expected_control b =
     (if State (control b) = State expected_control \<and>
         Generation (control b) = Generation expected_control
      then let generation = NextGeneration (control b);
               opens = consecutive_opens b
           in Some (generation, opens,
                b\<lparr>control := Control kOpening generation 0 0, consecutive_opens := opens + 1\<rparr>)
      else None)"

definition OpenFinish :: "CircuitBreakerOptions \<Rightarrow> u64 \<Rightarrow> nat \<Rightarrow> u64 \<Rightarrow> Breaker \<Rightarrow> Breaker" where
  "OpenFinish opts generation opens now_ms b =
     (let shift = min opens 16;
          interval = min (push_bit shift (open_interval_ms opts)) (max_open_interval_ms opts)
      in b\<lparr>reopen_at_ms := now_ms + interval, window := 0, control := Control kOpen generation 0 0\<rparr>)"

definition Open :: "CircuitBreakerOptions \<Rightarrow> u64 \<Rightarrow> u64 \<Rightarrow> Breaker \<Rightarrow> Breaker" where
  "Open opts expected_control now_ms b =
     (case OpenBegin expected_control b of
        None \<Rightarrow> b
      | Some (generation, opens, b) \<Rightarrow> OpenFinish opts generation opens now_ms b)"

definition local_failure :: "CallResult \<Rightarrow> bool" where
  "local_failure r \<longleftrightarrow> call_status r = CALL_ENCODE_ERROR \<or> call_status r = CALL_PROTOCOL_ERROR"

definition overload :: "CallResult \<Rightarrow> bool" where
  "overload r \<longleftrightarrow> call_status r = CALL_LOCAL_OVERLOADED \<or> rpc_status r = RPC_RESOURCE_EXHAUSTED"

definition transport_failure :: "CallResult \<Rightarrow> bool" where
  "transport_failure r \<longleftrightarrow> call_status r = CALL_NOT_CONNECTED \<or> call_status r = CALL_CONNECTION_CLOSED \<or>
     call_status r = CALL_TIMEOUT \<or> rpc_status r = RPC_UNAVAILABLE \<or> rpc_status r = RPC_DEADLINE_EXCEEDED"

text \<open>The half-open branch of \<open>Record\<close> for a call that was not a transport failure.\<close>

definition RecordProbe :: "CircuitBreakerOptions \<Rightarrow> u64 \<Rightarrow> CallResult \<Rightarrow> Breaker \<Rightarrow> Breaker" where
  "RecordProbe opts permit result b =
     (if State (control b) = kHalfOpen \<and> Generation (control b) = Generation permit
      then
        let inflight = Inflight (control b);
            successes = Successes (control b) +
              (if call_status result = CALL_OK \<and> rpc_status result = RPC_OK then 1 else 0);
            nxt = (if inflight = 1 \<and> unat successes \<ge> half_open_max_probes opts
                   then Control kClosed (NextGeneration (control b)) 0 0
                   else Control kHalfOpen (Generation (control b))
                          (if inflight = 0 then 0 else inflight - 1) successes);
            b = b\<lparr>control := nxt\<rparr>
        in if State nxt = kClosed then b\<lparr>window := 0, consecutive_opens := 0\<rparr> else b
      else b)"

text \<open>The window update of \<open>Record\<close>; the result says whether the threshold is reached.\<close>

definition RecordWindow :: "CircuitBreakerOptions \<Rightarrow> CallResult \<Rightarrow> Breaker \<Rightarrow> bool \<times> Breaker" where
  "RecordWindow opts result b =
     (let count = ucast (window b AND 0xFFFFFFFF) :: u32;
          failures = ucast (drop_bit 32 (window b)) :: u32;
          (count, failures) = (if unat count \<ge> window_size opts then (0, 0) else (count, failures));
          count = count + 1;
          failures = (if transport_failure result then failures + 1 else failures);
          nxt = push_bit 32 (ucast failures) OR ucast count
      in (unat count \<ge> minimum_requests opts \<and>
          unat (failures * 100) \<ge> unat count * failure_threshold_percent opts mod 2 ^ 64,
          b\<lparr>window := nxt\<rparr>))"

definition Record :: "CircuitBreakerOptions \<Rightarrow> RetryOptions \<Rightarrow> u64 \<Rightarrow> CallResult \<Rightarrow> u64 \<Rightarrow> Breaker \<Rightarrow> Breaker" where
  "Record opts retry permit result now_ms b =
     (let b = (if overload result then b\<lparr>overload_until_ms := now_ms + base_backoff_ms retry\<rparr> else b)
      in if State permit = kHalfOpen then
           (if transport_failure result then Open opts permit now_ms b
            else RecordProbe opts permit result b)
         else if local_failure result \<or> overload result \<or> State permit \<noteq> kClosed then b
         else if State (control b) \<noteq> kClosed \<or> Generation (control b) \<noteq> Generation permit then b
         else case RecordWindow opts result b of
                (False, b) \<Rightarrow> b
              | (True, b) \<Rightarrow> Open opts (control b) now_ms b)"

section \<open>The packed control word\<close>

lemma mask_forms: "kStateMask = mask 2" "kCounterMask = mask 16" "kGenerationMask = mask 30"
  by (simp_all add: kStateMask_def kCounterMask_def kGenerationMask_def mask_eq_exp_minus_1)

lemma field_forms:
  "State c = take_bit 2 c" "Generation c = take_bit 30 (drop_bit 34 c)"
  "Inflight c = take_bit 16 (drop_bit 2 c)" "Successes c = take_bit 16 (drop_bit 18 c)"
  "NextGeneration c = take_bit 30 (Generation c + 1)"
  "Control s g i n = s OR push_bit 2 (take_bit 16 i) OR push_bit 18 (take_bit 16 n) OR push_bit 34 (take_bit 30 g)"
  by (simp_all add: State_def Generation_def Inflight_def Successes_def NextGeneration_def Control_def mask_forms
        kInflightShift_def kSuccessShift_def kGenerationShift_def flip: take_bit_eq_mask)

lemma Control_fields [simp]:
  assumes "take_bit 2 s = s"
  shows "State (Control s g i n) = s" "Generation (Control s g i n) = take_bit 30 g"
    "Inflight (Control s g i n) = take_bit 16 i" "Successes (Control s g i n) = take_bit 16 n"
proof -
  have s: "\<not> bit s k" if "2 \<le> k" for k using assms that by (metis bit_take_bit_iff not_le)
  show "State (Control s g i n) = s"
  proof (rule bit_word_eqI)
    fix k assume "k < LENGTH(64)"
    then show "bit (State (Control s g i n)) k = bit s k"
      using s [of k] by (cases "k < 2") (auto simp: field_forms bit_simps)
  qed
  show "Inflight (Control s g i n) = take_bit 16 i"
    by (rule bit_word_eqI) (auto simp: field_forms bit_simps s)
  show "Successes (Control s g i n) = take_bit 16 n"
    by (rule bit_word_eqI) (auto simp: field_forms bit_simps s)
  show "Generation (Control s g i n) = take_bit 30 g"
    by (rule bit_word_eqI) (auto simp: field_forms bit_simps s)
qed

lemma states_fit [simp]:
  "take_bit 2 kClosed = kClosed" "take_bit 2 kOpen = kOpen" "take_bit 2 kHalfOpen = kHalfOpen"
  "take_bit 2 kOpening = kOpening"
  by (simp_all add: breaker_states)

lemma states_distinct [simp]:
  "kClosed \<noteq> kOpen" "kClosed \<noteq> kHalfOpen" "kClosed \<noteq> kOpening" "kOpen \<noteq> kHalfOpen" "kOpen \<noteq> kOpening"
  "kHalfOpen \<noteq> kOpening" "kOpen \<noteq> kClosed" "kHalfOpen \<noteq> kClosed" "kOpening \<noteq> kClosed"
  "kHalfOpen \<noteq> kOpen" "kOpening \<noteq> kOpen" "kOpening \<noteq> kHalfOpen"
  by (simp_all add: breaker_states)

lemma State_cases: "State c = kClosed \<or> State c = kOpen \<or> State c = kHalfOpen \<or> State c = kOpening"
proof -
  have "unat (State c) < 4" by (simp add: field_forms unsigned_take_bit_eq) (simp add: take_bit_eq_mod)
  then have "unat (State c) = 0 \<or> unat (State c) = 1 \<or> unat (State c) = 2 \<or> unat (State c) = 3" by linarith
  then show ?thesis by (simp add: breaker_states word_unat_eq_iff)
qed

text \<open>
  The control word is packed without loss: taking it apart and packing it again gives the
  word back, and every field packed in comes out again, truncated to its width.
\<close>

theorem control_word_roundtrip:
  "Control (State c) (Generation c) (Inflight c) (Successes c) = c \<and>
   (s \<in> {kClosed, kOpen, kHalfOpen, kOpening} \<longrightarrow>
      State (Control s g i n) = s \<and> unat (Generation (Control s g i n)) = unat g mod 2 ^ 30 \<and>
      unat (Inflight (Control s g i n)) = unat i mod 2 ^ 16 \<and>
      unat (Successes (Control s g i n)) = unat n mod 2 ^ 16)"
proof (intro conjI impI)
  show "Control (State c) (Generation c) (Inflight c) (Successes c) = c"
  proof (rule bit_word_eqI)
    fix k assume "k < LENGTH(64)"
    then consider "k < 2" | "2 \<le> k" "k < 18" | "18 \<le> k" "k < 34" | "34 \<le> k" "k < 64" by fastforce
    then show "bit (Control (State c) (Generation c) (Inflight c) (Successes c)) k = bit c k"
      by cases (auto simp: field_forms bit_simps le_iff_add)
  qed
next
  assume "s \<in> {kClosed, kOpen, kHalfOpen, kOpening}"
  then have s: "take_bit 2 s = s" by auto
  show "State (Control s g i n) = s" using s by simp
  show "unat (Generation (Control s g i n)) = unat g mod 2 ^ 30"
    "unat (Inflight (Control s g i n)) = unat i mod 2 ^ 16"
    "unat (Successes (Control s g i n)) = unat n mod 2 ^ 16"
    using s by (simp_all add: unsigned_take_bit_eq) (simp_all add: take_bit_eq_mod)
qed

theorem control_word_roundtrip_witness:
  "State (Control kHalfOpen 5 1 0) = kHalfOpen \<and> unat (Inflight (Control kHalfOpen 5 1 0)) = 1"
  using control_word_roundtrip [of 0 kHalfOpen 5 1 0] by simp

section \<open>All interleavings of the atomic steps\<close>

text \<open>
  The shared state is the breaker and the opening in progress, if there is one: the
  generation, the number of previous openings and the time its thread will publish. A call
  that records its result holds a permit whose state is closed or half open.
\<close>

type_synonym breaker_sys = "Breaker \<times> (u64 \<times> nat \<times> u64) option"

inductive breaker_step :: "CircuitBreakerOptions \<Rightarrow> RetryOptions \<Rightarrow> breaker_sys \<Rightarrow> breaker_sys \<Rightarrow> bool"
  for opts retry where
  step_allow: "Allow opts now b = Some (p, b') \<Longrightarrow> breaker_step opts retry (b, op) (b', op)"
| step_overload: "breaker_step opts retry (b, op) (b\<lparr>overload_until_ms := now + base_backoff_ms retry\<rparr>, op)"
| step_probe: "breaker_step opts retry (b, op) (RecordProbe opts permit result b, op)"
| step_window: "RecordWindow opts result b = (trip, b') \<Longrightarrow> breaker_step opts retry (b, op) (b', op)"
| step_open_begin: "OpenBegin permit b = Some (g, n, b') \<Longrightarrow> State permit \<in> {kClosed, kHalfOpen} \<Longrightarrow>
    breaker_step opts retry (b, op) (b', Some (g, n, now))"
| step_open_finish: "breaker_step opts retry (b, Some (g, n, now)) (OpenFinish opts g n now b, None)"

definition breaker_inv :: "CircuitBreakerOptions \<Rightarrow> breaker_sys \<Rightarrow> bool" where
  "breaker_inv opts s \<longleftrightarrow> (State (control (fst s)) = kOpening \<longleftrightarrow> snd s \<noteq> None) \<and>
     (\<forall>g n t. snd s = Some (g, n, t) \<longrightarrow> Generation (control (fst s)) = g) \<and>
     (State (control (fst s)) = kHalfOpen \<longrightarrow> unat (Inflight (control (fst s))) \<le> half_open_max_probes opts)"

lemma unat_take_bit_le: "unat (take_bit n (w :: u64)) \<le> unat w"
  by (simp add: unsigned_take_bit_eq take_bit_nat_less_eq_self)

lemma unat_Suc_le: "unat (w + 1 :: u64) \<le> Suc (unat w)"
  by (simp add: unat_word_ariths(1))

lemma Allow_cases:
  assumes "Allow opts now b = Some (p, b')"
  obtains (denied) "b' = b" "p = kDeniedPermit"
    | (closed) "b' = b" "p = control b" "State (control b) = kClosed" "overload_until_ms b \<le> now"
    | (first_probe) "State (control b) = kOpen" "p = Control kHalfOpen (NextGeneration (control b)) 1 0"
      "b' = b\<lparr>control := p\<rparr>" "overload_until_ms b \<le> now" "reopen_at_ms b \<le> now"
    | (next_probe) "State (control b) = kHalfOpen" "unat (Inflight (control b)) < half_open_max_probes opts"
      "p = Control kHalfOpen (Generation (control b)) (Inflight (control b) + 1) (Successes (control b))"
      "b' = b\<lparr>control := p\<rparr>" "overload_until_ms b \<le> now"
proof -
  let ?S = "State (control b)"
  consider "now < overload_until_ms b" | "overload_until_ms b \<le> now" "?S = kClosed"
    | "overload_until_ms b \<le> now" "?S = kOpen" "now < reopen_at_ms b"
    | "overload_until_ms b \<le> now" "?S = kOpen" "reopen_at_ms b \<le> now"
    | "overload_until_ms b \<le> now" "?S = kOpening"
    | "overload_until_ms b \<le> now" "?S = kHalfOpen" "half_open_max_probes opts \<le> unat (Inflight (control b))"
    | "overload_until_ms b \<le> now" "?S = kHalfOpen" "unat (Inflight (control b)) < half_open_max_probes opts"
    using State_cases [of "control b"] by (metis not_le)
  then show ?thesis
  proof cases
    case 1 with assms denied show ?thesis by (simp add: Allow_def)
  next
    case 2 with assms closed show ?thesis by (auto simp: Allow_def not_less [symmetric])
  next
    case 3 with assms denied show ?thesis by (auto simp: Allow_def not_less [symmetric])
  next
    case 4 with assms first_probe show ?thesis by (auto simp: Allow_def Let_def not_less [symmetric])
  next
    case 5 with assms show ?thesis by (auto simp: Allow_def not_less [symmetric])
  next
    case 6 with assms denied show ?thesis by (auto simp: Allow_def not_less [symmetric])
  next
    case 7 with assms next_probe show ?thesis by (auto simp: Allow_def Let_def not_less [symmetric])
  qed
qed

lemma Allow_inv:
  assumes "breaker_inv opts (b, op)" "0 < half_open_max_probes opts" "Allow opts now b = Some (p, b')"
  shows "breaker_inv opts (b', op)"
  using assms(3)
proof (cases rule: Allow_cases)
  case next_probe
  have "unat (take_bit 16 (Inflight (control b) + 1)) \<le> Suc (unat (Inflight (control b)))"
    using unat_take_bit_le unat_Suc_le le_trans by blast
  with next_probe assms(1) show ?thesis by (simp add: breaker_inv_def)
qed (use assms(1,2) in \<open>simp_all add: breaker_inv_def\<close>)

lemma RecordProbe_inv:
  assumes "breaker_inv opts (b, op)"
  shows "breaker_inv opts (RecordProbe opts permit result b, op)"
proof (cases "State (control b) = kHalfOpen \<and> Generation (control b) = Generation permit")
  case False
  then have "RecordProbe opts permit result b = b" by (auto simp: RecordProbe_def)
  with assms show ?thesis by simp
next
  case True
  have "unat (Inflight (control b) - 1) \<le> unat (Inflight (control b))" if "Inflight (control b) \<noteq> 0"
    using that by (simp add: unat_minus_one)
  then have "unat (take_bit 16 (if Inflight (control b) = 0 then 0 else Inflight (control b) - 1))
      \<le> unat (Inflight (control b))"
    using unat_take_bit_le le_trans by (cases "Inflight (control b) = 0") fastforce+
  with True assms show ?thesis by (simp add: RecordProbe_def Let_def breaker_inv_def)
qed

lemma RecordWindow_control: "RecordWindow opts result b = (trip, b') \<Longrightarrow> control b' = control b \<and>
    reopen_at_ms b' = reopen_at_ms b \<and> overload_until_ms b' = overload_until_ms b \<and>
    consecutive_opens b' = consecutive_opens b"
  by (auto simp: RecordWindow_def Let_def split: prod.splits)

lemma OpenBegin_inv:
  assumes "OpenBegin permit b = Some (g, n, b')"
  shows "breaker_inv opts (b', Some (g, n, now))"
  using assms by (auto simp: OpenBegin_def Let_def breaker_inv_def field_forms(5) split: if_splits)

interpretation breaker_system: invariant_system "\<lambda>s. s = (new_breaker, None)" "breaker_step opts retry"
  "\<lambda>s. 0 < half_open_max_probes opts \<longrightarrow> breaker_inv opts s" for opts retry
proof
  fix s :: breaker_sys assume "s = (new_breaker, None)"
  then show "0 < half_open_max_probes opts \<longrightarrow> breaker_inv opts s" by (simp add: breaker_inv_def new_breaker_def)
next
  fix s t assume inv: "0 < half_open_max_probes opts \<longrightarrow> breaker_inv opts s" and "breaker_step opts retry s t"
  from this(2) show "0 < half_open_max_probes opts \<longrightarrow> breaker_inv opts t"
  proof cases
    case (step_allow now b p b' op')
    with inv Allow_inv show ?thesis by blast
  next
    case (step_probe b op permit result)
    with inv RecordProbe_inv show ?thesis by blast
  next
    case (step_window result b trip b' op')
    with inv RecordWindow_control [OF step_window(3)] show ?thesis by (simp add: breaker_inv_def)
  next
    case (step_open_begin permit b g n b' now op)
    with OpenBegin_inv show ?thesis by blast
  next
    case (step_open_finish b g n now)
    then show ?thesis by (simp add: breaker_inv_def OpenFinish_def Let_def)
  qed (use inv in \<open>simp_all add: breaker_inv_def\<close>)
qed

lemma mask32: "(0xFFFFFFFF :: u64) = mask 32"
  by (simp add: mask_eq_exp_minus_1)

lemma window_fields:
  fixes f c :: u32
  shows "ucast ((push_bit 32 (ucast f) OR ucast c :: u64) AND 0xFFFFFFFF) = c"
    "ucast (drop_bit 32 (push_bit 32 (ucast f) OR ucast c :: u64)) = f"
proof -
  show "ucast ((push_bit 32 (ucast f) OR ucast c :: u64) AND 0xFFFFFFFF) = c"
    unfolding mask32 take_bit_eq_mask [symmetric]
    by (rule bit_word_eqI) (auto simp: bit_simps)
  have "\<not> bit c n" if "32 \<le> n" for n using that bit_imp_le_length [of c n] by auto
  then show "ucast (drop_bit 32 (push_bit 32 (ucast f) OR ucast c :: u64)) = f"
    by (intro bit_word_eqI) (auto simp: bit_simps)
qed

definition window_word :: "nat \<Rightarrow> nat \<Rightarrow> u64" where
  "window_word failures count = push_bit 32 (ucast (of_nat failures :: u32)) OR ucast (of_nat count :: u32)"

lemma u32_of_nat: "n < 2 ^ 32 \<Longrightarrow> unat (of_nat n :: u32) = n"
  by (simp add: unat_of_nat)

lemma RecordWindow_step:
  assumes w: "window b = window_word f c" and c: "c < window_size opts" "Suc c < 2 ^ 32"
    and f: "f' = (if transport_failure r then Suc f else f)" "f' * 100 < 2 ^ 32"
  shows "RecordWindow opts r b =
    (minimum_requests opts \<le> Suc c \<and> Suc c * failure_threshold_percent opts mod 2 ^ 64 \<le> f' * 100,
     b\<lparr>window := window_word f' (Suc c)\<rparr>)"
proof -
  have count: "ucast (window b AND 0xFFFFFFFF) = (of_nat c :: u32)"
    unfolding w window_word_def by (rule window_fields(1))
  have failures: "ucast (drop_bit 32 (window b)) = (of_nat f :: u32)"
    unfolding w window_word_def by (rule window_fields(2))
  have f'_word: "(if transport_failure r then of_nat f + 1 else of_nat f) = (of_nat f' :: u32)"
    unfolding f(1) by simp
  have c_word: "(of_nat c + 1 :: u32) = of_nat (Suc c)" by simp
  have uc: "unat (of_nat c :: u32) = c" "unat (of_nat (Suc c) :: u32) = Suc c" using c(2) by (simp_all only: u32_of_nat)
  have uf: "unat (of_nat f' * 100 :: u32) = f' * 100"
    using u32_of_nat [OF f(2)] by (simp only: of_nat_mult of_nat_numeral)
  have "\<not> window_size opts \<le> c" using c(1) by simp
  then show ?thesis
    unfolding RecordWindow_def Let_def count failures uc if_not_P prod.case c_word f'_word uf window_word_def
    by (simp only: if_False prod.case c_word f'_word uf uc)
qed

text \<open>A call that failed in the transport, and nothing else.\<close>

definition plain_failure :: "CallResult \<Rightarrow> bool" where
  "plain_failure r \<longleftrightarrow> transport_failure r \<and> \<not> local_failure r \<and> \<not> overload r"

definition record_failures :: "CircuitBreakerOptions \<Rightarrow> RetryOptions \<Rightarrow> CallResult \<Rightarrow> u64 \<Rightarrow> nat \<Rightarrow> Breaker" where
  "record_failures opts retry r now k = (Record opts retry (control new_breaker) r now ^^ k) new_breaker"

lemma failures_before_threshold:
  assumes "plain_failure r" "minimum_requests opts \<le> window_size opts" "minimum_requests opts * 100 < 2 ^ 32"
    "k < minimum_requests opts"
  shows "record_failures opts retry r now k = new_breaker\<lparr>window := window_word k k\<rparr>"
  using assms(4)
proof (induction k)
  case 0
  then show ?case by (simp add: record_failures_def new_breaker_def window_word_def)
next
  case (Suc k)
  then have IH: "record_failures opts retry r now k = new_breaker\<lparr>window := window_word k k\<rparr>" by simp
  let ?b = "new_breaker\<lparr>window := window_word k k\<rparr>"
  have "RecordWindow opts r ?b = (False, new_breaker\<lparr>window := window_word (Suc k) (Suc k)\<rparr>)"
    using Suc.prems assms RecordWindow_step [of ?b k k opts "Suc k" r] by (simp add: plain_failure_def)
  moreover have "record_failures opts retry r now (Suc k) = Record opts retry (control new_breaker) r now ?b"
    using IH by (simp add: record_failures_def)
  ultimately show ?case
    using assms(1) by (simp add: Record_def Let_def plain_failure_def) (simp add: new_breaker_def)
qed




definition timeout_result :: CallResult where
  "timeout_result = \<lparr>call_status = CALL_TIMEOUT, rpc_status = RPC_OK, result_request_id = 1,
     response = \<lparr>header = \<lparr>flags = 0, message_type = RESPONSE, request_id = 1\<rparr>, metadata = [], body = []\<rparr>\<rparr>"




end
