(* ===== verification/Connection.thy ===== *)
theory Connection
  imports ServiceTypes FrameStream
begin

text \<open>
  A multiplexed client connection, \<open>transport/multiplexed_connection.cpp\<close>: one reader and one
  writer coroutine share a table of pending calls and a queue of outbound frames with the
  coroutines that issue calls.

  The C++ code runs on one thread; control moves between coroutines only where one resumes
  another or yields. Each definition below is a stretch of code between two such points:
  \<open>CallEncoded\<close> is cut at its yield into \<open>CallEncodedBegin\<close>, \<open>CallTimedOut\<close> and \<open>CallFinish\<close>,
  \<open>CompletePending\<close> ends with the coroutine it resumes as its result, and the loop of
  \<open>CompleteAllPending\<close>, which resumes a caller in every round, is a job with the request ids
  still to be done. The step relation \<open>conn_step\<close> composes them.

  The pool of encode buffers only recycles memory (\<open>AcquireEncodeBuffer\<close> hands out an empty string
  in every case) and is left out; \<open>std::bad_alloc\<close> is not modelled.
\<close>

section \<open>State\<close>

definition kWriteBatchBytes :: nat where "kWriteBatchBytes = 64 * 1024"
definition kReadSize :: nat where "kReadSize = 16 * 1024"

record PendingCall =
  pc_coroutine :: "nat option"
  pc_request_id :: u64
  pc_status :: CallStatus
  pc_response :: Frame
  completed :: bool
  sent :: bool

definition new_pending :: PendingCall where
  "new_pending = \<lparr>pc_coroutine = None, pc_request_id = 0, pc_status = CALL_NOT_CONNECTED,
     pc_response = empty_frame, completed = False, sent = False\<rparr>"

record OutboundFrame =
  of_request_id :: u64
  of_bytes :: string
  of_control :: bool

record ConnectionLimits =
  max_pending_calls :: nat
  max_outbound_bytes :: nat

definition default_connection_limits :: ConnectionLimits where
  "default_connection_limits = \<lparr>max_pending_calls = 4096, max_outbound_bytes = 16 * 1024 * 1024\<rparr>"

record ConnectionMetrics =
  calls_started :: u64
  calls_completed :: u64
  calls_timed_out :: u64
  calls_rejected :: u64
  late_responses :: u64
  connection_failures :: u64

text \<open>
  Where the two fibers are. \<open>W_Waiting\<close> is the writer suspended in \<open>Yield\<close> (coroutine state
  \<open>WAIT_EVENT\<close>), \<open>W_Writing\<close> the writer inside \<open>WriteAll\<close>, \<open>R_Reading off\<close> the reader inside \<open>Read\<close>
  with the buffer prepared at \<open>off\<close>; \<open>W_Threw\<close> is a writer that ended with an exception.
\<close>

datatype WriterPc = W_None | W_Waiting | W_Running | W_Writing | W_Failing | W_Threw
datatype ReaderPc = R_None | R_Loop | R_Reading nat | R_Decoding | R_Failing | R_Threw

record Conn =
  conn_state :: ConnectionState
  conn_fd :: bool
  next_request_id :: u64
  decoder :: FrameDecoder
  reader :: ReaderPc
  writer :: WriterPc
  pending_calls :: "(u64 \<times> PendingCall) list"
  pending_call_pool :: "PendingCall list"
  outbound :: "OutboundFrame list"
  conn_limits :: ConnectionLimits
  metrics :: ConnectionMetrics
  outbound_bytes :: nat

text \<open>The constructor; \<open>None\<close> is the \<open>invalid_argument\<close> it throws on a zero limit.\<close>

definition new_conn :: "ConnectionLimits \<Rightarrow> Conn option" where
  "new_conn lim =
     (if max_pending_calls lim = 0 \<or> max_outbound_bytes lim = 0 then None
      else Some \<lparr>conn_state = DISCONNECTED, conn_fd = False, next_request_id = 1,
        decoder = new_decoder default_limits, reader = R_None, writer = W_None, pending_calls = [],
        pending_call_pool = [], outbound = [], conn_limits = lim, metrics = \<lparr>calls_started = 0,
          calls_completed = 0, calls_timed_out = 0, calls_rejected = 0, late_responses = 0,
          connection_failures = 0\<rparr>, outbound_bytes = 0\<rparr>)"

section \<open>Pending calls, the writer and closing\<close>

definition find_pending :: "u64 \<Rightarrow> Conn \<Rightarrow> PendingCall option" where
  "find_pending rid c = map_of (pending_calls c) rid"

definition map_pending :: "u64 \<Rightarrow> (PendingCall \<Rightarrow> PendingCall) \<Rightarrow> Conn \<Rightarrow> Conn" where
  "map_pending rid f c =
     c\<lparr>pending_calls := map (\<lambda>(k, p). (k, if k = rid then f p else p)) (pending_calls c)\<rparr>"

definition HasUnfinishedPending :: "Conn \<Rightarrow> bool" where
  "HasUnfinishedPending c = list_ex (\<lambda>(k, p). \<not> completed p) (pending_calls c)"

definition unfinished_ids :: "Conn \<Rightarrow> u64 list" where
  "unfinished_ids c = map fst (filter (\<lambda>(k, p). \<not> completed p) (pending_calls c))"

definition AcquirePendingCall :: "Conn \<Rightarrow> PendingCall \<times> Conn" where
  "AcquirePendingCall c =
     (if pending_call_pool c = [] then (new_pending, c)
      else (last (pending_call_pool c), c\<lparr>pending_call_pool := butlast (pending_call_pool c)\<rparr>))"

definition ReleasePendingCall :: "PendingCall \<Rightarrow> Conn \<Rightarrow> Conn" where
  "ReleasePendingCall p c =
     (if length (pending_call_pool c) \<ge> 256 then c
      else c\<lparr>pending_call_pool := pending_call_pool c @
        [p\<lparr>pc_coroutine := None, pc_request_id := 0, pc_status := CALL_NOT_CONNECTED,
           pc_response := empty_frame, completed := False, sent := False\<rparr>]\<rparr>)"

definition NextRequestId :: "Conn \<Rightarrow> u64 \<times> Conn" where
  "NextRequestId c =
     (let rid = next_request_id c;
          nxt = rid + 1
      in (rid, c\<lparr>next_request_id := if nxt = 0 then 1 else nxt\<rparr>))"

definition WakeWriter :: "Conn \<Rightarrow> Conn" where
  "WakeWriter c = (if writer c = W_Waiting then c\<lparr>writer := W_Running\<rparr> else c)"

text \<open>
  \<open>Close\<close> up to and after its \<open>CompleteAllPending\<close>. \<open>MaybeFinishDrain\<close> closes a connection that has
  no unfinished call, so nothing happens between the two halves there.
\<close>

definition CloseBegin :: "Conn \<Rightarrow> Conn" where
  "CloseBegin c = c\<lparr>conn_state := CLOSING, conn_fd := False, outbound := [], outbound_bytes := 0\<rparr>"

definition CloseEnd :: "Conn \<Rightarrow> Conn" where
  "CloseEnd c = WakeWriter (c\<lparr>conn_state := CLOSED\<rparr>)"

definition MaybeFinishDrain :: "Conn \<Rightarrow> Conn" where
  "MaybeFinishDrain c =
     (if conn_state c = CLOSING \<and> outbound c = [] \<and> \<not> HasUnfinishedPending c
      then CloseEnd (CloseBegin c) else c)"

definition Close :: "Conn \<Rightarrow> u64 list option \<times> Conn" where
  "Close c =
     (if conn_state c = CLOSED \<or> conn_state c = DISCONNECTED then (None, c)
      else let c = CloseBegin c in (Some (unfinished_ids c), c))"

definition BeginDrain :: "Conn \<Rightarrow> Conn" where
  "BeginDrain c =
     (if conn_state c \<noteq> READY then c
      else MaybeFinishDrain (WakeWriter (c\<lparr>conn_state := CLOSING\<rparr>)))"

text \<open>\<open>FailConnection\<close> up to its \<open>CompleteAllPending\<close>; the call of \<open>WakeWriter\<close> comes after.\<close>

definition FailBegin :: "Conn \<Rightarrow> u64 list option \<times> Conn" where
  "FailBegin c =
     (if conn_state c = CLOSED \<or> conn_state c = DISCONNECTED then (None, c)
      else let c = c\<lparr>conn_fd := False, outbound := [], outbound_bytes := 0,
                 metrics := (metrics c)\<lparr>connection_failures := connection_failures (metrics c) + 1\<rparr>,
                 conn_state := CLOSED\<rparr>
           in (Some (unfinished_ids c), c))"

text \<open>\<open>CompletePending\<close> of the call found under \<open>rid\<close>; the result is the coroutine it resumes.\<close>

definition CompletePending :: "u64 \<Rightarrow> CallStatus \<Rightarrow> Frame \<Rightarrow> Conn \<Rightarrow> nat option \<times> Conn" where
  "CompletePending rid st resp c =
     (case find_pending rid c of
        None \<Rightarrow> (None, c)
      | Some p \<Rightarrow>
          if completed p then (None, c)
          else let c = map_pending rid (\<lambda>p. p\<lparr>completed := True, pc_status := st\<rparr>) c;
                   c = (if st = CALL_TIMEOUT
                        then c\<lparr>metrics := (metrics c)\<lparr>calls_timed_out := calls_timed_out (metrics c) + 1\<rparr>\<rparr>
                        else if st = CALL_OK
                        then c\<lparr>metrics := (metrics c)\<lparr>calls_completed := calls_completed (metrics c) + 1\<rparr>\<rparr>
                        else c);
                   c = map_pending rid (\<lambda>p. p\<lparr>pc_response := resp\<rparr>) c
               in (pc_coroutine p, MaybeFinishDrain c))"

definition QueueCancel :: "u64 \<Rightarrow> Conn \<Rightarrow> Conn" where
  "QueueCancel rid c =
     (if conn_state c \<noteq> READY \<or> rid = 0 then c
      else case Encode (empty_frame\<lparr>header := empty_header\<lparr>message_type := CANCEL, request_id := rid\<rparr>\<rparr>) of
        Inl _ \<Rightarrow> c
      | Inr encoded \<Rightarrow>
          if length encoded > max_outbound_bytes (conn_limits c) \<or>
             outbound_bytes c > max_outbound_bytes (conn_limits c) - length encoded
          then c
          else WakeWriter (c\<lparr>outbound_bytes := outbound_bytes c + length encoded,
                 outbound := outbound c @ [\<lparr>of_request_id = rid, of_bytes = encoded, of_control = True\<rparr>]\<rparr>))"

section \<open>Connecting\<close>

text \<open>
  The outcomes of the system calls are arguments. \<open>StartFibers\<close> creates and resumes both fibers:
  the reader stops in its first \<open>Read\<close>, the writer in its first \<open>Yield\<close>; if one cannot be
  created the connection, which has no calls yet, is closed.
\<close>

definition StartFibers :: "bool \<Rightarrow> Conn \<Rightarrow> bool \<times> Conn" where
  "StartFibers created c =
     (if created then (True, c\<lparr>reader := R_Loop, writer := W_Running\<rparr>)
      else (False, case Close c of (_, c) \<Rightarrow> CloseEnd c))"

definition Attach :: "bool \<Rightarrow> bool \<Rightarrow> Conn \<Rightarrow> bool \<times> Conn" where
  "Attach configured created c =
     (if conn_state c \<noteq> DISCONNECTED \<or> \<not> configured then (False, c)
      else StartFibers created (c\<lparr>conn_fd := True, conn_state := READY\<rparr>))"

text \<open>\<open>Connect\<close> before and after it waits for the socket; other coroutines run in between.\<close>

definition ConnectBegin :: "bool \<Rightarrow> Conn \<Rightarrow> bool \<times> Conn" where
  "ConnectBegin opened c =
     (if conn_state c \<noteq> DISCONNECTED \<or> \<not> opened then (False, c)
      else (True, c\<lparr>conn_fd := True, conn_state := CONNECTING\<rparr>))"

definition ConnectEnd :: "bool \<Rightarrow> bool \<Rightarrow> Conn \<Rightarrow> bool \<times> Conn" where
  "ConnectEnd connected created c =
     (if \<not> connected then (False, c\<lparr>conn_fd := False, conn_state := DISCONNECTED\<rparr>)
      else StartFibers created (c\<lparr>conn_state := READY\<rparr>))"

section \<open>Calls\<close>

definition local_result :: "CallStatus \<Rightarrow> u64 \<Rightarrow> CallResult" where
  "local_result st rid =
     \<lparr>call_status = st, rpc_status = RPC_OK, result_request_id = rid, response = empty_frame\<rparr>"

definition reject :: "Conn \<Rightarrow> Conn" where
  "reject c = c\<lparr>metrics := (metrics c)\<lparr>calls_rejected := calls_rejected (metrics c) + 1\<rparr>\<rparr>"

text \<open>
  \<open>CallEncoded\<close> up to its yield: \<open>Inl\<close> is a call that returns at once, \<open>Inr rid\<close> one that is
  registered under \<open>rid\<close> and waits.
\<close>

definition CallEncodedBegin :: "nat \<Rightarrow> u64 \<Rightarrow> string \<Rightarrow> Conn \<Rightarrow> (CallResult + u64) \<times> Conn" where
  "CallEncodedBegin caller rid encoded c =
     (if find_pending rid c \<noteq> None then (Inl (local_result CALL_DUPLICATE_REQUEST_ID rid), c)
      else if length encoded > max_outbound_bytes (conn_limits c) \<or>
              outbound_bytes c > max_outbound_bytes (conn_limits c) - length encoded
      then (Inl (local_result CALL_LOCAL_OVERLOADED rid), reject c)
      else let (p, c) = AcquirePendingCall c;
               p = p\<lparr>pc_coroutine := Some caller, pc_request_id := rid\<rparr>;
               c = c\<lparr>pending_calls := pending_calls c @ [(rid, p)]\<rparr>;
               c = c\<lparr>outbound := outbound c @ [\<lparr>of_request_id = rid, of_bytes = encoded, of_control = False\<rparr>],
                     outbound_bytes := outbound_bytes c + length encoded,
                     metrics := (metrics c)\<lparr>calls_started := calls_started (metrics c) + 1\<rparr>\<rparr>
           in (Inr rid, WakeWriter c))"

definition CallFrame :: "nat option \<Rightarrow> Frame \<Rightarrow> u64 \<Rightarrow> Conn \<Rightarrow> (CallResult + u64) \<times> Conn" where
  "CallFrame caller request timeout c =
     (if caller = None \<or> conn_state c \<noteq> READY then (Inl (local_result CALL_NOT_CONNECTED 0), c)
      else if message_type (header request) \<noteq> REQUEST then (Inl (local_result CALL_INVALID_REQUEST 0), c)
      else if timeout = 0 then (Inl (local_result CALL_TIMEOUT 0), c)
      else if length (pending_calls c) \<ge> max_pending_calls (conn_limits c)
      then (Inl (local_result CALL_LOCAL_OVERLOADED 0), reject c)
      else let (request, c) =
                 (if request_id (header request) = 0
                  then case NextRequestId c of (rid, c) \<Rightarrow>
                         (request\<lparr>header := (header request)\<lparr>request_id := rid\<rparr>\<rparr>, c)
                  else (request, c));
               rid = request_id (header request)
           in case Encode request of
                Inl _ \<Rightarrow> (Inl (local_result CALL_ENCODE_ERROR rid), c)
              | Inr encoded \<Rightarrow> CallEncodedBegin (the caller) rid encoded c)"

definition CallMetadata :: "nat option \<Rightarrow> RequestMetadata \<Rightarrow> string \<Rightarrow> u64 \<Rightarrow> Conn \<Rightarrow> (CallResult + u64) \<times> Conn" where
  "CallMetadata caller md bdy timeout c =
     (if caller = None \<or> conn_state c \<noteq> READY then (Inl (local_result CALL_NOT_CONNECTED 0), c)
      else if timeout = 0 then (Inl (local_result CALL_TIMEOUT 0), c)
      else if length (pending_calls c) \<ge> max_pending_calls (conn_limits c)
      then (Inl (local_result CALL_LOCAL_OVERLOADED 0), reject c)
      else case NextRequestId c of (rid, c) \<Rightarrow>
           case EncodeRequest md bdy rid of
             Inl _ \<Rightarrow> (Inl (local_result CALL_ENCODE_ERROR rid), c)
           | Inr encoded \<Rightarrow> CallEncodedBegin (the caller) rid encoded c)"

text \<open>
  \<open>CallEncoded\<close> after its yield. \<open>CallTimedOut\<close> is the branch for a call nobody completed, up to
  the point where \<open>QueueCancel\<close> may switch to the writer; \<open>CallFinish\<close> is the rest.
\<close>

definition CallTimedOut :: "u64 \<Rightarrow> Conn \<Rightarrow> bool \<times> Conn" where
  "CallTimedOut rid c =
     (case find_pending rid c of
        None \<Rightarrow> (False, c)
      | Some p \<Rightarrow>
          if completed p then (False, c)
          else let c = map_pending rid (\<lambda>p. p\<lparr>completed := True, pc_status := CALL_TIMEOUT\<rparr>) c;
                   c = c\<lparr>metrics := (metrics c)\<lparr>calls_timed_out := calls_timed_out (metrics c) + 1\<rparr>\<rparr>
               in (True, if sent p then QueueCancel (pc_request_id p) c else c))"

definition CallFinish :: "u64 \<Rightarrow> bool \<Rightarrow> Conn \<Rightarrow> CallResult \<times> Conn" where
  "CallFinish rid timed_out c =
     (let c = (if timed_out then MaybeFinishDrain c else c);
          p = the (find_pending rid c)
      in (\<lparr>call_status = pc_status p, rpc_status = ResponseStatus (pc_response p), result_request_id = rid,
           response = pc_response p\<rparr>,
          ReleasePendingCall p (c\<lparr>pending_calls := filter (\<lambda>(k, _). k \<noteq> rid) (pending_calls c)\<rparr>)))"

section \<open>The fibers\<close>

text \<open>The inner loop of \<open>WriterLoop\<close>: take frames off the queue while the batch has room.\<close>

fun WriterBatch :: "OutboundFrame list \<Rightarrow> string \<Rightarrow> Conn \<Rightarrow> string \<times> Conn" where
  "WriterBatch [] batch c = (batch, c)"
| "WriterBatch (f # fs) batch c =
     (if batch = [] \<or> length batch + length (of_bytes f) \<le> kWriteBatchBytes
      then let c = c\<lparr>outbound := fs, outbound_bytes := outbound_bytes c - length (of_bytes f)\<rparr>
           in if of_control f then WriterBatch fs (batch @ of_bytes f) c
              else case find_pending (of_request_id f) c of
                     None \<Rightarrow> WriterBatch fs batch c
                   | Some p \<Rightarrow> if completed p then WriterBatch fs batch c
                       else WriterBatch fs (batch @ of_bytes f)
                              (map_pending (of_request_id f) (\<lambda>p. p\<lparr>sent := True\<rparr>) c)
      else (batch, c))"

definition conn_live :: "Conn \<Rightarrow> bool" where
  "conn_live c \<longleftrightarrow> conn_state c = READY \<or> conn_state c = CLOSING"

text \<open>One round of \<open>WriterLoop\<close> up to the point where it yields, starts \<open>WriteAll\<close> or ends.\<close>

definition WriterRound :: "Conn \<Rightarrow> string \<times> Conn" where
  "WriterRound c =
     (if \<not> conn_live c then ([], c\<lparr>writer := W_None\<rparr>)
      else if outbound c = [] then ([], c\<lparr>writer := W_Waiting\<rparr>)
      else case WriterBatch (outbound c) [] c of
             (batch, c) \<Rightarrow> if batch = [] then ([], c) else (batch, c\<lparr>writer := W_Writing\<rparr>))"

definition WriterWritten :: "Conn \<Rightarrow> Conn" where
  "WriterWritten c = (MaybeFinishDrain c)\<lparr>writer := W_Running\<rparr>"

text \<open>The start of a round of \<open>ReaderLoop\<close>; \<open>True\<close> asks for \<open>FailConnection\<close> with a protocol error.\<close>

definition ReaderPrepare :: "Conn \<Rightarrow> bool \<times> Conn" where
  "ReaderPrepare c =
     (if \<not> conn_live c then (False, c\<lparr>reader := R_None\<rparr>)
      else case PrepareWritable kReadSize (decoder c) of
             (None, d) \<Rightarrow> (True, c\<lparr>decoder := d, reader := R_Failing\<rparr>)
           | (Some off, d) \<Rightarrow> (False, c\<lparr>decoder := d, reader := R_Reading off\<rparr>))"

definition ReaderReceived :: "nat \<Rightarrow> string \<Rightarrow> Conn \<Rightarrow> bool \<times> Conn" where
  "ReaderReceived off data c =
     (case CommitWritable (length data) ((decoder c)\<lparr>buffer := memcpy_at off data (buffer (decoder c))\<rparr>) of
        (PROTOCOL_ERROR, d) \<Rightarrow> (True, c\<lparr>decoder := d, reader := R_Failing\<rparr>)
      | (_, d) \<Rightarrow> (False, c\<lparr>decoder := d, reader := R_Decoding\<rparr>))"

text \<open>One frame of the inner loop of \<open>ReaderLoop\<close>: \<open>Frame\<close>, end of input, or an error.\<close>

datatype ReaderEvent = FrameFor u64 Frame | NoFrame | BadFrame

definition ReaderNext :: "Conn \<Rightarrow> ReaderEvent \<times> Conn" where
  "ReaderNext c =
     (case NextView (decoder c) of
        (NEED_MORE, _, d) \<Rightarrow>
          (NoFrame, c\<lparr>decoder := d, reader := if conn_state c = CLOSED \<or> conn_state c = DISCONNECTED
                                          then R_None else R_Loop\<rparr>)
      | (FRAME_READY, Some f, d) \<Rightarrow>
          if message_type (header f) \<noteq> RESPONSE then (BadFrame, c\<lparr>decoder := d, reader := R_Failing\<rparr>)
          else (FrameFor (request_id (header f)) f, c\<lparr>decoder := d\<rparr>)
      | (_, _, d) \<Rightarrow> (BadFrame, c\<lparr>decoder := d, reader := R_Failing\<rparr>))"

definition ReaderDeliver :: "u64 \<Rightarrow> Frame \<Rightarrow> Conn \<Rightarrow> nat option \<times> Conn" where
  "ReaderDeliver rid f c =
     (if find_pending rid c \<noteq> None then CompletePending rid CALL_OK f c
      else (None, c\<lparr>metrics := (metrics c)\<lparr>late_responses := late_responses (metrics c) + 1\<rparr>\<rparr>))"

section \<open>All coroutines together\<close>

text \<open>
  A caller is \<open>Calling\<close> from the registration of its call to its yield (it is running: \<open>WakeWriter\<close>
  may switch to the writer inside this stretch), \<open>Waiting\<close> while it is suspended, \<open>Woken\<close> once it
  is resumed or its timer has made it ready, \<open>Finishing\<close> from the timeout branch to the end.
  The flag says whether the call has a timeout.
\<close>

datatype CallPhase = Calling u64 bool | Waiting u64 bool | Woken u64 | Finishing u64 bool

fun phase_id :: "CallPhase \<Rightarrow> u64" where
  "phase_id (Calling rid _) = rid"
| "phase_id (Waiting rid _) = rid"
| "phase_id (Woken rid) = rid"
| "phase_id (Finishing rid _) = rid"

text \<open>
  \<open>Coroutine::Resume\<close> on a caller: a suspended one runs, one that is ready and queued is left
  alone, and for a running one \<open>Resume\<close> throws \<open>logic_error\<close>, the result \<open>None\<close>.
\<close>

definition resume_caller :: "nat \<Rightarrow> (nat \<Rightarrow> CallPhase option) \<Rightarrow> (nat \<Rightarrow> CallPhase option) option" where
  "resume_caller k ph =
     (case ph k of
        Some (Waiting rid _) \<Rightarrow> Some (ph(k \<mapsto> Woken rid))
      | Some (Woken rid) \<Rightarrow> Some ph
      | _ \<Rightarrow> None)"

datatype Who = ByReader | ByWriter | ByCloser
datatype Job = Job Who CallStatus "u64 list"

fun job_ids :: "Job \<Rightarrow> u64 list" where
  "job_ids (Job _ _ ids) = ids"

record ConnSys =
  conn :: Conn
  phases :: "nat \<Rightarrow> CallPhase option"
  jobs :: "Job list"
  thrown :: bool
  connecting :: bool

text \<open>What follows the loop of \<open>CompleteAllPending\<close>, and what an exception out of it leaves.\<close>

fun job_end :: "Who \<Rightarrow> Conn \<Rightarrow> Conn" where
  "job_end ByReader c = (WakeWriter c)\<lparr>reader := R_None\<rparr>"
| "job_end ByWriter c = (WakeWriter c)\<lparr>writer := W_None\<rparr>"
| "job_end ByCloser c = CloseEnd c"

fun job_threw :: "Who \<Rightarrow> Conn \<Rightarrow> Conn" where
  "job_threw ByReader c = c\<lparr>reader := R_Threw\<rparr>"
| "job_threw ByWriter c = c\<lparr>writer := W_Threw\<rparr>"
| "job_threw ByCloser c = c"

text \<open>A loop over no calls at all does not switch to another coroutine: it ends at once.\<close>

definition start_job :: "Who \<Rightarrow> CallStatus \<Rightarrow> u64 list option \<times> Conn \<Rightarrow> ConnSys \<Rightarrow> ConnSys" where
  "start_job who st r s =
     (case r of
        (None, c) \<Rightarrow> s\<lparr>conn := (case who of ByReader \<Rightarrow> c\<lparr>reader := R_None\<rparr> | ByWriter \<Rightarrow> c\<lparr>writer := W_None\<rparr>
                                   | ByCloser \<Rightarrow> c)\<rparr>
      | (Some ids, c) \<Rightarrow> if ids = [] then s\<lparr>conn := job_end who c\<rparr>
                        else s\<lparr>conn := c, jobs := Job who st ids # jobs s\<rparr>)"

text \<open>The reader runs only from the root of the scheduler: no caller is running meanwhile.\<close>

definition quiet :: "ConnSys \<Rightarrow> bool" where
  "quiet s \<longleftrightarrow> (\<forall>k rid t. phases s k \<noteq> Some (Calling rid t) \<and> phases s k \<noteq> Some (Finishing rid t))"

inductive conn_step :: "ConnSys \<Rightarrow> ConnSys \<Rightarrow> bool" where
  step_attach: "conn_step s (s\<lparr>conn := snd (Attach configured created (conn s))\<rparr>)"
| step_connect: "ConnectBegin opened (conn s) = (b, c) \<Longrightarrow>
    conn_step s (s\<lparr>conn := c, connecting := (connecting s \<or> b)\<rparr>)"
| step_connected: "connecting s \<Longrightarrow> (connected \<longrightarrow> conn_state (conn s) = CONNECTING) \<Longrightarrow>
    conn_step s (s\<lparr>conn := snd (ConnectEnd connected created (conn s)), connecting := False\<rparr>)"
| step_drain: "conn_step s (s\<lparr>conn := BeginDrain (conn s)\<rparr>)"
| step_close: "conn_step s (start_job ByCloser CALL_CONNECTION_CLOSED (Close (conn s)) s)"
| step_rejected: "phases s k = None \<Longrightarrow>
    CallFrame (Some k) req t (conn s) = (Inl r, c) \<or> CallMetadata (Some k) md bdy t (conn s) = (Inl r, c) \<Longrightarrow>
    conn_step s (s\<lparr>conn := c\<rparr>)"
| step_call: "phases s k = None \<Longrightarrow>
    CallFrame (Some k) req t (conn s) = (Inr rid, c) \<or> CallMetadata (Some k) md bdy t (conn s) = (Inr rid, c) \<Longrightarrow>
    conn_step s (s\<lparr>conn := c, phases := (phases s)(k \<mapsto> Calling rid (t \<noteq> kNoTimeout))\<rparr>)"
| step_yield: "phases s k = Some (Calling rid t) \<Longrightarrow>
    conn_step s (s\<lparr>phases := (phases s)(k \<mapsto> Waiting rid t)\<rparr>)"
| step_timer: "phases s k = Some (Waiting rid True) \<Longrightarrow>
    conn_step s (s\<lparr>phases := (phases s)(k \<mapsto> Woken rid)\<rparr>)"
| step_woken: "phases s k = Some (Woken rid) \<Longrightarrow> CallTimedOut rid (conn s) = (b, c) \<Longrightarrow>
    conn_step s (s\<lparr>conn := c, phases := (phases s)(k \<mapsto> Finishing rid b)\<rparr>)"
| step_finish: "phases s k = Some (Finishing rid b) \<Longrightarrow> CallFinish rid b (conn s) = (r, c) \<Longrightarrow>
    conn_step s (s\<lparr>conn := c, phases := (phases s)(k := None)\<rparr>)"
| step_write: "writer (conn s) = W_Running \<Longrightarrow> conn_step s (s\<lparr>conn := snd (WriterRound (conn s))\<rparr>)"
| step_written: "writer (conn s) = W_Writing \<Longrightarrow> conn_step s (s\<lparr>conn := WriterWritten (conn s)\<rparr>)"
| step_write_failed: "writer (conn s) = W_Writing \<Longrightarrow>
    conn_step s (start_job ByWriter CALL_CONNECTION_CLOSED (FailBegin ((conn s)\<lparr>writer := W_Failing\<rparr>)) s)"
| step_prepare: "quiet s \<Longrightarrow> reader (conn s) = R_Loop \<Longrightarrow> ReaderPrepare (conn s) = (False, c) \<Longrightarrow>
    conn_step s (s\<lparr>conn := c\<rparr>)"
| step_prepare_failed: "quiet s \<Longrightarrow> reader (conn s) = R_Loop \<Longrightarrow> ReaderPrepare (conn s) = (True, c) \<Longrightarrow>
    conn_step s (start_job ByReader CALL_PROTOCOL_ERROR (FailBegin c) s)"
| step_received: "quiet s \<Longrightarrow> reader (conn s) = R_Reading off \<Longrightarrow> 0 < length data \<Longrightarrow> length data \<le> kReadSize \<Longrightarrow>
    ReaderReceived off data (conn s) = (False, c) \<Longrightarrow> conn_step s (s\<lparr>conn := c\<rparr>)"
| step_receive_failed: "quiet s \<Longrightarrow> reader (conn s) = R_Reading off \<Longrightarrow> 0 < length data \<Longrightarrow> length data \<le> kReadSize \<Longrightarrow>
    ReaderReceived off data (conn s) = (True, c) \<Longrightarrow>
    conn_step s (start_job ByReader CALL_PROTOCOL_ERROR (FailBegin c) s)"
| step_closed_by_peer: "quiet s \<Longrightarrow> reader (conn s) = R_Reading off \<Longrightarrow>
    conn_step s (start_job ByReader CALL_CONNECTION_CLOSED
      (FailBegin ((conn s)\<lparr>decoder := snd (CommitWritable 0 (decoder (conn s))), reader := R_Failing\<rparr>)) s)"
| step_no_frame: "quiet s \<Longrightarrow> reader (conn s) = R_Decoding \<Longrightarrow> ReaderNext (conn s) = (NoFrame, c) \<Longrightarrow>
    conn_step s (s\<lparr>conn := c\<rparr>)"
| step_bad_frame: "quiet s \<Longrightarrow> reader (conn s) = R_Decoding \<Longrightarrow> ReaderNext (conn s) = (BadFrame, c) \<Longrightarrow>
    conn_step s (start_job ByReader CALL_PROTOCOL_ERROR (FailBegin c) s)"
| step_late_frame: "quiet s \<Longrightarrow> reader (conn s) = R_Decoding \<Longrightarrow> ReaderNext (conn s) = (FrameFor rid f, c) \<Longrightarrow>
    ReaderDeliver rid f c = (None, c') \<Longrightarrow> conn_step s (s\<lparr>conn := c'\<rparr>)"
| step_frame: "quiet s \<Longrightarrow> reader (conn s) = R_Decoding \<Longrightarrow> ReaderNext (conn s) = (FrameFor rid f, c) \<Longrightarrow>
    ReaderDeliver rid f c = (Some k, c') \<Longrightarrow> resume_caller k (phases s) = Some ph \<Longrightarrow>
    conn_step s (s\<lparr>conn := c', phases := ph\<rparr>)"
| step_job_skip: "jobs s = js @ Job who st (rid # ids) # js' \<Longrightarrow>
    CompletePending rid st empty_frame (conn s) = (None, c) \<Longrightarrow>
    conn_step s (s\<lparr>conn := c, jobs := js @ Job who st ids # js'\<rparr>)"
| step_job_resume: "jobs s = js @ Job who st (rid # ids) # js' \<Longrightarrow>
    CompletePending rid st empty_frame (conn s) = (Some k, c) \<Longrightarrow> resume_caller k (phases s) = Some ph \<Longrightarrow>
    conn_step s (s\<lparr>conn := c, phases := ph, jobs := js @ Job who st ids # js'\<rparr>)"
| step_job_throw: "jobs s = js @ Job who st (rid # ids) # js' \<Longrightarrow>
    CompletePending rid st empty_frame (conn s) = (Some k, c) \<Longrightarrow> resume_caller k (phases s) = None \<Longrightarrow>
    conn_step s (s\<lparr>conn := job_threw who c, jobs := js @ js', thrown := True\<rparr>)"
| step_job_end: "jobs s = js @ Job who st [] # js' \<Longrightarrow>
    conn_step s (s\<lparr>conn := job_end who (conn s), jobs := js @ js'\<rparr>)"

definition conn_start :: "ConnectionLimits \<Rightarrow> ConnSys \<Rightarrow> bool" where
  "conn_start lim s \<longleftrightarrow> new_conn lim = Some (conn s) \<and> phases s = (\<lambda>_. None) \<and> jobs s = [] \<and>
     \<not> thrown s \<and> \<not> connecting s"

end
