(* ===== verification/ConnectionInvariant.thy ===== *)
theory ConnectionInvariant
  imports Connection
begin

text \<open>
  The invariant of the client connection under every interleaving of its coroutines. It has two
  parts: \<open>conn_inv\<close> on the table of calls and the outbound queue, and \<open>ctl_inv\<close>, which relates the
  callers, the loops that complete calls and the state of the connection. One lemma per
  operation shows each part preserved; \<open>conn_step_inv\<close> puts them together.
\<close>

section \<open>The table and the queue\<close>

definition pending_ok :: "u64 \<Rightarrow> PendingCall \<Rightarrow> bool" where
  "pending_ok rid p \<longleftrightarrow> pc_request_id p = rid \<and> pc_coroutine p \<noteq> None \<and>
     (completed p \<and> pc_status p = CALL_OK \<longrightarrow>
        request_id (header (pc_response p)) = rid \<and> message_type (header (pc_response p)) = RESPONSE)"

definition queue_size :: "OutboundFrame list \<Rightarrow> nat" where
  "queue_size q = sum_list (map (\<lambda>f. length (of_bytes f)) q)"

lemma queue_size_simps [simp]:
  "queue_size [] = 0" "queue_size (f # q) = length (of_bytes f) + queue_size q"
  "queue_size (q @ r) = queue_size q + queue_size r"
  by (simp_all add: queue_size_def)

definition conn_inv :: "Conn \<Rightarrow> bool" where
  "conn_inv c \<longleftrightarrow>
     outbound_bytes c = queue_size (outbound c) \<and>
     outbound_bytes c \<le> max_outbound_bytes (conn_limits c) \<and>
     distinct (map fst (pending_calls c)) \<and>
     length (pending_calls c) \<le> max_pending_calls (conn_limits c) \<and>
     (\<forall>(rid, p) \<in> set (pending_calls c). pending_ok rid p) \<and>
     (\<forall>p \<in> set (pending_call_pool c). p = new_pending) \<and> length (pending_call_pool c) \<le> 256 \<and>
     (outbound c \<noteq> [] \<longrightarrow> conn_live c \<and> writer c \<noteq> W_Waiting)"

lemma find_pending_set: "find_pending rid c = Some p \<Longrightarrow> (rid, p) \<in> set (pending_calls c)"
  by (simp add: find_pending_def map_of_SomeD)

lemma find_pending_ok: "conn_inv c \<Longrightarrow> find_pending rid c = Some p \<Longrightarrow> pending_ok rid p"
  by (auto simp: conn_inv_def dest: find_pending_set)

lemma map_pending_simps [simp]:
  "outbound (map_pending r f c) = outbound c" "outbound_bytes (map_pending r f c) = outbound_bytes c"
  "conn_state (map_pending r f c) = conn_state c" "writer (map_pending r f c) = writer c"
  "reader (map_pending r f c) = reader c" "metrics (map_pending r f c) = metrics c"
  "conn_limits (map_pending r f c) = conn_limits c" "pending_call_pool (map_pending r f c) = pending_call_pool c"
  "conn_live (map_pending r f c) = conn_live c"
  by (simp_all add: map_pending_def conn_live_def)

lemma map_pending_twice: "map_pending rid f (map_pending rid g c) = map_pending rid (\<lambda>p. f (g p)) c"
  by (auto simp: map_pending_def comp_def split_beta intro!: Conn.equality)

lemma fst_map_pending [simp]: "fst \<circ> (\<lambda>(k, p). (k, if k = rid then f p else p)) = fst"
  by auto

lemma map_pending_inv:
  assumes "conn_inv c" and "\<And>p. find_pending rid c = Some p \<Longrightarrow> pending_ok rid p \<Longrightarrow> pending_ok rid (f p)"
  shows "conn_inv (map_pending rid f c)"
proof -
  have "pending_ok k (if k = rid then f p else p)" if "(k, p) \<in> set (pending_calls c)" for k p
  proof -
    from that assms(1) have "find_pending k c = Some p" "pending_ok k p"
      by (auto simp: find_pending_def conn_inv_def)
    with assms(2) show ?thesis by auto
  qed
  then show ?thesis using assms(1)
    by (auto simp: conn_inv_def map_pending_def conn_live_def)
qed

lemma WakeWriter_simps [simp]:
  "outbound (WakeWriter c) = outbound c" "outbound_bytes (WakeWriter c) = outbound_bytes c"
  "conn_state (WakeWriter c) = conn_state c" "pending_calls (WakeWriter c) = pending_calls c"
  "conn_limits (WakeWriter c) = conn_limits c" "pending_call_pool (WakeWriter c) = pending_call_pool c"
  "writer (WakeWriter c) \<noteq> W_Waiting" "conn_live (WakeWriter c) = conn_live c" "reader (WakeWriter c) = reader c"
  by (simp_all add: WakeWriter_def conn_live_def)

lemma WakeWriter_inv: "conn_inv c \<Longrightarrow> conn_inv (WakeWriter c)"
  by (simp add: conn_inv_def)

lemma CloseBegin_inv: "conn_inv c \<Longrightarrow> conn_inv (CloseBegin c)"
  by (simp add: conn_inv_def CloseBegin_def)

lemma CloseEnd_inv: "conn_inv c \<Longrightarrow> outbound c = [] \<Longrightarrow> conn_inv (CloseEnd c)"
  by (simp add: conn_inv_def CloseEnd_def)

lemma MaybeFinishDrain_inv: "conn_inv c \<Longrightarrow> conn_inv (MaybeFinishDrain c)"
  using CloseBegin_inv [of c] by (auto simp: MaybeFinishDrain_def CloseBegin_def intro!: CloseEnd_inv)

lemma conn_inv_metrics [simp]: "conn_inv (c\<lparr>metrics := m\<rparr>) = conn_inv c"
  by (simp add: conn_inv_def conn_live_def)

lemma conn_inv_reader [simp]: "conn_inv (c\<lparr>reader := r\<rparr>) = conn_inv c" "conn_inv (c\<lparr>decoder := d\<rparr>) = conn_inv c"
  "conn_inv (c\<lparr>conn_fd := b\<rparr>) = conn_inv c" "conn_inv (c\<lparr>next_request_id := n\<rparr>) = conn_inv c"
  by (simp_all add: conn_inv_def conn_live_def)

lemma conn_inv_writer: "conn_inv c \<Longrightarrow> w \<noteq> W_Waiting \<or> outbound c = [] \<Longrightarrow> conn_inv (c\<lparr>writer := w\<rparr>)"
  by (auto simp: conn_inv_def conn_live_def)

lemma conn_inv_state:
  "conn_inv c \<Longrightarrow> st = READY \<or> st = CLOSING \<or> outbound c = [] \<Longrightarrow> conn_inv (c\<lparr>conn_state := st\<rparr>)"
  by (auto simp: conn_inv_def conn_live_def)

lemma map_pending_metrics: "map_pending rid g (c\<lparr>metrics := m\<rparr>) = (map_pending rid g c)\<lparr>metrics := m\<rparr>"
  by (simp add: map_pending_def)

lemma CompletePending_shape:
  assumes "find_pending rid c = Some p" and "\<not> completed p"
  obtains m where "CompletePending rid st f c = (pc_coroutine p, MaybeFinishDrain
    ((map_pending rid (\<lambda>p. p\<lparr>completed := True, pc_status := st, pc_response := f\<rparr>) c)\<lparr>metrics := m\<rparr>))"
proof -
  let ?m = "if st = CALL_TIMEOUT then (metrics c)\<lparr>calls_timed_out := calls_timed_out (metrics c) + 1\<rparr>
    else if st = CALL_OK then (metrics c)\<lparr>calls_completed := calls_completed (metrics c) + 1\<rparr> else metrics c"
  let ?d = "map_pending rid (\<lambda>p. p\<lparr>completed := True, pc_status := st, pc_response := f\<rparr>) c"
  have same: "?d\<lparr>metrics := metrics c\<rparr> = ?d" by (simp add: map_pending_def)
  have "CompletePending rid st f c = (pc_coroutine p, MaybeFinishDrain (?d\<lparr>metrics := ?m\<rparr>))"
    using assms by (simp add: CompletePending_def Let_def map_pending_metrics map_pending_twice same)
  then show ?thesis by (rule that)
qed

lemma CompletePending_none:
  "find_pending rid c = None \<or> (\<exists>p. find_pending rid c = Some p \<and> completed p) \<Longrightarrow>
     CompletePending rid st f c = (None, c)"
  by (auto simp: CompletePending_def)

lemma CompletePending_cases:
  assumes "CompletePending rid st f c = (r, c')"
  obtains (skip) "r = None" "c' = c"
      "find_pending rid c = None \<or> (\<exists>p. find_pending rid c = Some p \<and> completed p)"
    | (completes) p m where "find_pending rid c = Some p" "\<not> completed p" "r = pc_coroutine p"
      "c' = MaybeFinishDrain
        ((map_pending rid (\<lambda>p. p\<lparr>completed := True, pc_status := st, pc_response := f\<rparr>) c)\<lparr>metrics := m\<rparr>)"
proof (cases "\<exists>p. find_pending rid c = Some p \<and> \<not> completed p")
  case True
  then obtain p where p: "find_pending rid c = Some p" "\<not> completed p" by blast
  from CompletePending_shape [OF p, of st f] assms show ?thesis
    by (metis completes p prod.inject)
next
  case False
  then have "find_pending rid c = None \<or> (\<exists>p. find_pending rid c = Some p \<and> completed p)"
    by (cases "find_pending rid c") auto
  with CompletePending_none [OF this, of st f] assms show ?thesis by (auto intro: skip)
qed

lemma CompletePending_inv:
  assumes "conn_inv c" and "CompletePending rid st f c = (r, c')"
    and "st = CALL_OK \<Longrightarrow> request_id (header f) = rid \<and> message_type (header f) = RESPONSE"
  shows "conn_inv c'"
  using assms(2)
proof (cases rule: CompletePending_cases)
  case (completes p m)
  have "conn_inv (map_pending rid (\<lambda>p. p\<lparr>completed := True, pc_status := st, pc_response := f\<rparr>) c)"
    using assms(1,3) by (intro map_pending_inv) (auto simp: pending_ok_def)
  with completes(4) show ?thesis by (auto intro: MaybeFinishDrain_inv)
qed (use assms in simp)

lemma QueueCancel_inv: "conn_inv c \<Longrightarrow> conn_inv (QueueCancel rid c)"
  by (auto simp: QueueCancel_def conn_inv_def conn_live_def split: sum.splits)

lemma AcquirePendingCall_inv:
  assumes "conn_inv c" "AcquirePendingCall c = (p, c')"
  shows "p = new_pending \<and> conn_inv c' \<and> pending_calls c' = pending_calls c \<and> outbound c' = outbound c \<and>
    outbound_bytes c' = outbound_bytes c \<and> conn_limits c' = conn_limits c \<and> conn_state c' = conn_state c \<and>
    metrics c' = metrics c"
proof (cases "pending_call_pool c = []")
  case True
  with assms show ?thesis by (auto simp: AcquirePendingCall_def)
next
  case False
  have "\<forall>p \<in> set (butlast (pending_call_pool c)). p = new_pending" "last (pending_call_pool c) = new_pending"
    using assms(1) False by (auto simp: conn_inv_def dest: in_set_butlastD)
  with False assms show ?thesis by (auto simp: AcquirePendingCall_def conn_inv_def conn_live_def)
qed

lemma ReleasePendingCall_inv: "conn_inv c \<Longrightarrow> conn_inv (ReleasePendingCall p c)"
  by (cases p) (auto simp: ReleasePendingCall_def conn_inv_def conn_live_def new_pending_def)

lemma CallEncodedBegin_inv:
  assumes "conn_inv c" and "conn_live c" and "length (pending_calls c) < max_pending_calls (conn_limits c)"
    and "CallEncodedBegin k rid enc c = (r, c')"
  shows "conn_inv c'"
proof -
  consider "find_pending rid c \<noteq> None"
    | "find_pending rid c = None" "length enc > max_outbound_bytes (conn_limits c) \<or>
              outbound_bytes c > max_outbound_bytes (conn_limits c) - length enc"
    | "find_pending rid c = None" "\<not> (length enc > max_outbound_bytes (conn_limits c) \<or>
              outbound_bytes c > max_outbound_bytes (conn_limits c) - length enc)" by blast
  then show ?thesis
  proof cases
    case 1
    with assms show ?thesis by (auto simp: CallEncodedBegin_def)
  next
    case 2
    with assms show ?thesis by (auto simp: CallEncodedBegin_def reject_def)
  next
    case 3
    obtain p c1 where a: "AcquirePendingCall c = (p, c1)" by fastforce
    note A = AcquirePendingCall_inv [OF assms(1) a]
    let ?p = "new_pending\<lparr>pc_coroutine := Some k, pc_request_id := rid\<rparr>"
    let ?c = "c1\<lparr>pending_calls := pending_calls c1 @ [(rid, ?p)]\<rparr>
      \<lparr>outbound := outbound c1 @ [\<lparr>of_request_id = rid, of_bytes = enc, of_control = False\<rparr>],
       outbound_bytes := outbound_bytes c1 + length enc,
       metrics := (metrics c1)\<lparr>calls_started := calls_started (metrics c1) + 1\<rparr>\<rparr>"
    have c': "c' = WakeWriter ?c"
      using assms(4) 3 a A by (simp add: CallEncodedBegin_def Let_def)
    have "conn_live c1" "rid \<notin> fst ` set (pending_calls c1)"
      using A assms(2) 3(1) by (auto simp: conn_live_def find_pending_def map_of_eq_None_iff)
    moreover have "pending_ok rid ?p" by (simp add: pending_ok_def new_pending_def)
    moreover have "conn_inv c1" "length (pending_calls c1) < max_pending_calls (conn_limits c1)"
      "outbound_bytes c1 + length enc \<le> max_outbound_bytes (conn_limits c1)"
      using A assms(3) 3(2) by (simp_all, arith)
    moreover have "conn_live ?c = conn_live c1" by (simp add: conn_live_def)
    ultimately show ?thesis unfolding c' conn_inv_def by simp
  qed
qed

lemma NextRequestId_frame:
  "NextRequestId c = (rid, c') \<Longrightarrow> c' = c\<lparr>next_request_id := next_request_id c'\<rparr>"
  by (auto simp: NextRequestId_def Let_def)

text \<open>A call that is not turned away before encoding ends in \<open>CallEncodedBegin\<close>, up to the counter.\<close>

lemma CallFrame_cases:
  assumes "CallFrame (Some k) req t c = (r, c')"
  obtains (early) res n where "r = Inl res" "c' = c\<lparr>next_request_id := n\<rparr> \<or> c' = reject c"
    | (encoded) n rid enc where "conn_state c = READY" "length (pending_calls c) < max_pending_calls (conn_limits c)"
      "CallEncodedBegin k rid enc (c\<lparr>next_request_id := n\<rparr>) = (r, c')"
proof -
  consider "conn_state c \<noteq> READY \<or> message_type (header req) \<noteq> REQUEST \<or> t = 0 \<or>
      length (pending_calls c) \<ge> max_pending_calls (conn_limits c)"
    | "conn_state c = READY" "message_type (header req) = REQUEST" "t \<noteq> 0"
      "length (pending_calls c) < max_pending_calls (conn_limits c)" by fastforce
  then show ?thesis
  proof cases
    case 1
    with assms show ?thesis
      by (auto simp: CallFrame_def split: if_splits intro: early [of _ "next_request_id c"])
  next
    case 2
    define q where "q = (if request_id (header req) = 0 then case NextRequestId c of (rid, c) \<Rightarrow>
        (req\<lparr>header := (header req)\<lparr>request_id := rid\<rparr>\<rparr>, c) else (req, c))"
    obtain req' c1 where q: "q = (req', c1)" by fastforce
    obtain n where c1: "c1 = c\<lparr>next_request_id := n\<rparr>"
    proof (cases "request_id (header req) = 0")
      case True
      with q obtain rid where "NextRequestId c = (rid, c1)" by (auto simp: q_def split: prod.splits)
      from NextRequestId_frame [OF this] that show ?thesis by blast
    next
      case False
      with q that [of "next_request_id c"] show ?thesis by (simp add: q_def)
    qed
    have "CallFrame (Some k) req t c = (case Encode req' of
        Inl _ \<Rightarrow> (Inl (local_result CALL_ENCODE_ERROR (request_id (header req'))), c1)
      | Inr enc \<Rightarrow> CallEncodedBegin k (request_id (header req')) enc c1)"
      using 2 q by (simp add: CallFrame_def q_def [symmetric] Let_def split: sum.split)
    with assms c1 show ?thesis
      by (cases "Encode req'") (auto intro: early encoded [OF 2(1,4)])
  qed
qed

lemma CallMetadata_cases:
  assumes "CallMetadata (Some k) md bdy t c = (r, c')"
  obtains (early) res n where "r = Inl res" "c' = c\<lparr>next_request_id := n\<rparr> \<or> c' = reject c"
    | (encoded) n rid enc where "conn_state c = READY" "length (pending_calls c) < max_pending_calls (conn_limits c)"
      "CallEncodedBegin k rid enc (c\<lparr>next_request_id := n\<rparr>) = (r, c')"
proof -
  consider "conn_state c \<noteq> READY \<or> t = 0 \<or> length (pending_calls c) \<ge> max_pending_calls (conn_limits c)"
    | "conn_state c = READY" "t \<noteq> 0" "length (pending_calls c) < max_pending_calls (conn_limits c)" by fastforce
  then show ?thesis
  proof cases
    case 1
    with assms show ?thesis
      by (auto simp: CallMetadata_def split: if_splits intro: early [of _ "next_request_id c"])
  next
    case 2
    obtain rid c1 where q: "NextRequestId c = (rid, c1)" by fastforce
    obtain n where c1: "c1 = c\<lparr>next_request_id := n\<rparr>" using NextRequestId_frame [OF q] by blast
    have "CallMetadata (Some k) md bdy t c = (case EncodeRequest md bdy rid of
        Inl _ \<Rightarrow> (Inl (local_result CALL_ENCODE_ERROR rid), c1)
      | Inr enc \<Rightarrow> CallEncodedBegin k rid enc c1)"
      using 2 q by (simp add: CallMetadata_def split: sum.split)
    with assms c1 show ?thesis
      by (cases "EncodeRequest md bdy rid") (auto intro: early encoded [OF 2(1,3)])
  qed
qed

lemma encoded_inv:
  assumes "conn_inv c" "conn_state c = READY" "length (pending_calls c) < max_pending_calls (conn_limits c)"
    "CallEncodedBegin k rid enc (c\<lparr>next_request_id := n\<rparr>) = (r, c')"
  shows "conn_inv c'"
  using CallEncodedBegin_inv [OF _ _ _ assms(4)] assms(1-3) by (simp add: conn_live_def)

lemma Call_inv:
  assumes "conn_inv c"
    and "CallFrame (Some k) req t c = (r, c') \<or> CallMetadata (Some k) md bdy t c = (r, c')"
  shows "conn_inv c'"
  using assms(2)
proof
  assume "CallFrame (Some k) req t c = (r, c')"
  then show ?thesis
    by (cases rule: CallFrame_cases) (use assms(1) in \<open>auto simp: reject_def intro: encoded_inv\<close>)
next
  assume "CallMetadata (Some k) md bdy t c = (r, c')"
  then show ?thesis
    by (cases rule: CallMetadata_cases) (use assms(1) in \<open>auto simp: reject_def intro: encoded_inv\<close>)
qed

lemma CallTimedOut_inv: "conn_inv c \<Longrightarrow> CallTimedOut rid c = (b, c') \<Longrightarrow> conn_inv c'"
proof (cases "find_pending rid c")
  case (Some p)
  assume c: "conn_inv c" "CallTimedOut rid c = (b, c')"
  have "conn_inv (map_pending rid (\<lambda>p. p\<lparr>completed := True, pc_status := CALL_TIMEOUT\<rparr>) c)"
    using c(1) by (intro map_pending_inv) (auto simp: pending_ok_def)
  then have "conn_inv ((map_pending rid (\<lambda>p. p\<lparr>completed := True, pc_status := CALL_TIMEOUT\<rparr>) c)\<lparr>metrics := m\<rparr>)" for m
    by simp
  with Some c show ?thesis
    by (auto simp: CallTimedOut_def Let_def split: if_splits intro: QueueCancel_inv)
qed (simp add: CallTimedOut_def)

lemma erase_inv: "conn_inv c \<Longrightarrow> conn_inv (c\<lparr>pending_calls := filter P (pending_calls c)\<rparr>)"
proof -
  assume c: "conn_inv c"
  then have "distinct (map fst (filter P (pending_calls c)))"
    by (auto simp: conn_inv_def intro: distinct_map_filter)
  moreover have "length (filter P (pending_calls c)) \<le> max_pending_calls (conn_limits c)"
    using c length_filter_le [of P "pending_calls c"] unfolding conn_inv_def by linarith
  ultimately show ?thesis using c by (auto simp: conn_inv_def conn_live_def)
qed

lemma CallFinish_inv: "conn_inv c \<Longrightarrow> CallFinish rid b c = (r, c') \<Longrightarrow> conn_inv c'"
  by (auto simp: CallFinish_def Let_def intro!: ReleasePendingCall_inv erase_inv MaybeFinishDrain_inv)

lemma WriterBatch_inv:
  assumes "conn_inv c" and "outbound c = fs" and "writer c \<noteq> W_Waiting" and "WriterBatch fs batch c = (batch', c')"
  shows "conn_inv c' \<and> writer c' = writer c"
  using assms
proof (induction fs batch c rule: WriterBatch.induct)
  case (1 batch c)
  then show ?case by auto
next
  case (2 f fs batch c)
  show ?case
  proof (cases "batch = [] \<or> length batch + length (of_bytes f) \<le> kWriteBatchBytes")
    case False
    with 2(5-8) show ?thesis by simp
  next
    case True
    let ?c = "c\<lparr>outbound := fs, outbound_bytes := outbound_bytes c - length (of_bytes f)\<rparr>"
    have c: "conn_inv ?c" using 2(5,6,7) by (auto simp: conn_inv_def conn_live_def)
    have mp: "conn_inv (map_pending rid (\<lambda>p. p\<lparr>sent := True\<rparr>) ?c)" for rid
      by (intro map_pending_inv c) (auto simp: pending_ok_def)
    show ?thesis
    proof (cases "of_control f")
      case True
      with 2(1) [OF \<open>batch = [] \<or> _\<close> refl True c] 2(7,8) \<open>batch = [] \<or> _\<close> show ?thesis by simp
    next
      case ctl: False
      show ?thesis
      proof (cases "find_pending (of_request_id f) ?c")
        case None
        with 2(2) [OF True refl ctl None c] 2(7,8) True ctl show ?thesis by simp
      next
        case (Some p)
        show ?thesis
        proof (cases "completed p")
          case fin: True
          with 2(3) [OF True refl ctl Some fin c] 2(7,8) True ctl Some show ?thesis by simp
        next
          case nd: False
          with 2(4) [OF True refl ctl Some nd mp] 2(7,8) True ctl Some show ?thesis by simp
        qed
      qed
    qed
  qed
qed

lemma WriterRound_inv: "conn_inv c \<Longrightarrow> writer c = W_Running \<Longrightarrow> conn_inv (snd (WriterRound c))"
proof -
  assume c: "conn_inv c" "writer c = W_Running"
  obtain b d where w: "WriterBatch (outbound c) [] c = (b, d)" by fastforce
  from WriterBatch_inv [OF c(1) refl _ w] c have d: "conn_inv d" by simp
  show ?thesis
    using c d w by (auto simp: WriterRound_def intro: conn_inv_writer)
qed

lemma WriterWritten_inv: "conn_inv c \<Longrightarrow> conn_inv (WriterWritten c)"
  by (simp add: WriterWritten_def conn_inv_writer MaybeFinishDrain_inv)

lemma FailBegin_inv: "conn_inv c \<Longrightarrow> FailBegin c = (r, c') \<Longrightarrow> conn_inv c'"
  by (auto simp: FailBegin_def conn_inv_def conn_live_def Let_def split: if_splits)

lemma Close_inv: "conn_inv c \<Longrightarrow> Close c = (r, c') \<Longrightarrow> conn_inv c'"
  by (auto simp: Close_def Let_def intro: CloseBegin_inv split: if_splits)

lemma BeginDrain_inv: "conn_inv c \<Longrightarrow> conn_inv (BeginDrain c)"
  by (simp add: BeginDrain_def MaybeFinishDrain_inv WakeWriter_inv conn_inv_state)

lemma StartFibers_inv: "conn_inv c \<Longrightarrow> conn_state c = READY \<Longrightarrow> conn_inv (snd (StartFibers b c))"
  by (auto simp: StartFibers_def Close_def Let_def CloseBegin_inv conn_inv_writer intro!: CloseEnd_inv)
     (simp add: CloseBegin_def)

section \<open>Callers, jobs and the connection state\<close>

text \<open>
  What the control part of the invariant reads of the table: the id, the waiting coroutine and
  whether the call is completed.
\<close>

type_synonym call_table = "(u64 \<times> nat option \<times> bool) list"

definition core :: "Conn \<Rightarrow> call_table" where
  "core c = map (\<lambda>(rid, p). (rid, pc_coroutine p, completed p)) (pending_calls c)"

definition mark :: "u64 \<Rightarrow> call_table \<Rightarrow> call_table" where
  "mark rid T = map (\<lambda>(r, w, b). (r, w, b \<or> r = rid)) T"

definition caller_ok :: "bool \<Rightarrow> u64 \<Rightarrow> bool \<Rightarrow> CallPhase \<Rightarrow> bool" where
  "caller_ok thr rid b x \<longleftrightarrow> phase_id x = rid \<and> (\<not> b \<longrightarrow> (\<forall>t. x \<noteq> Finishing rid t)) \<and>
     (b \<and> \<not> thr \<longrightarrow> x = Woken rid \<or> (\<exists>t. x = Finishing rid t))"

definition covered :: "call_table \<Rightarrow> Job list \<Rightarrow> bool" where
  "covered T js \<longleftrightarrow> (\<forall>rid w. (rid, w, False) \<in> set T \<longrightarrow> (\<exists>j \<in> set js. rid \<in> set (job_ids j)))"

definition closer_running :: "Job list \<Rightarrow> bool" where
  "closer_running js \<longleftrightarrow> (\<exists>st ids. Job ByCloser st ids \<in> set js)"

definition ctl_inv :: "call_table \<Rightarrow> ConnectionState \<Rightarrow> (nat \<Rightarrow> CallPhase option) \<Rightarrow> Job list \<Rightarrow> bool \<Rightarrow> bool \<Rightarrow> bool" where
  "ctl_inv T st ph js thr cn \<longleftrightarrow>
     distinct (map fst T) \<and>
     (\<forall>k x. ph k = Some x \<longrightarrow> (\<exists>b. (phase_id x, Some k, b) \<in> set T)) \<and>
     (\<forall>rid w b. (rid, w, b) \<in> set T \<longrightarrow> (\<exists>k x. w = Some k \<and> ph k = Some x \<and> caller_ok thr rid b x)) \<and>
     ((st = CLOSED \<or> closer_running js) \<and> \<not> thr \<longrightarrow> covered T js) \<and>
     (\<forall>w s i. Job w s i \<in> set js \<longrightarrow> st = CLOSED \<or> (w = ByCloser \<and> st = CLOSING)) \<and>
     (st = DISCONNECTED \<or> st = CONNECTING \<or> cn \<longrightarrow> T = [] \<and> js = []) \<and>
     (cn \<longrightarrow> st = CONNECTING \<or> st = CLOSED) \<and> (st = CONNECTING \<longrightarrow> cn)"

lemma ctl_invD:
  assumes "ctl_inv T st ph js thr cn"
  shows "distinct (map fst T)"
    "ph k = Some x \<Longrightarrow> \<exists>b. (phase_id x, Some k, b) \<in> set T"
    "(rid, w, b) \<in> set T \<Longrightarrow> \<exists>k x. w = Some k \<and> ph k = Some x \<and> caller_ok thr rid b x"
    "st = CLOSED \<or> closer_running js \<Longrightarrow> \<not> thr \<Longrightarrow> covered T js"
    "Job w' s i \<in> set js \<Longrightarrow> st = CLOSED \<or> (w' = ByCloser \<and> st = CLOSING)"
    "st = DISCONNECTED \<or> st = CONNECTING \<or> cn \<Longrightarrow> T = [] \<and> js = []"
    "cn \<Longrightarrow> st = CONNECTING \<or> st = CLOSED" "st = CONNECTING \<Longrightarrow> cn"
  using assms unfolding ctl_inv_def by blast+

lemma ctl_invI:
  assumes "distinct (map fst T)" "\<And>k x. ph k = Some x \<Longrightarrow> \<exists>b. (phase_id x, Some k, b) \<in> set T"
    "\<And>rid w b. (rid, w, b) \<in> set T \<Longrightarrow> \<exists>k x. w = Some k \<and> ph k = Some x \<and> caller_ok thr rid b x"
    "st = CLOSED \<or> closer_running js \<Longrightarrow> \<not> thr \<Longrightarrow> covered T js"
    "\<And>w' s i. Job w' s i \<in> set js \<Longrightarrow> st = CLOSED \<or> (w' = ByCloser \<and> st = CLOSING)"
    "st = DISCONNECTED \<or> st = CONNECTING \<or> cn \<Longrightarrow> T = [] \<and> js = []"
    "cn \<Longrightarrow> st = CONNECTING \<or> st = CLOSED" "st = CONNECTING \<Longrightarrow> cn"
  shows "ctl_inv T st ph js thr cn"
  using assms unfolding ctl_inv_def by blast

lemma mark_simps [simp]: "map fst (mark rid T) = map fst T" "mark rid T = [] \<longleftrightarrow> T = []"
  by (auto simp: mark_def)

lemma in_mark: "(r, w, b) \<in> set (mark rid T) \<longleftrightarrow> (\<exists>b'. (r, w, b') \<in> set T \<and> b = (b' \<or> r = rid))"
  by (force simp: mark_def)

lemma in_mark_False: "(r, w, False) \<in> set (mark rid T) \<longleftrightarrow> (r, w, False) \<in> set T \<and> r \<noteq> rid"
  by (auto simp: in_mark)

lemma core_inject: "(r, w, b) \<in> set T \<Longrightarrow> (r, w', b') \<in> set T \<Longrightarrow> distinct (map fst T) \<Longrightarrow> w = w' \<and> b = b'"
  by (metis eq_key_imp_eq_value prod.inject)

lemma covered_mark: "covered T js \<Longrightarrow> covered (mark rid T) js"
  unfolding covered_def in_mark_False by blast

lemma covered_done:
  assumes "covered T (js @ Job who st (rid # ids) # js')"
  shows "covered (mark rid T) (js @ Job who st ids # js')"
  unfolding covered_def
proof (intro allI impI)
  fix r w assume "(r, w, False) \<in> set (mark rid T)"
  then have "(r, w, False) \<in> set T" "r \<noteq> rid" by (auto simp: in_mark)
  with assms obtain j where "j \<in> set (js @ Job who st (rid # ids) # js')" "r \<in> set (job_ids j)"
    unfolding covered_def by blast
  with \<open>r \<noteq> rid\<close> show "\<exists>j \<in> set (js @ Job who st ids # js'). r \<in> set (job_ids j)" by auto
qed

lemma closer_running_job: "closer_running (js @ Job who st i # js') \<longleftrightarrow> closer_running (js @ js') \<or> who = ByCloser"
  by (auto simp: closer_running_def)

lemma ctl_phase:
  assumes I: "ctl_inv T st ph js thr cn" and k: "ph k = Some x" and "phase_id y = phase_id x"
    and "\<And>b. caller_ok thr (phase_id x) b x \<Longrightarrow> caller_ok thr (phase_id x) b y"
  shows "ctl_inv T st (ph(k \<mapsto> y)) js thr cn"
proof -
  have "\<exists>b. (phase_id x', Some k', b) \<in> set T" if "(ph(k \<mapsto> y)) k' = Some x'" for k' x'
    using that ctl_invD(2) [OF I, of k'] ctl_invD(2) [OF I k] assms(3) by (auto split: if_splits)
  moreover have "\<exists>k' x'. w = Some k' \<and> (ph(k \<mapsto> y)) k' = Some x' \<and> caller_ok thr rid b x'"
    if "(rid, w, b) \<in> set T" for rid w b
  proof -
    from ctl_invD(3) [OF I that] obtain k' x' where k': "w = Some k'" "ph k' = Some x'" "caller_ok thr rid b x'"
      by blast
    show ?thesis
    proof (cases "k' = k")
      case True
      with k' k have "x' = x" "rid = phase_id x" by (simp_all add: caller_ok_def)
      with k' True assms(4) show ?thesis by auto
    next
      case False
      with k' show ?thesis by auto
    qed
  qed
  ultimately show ?thesis using I unfolding ctl_inv_def by blast
qed

text \<open>Completing a call whose caller can be resumed.\<close>

lemma ctl_complete:
  assumes I: "ctl_inv T st ph js thr cn" and e: "(rid, Some k, False) \<in> set T"
    and r: "resume_caller k ph = Some ph'"
  shows "ctl_inv (mark rid T) st ph' js thr cn"
proof -
  obtain x where x: "ph k = Some x" "caller_ok thr rid False x" using ctl_invD(3) [OF I e] by auto
  have pid: "phase_id x = rid" using x(2) by (simp add: caller_ok_def)
  have ph': "ph' = ph(k \<mapsto> Woken rid)"
    using r x pid by (cases x) (auto simp: resume_caller_def)
  have "\<exists>b. (phase_id x', Some k', b) \<in> set (mark rid T)" if "ph' k' = Some x'" for k' x'
  proof (cases "k' = k")
    case True
    with that ph' e show ?thesis by (auto simp: in_mark)
  next
    case False
    with that ph' ctl_invD(2) [OF I, of k' x'] show ?thesis by (auto simp: in_mark)
  qed
  moreover have "\<exists>k' x'. w = Some k' \<and> ph' k' = Some x' \<and> caller_ok thr r b x'"
    if "(r, w, b) \<in> set (mark rid T)" for r w b
  proof -
    from that obtain b' where b': "(r, w, b') \<in> set T" "b = (b' \<or> r = rid)" by (auto simp: in_mark)
    show ?thesis
    proof (cases "r = rid")
      case True
      with b' core_inject [OF e _ ctl_invD(1) [OF I]] have "w = Some k" by blast
      with True b'(2) ph' show ?thesis by (auto simp: caller_ok_def)
    next
      case False
      from ctl_invD(3) [OF I b'(1)] obtain k' x' where k': "w = Some k'" "ph k' = Some x'" "caller_ok thr r b' x'"
        by blast
      with False x pid have "k' \<noteq> k" by (auto simp: caller_ok_def)
      with k' ph' False b'(2) show ?thesis by auto
    qed
  qed
  moreover have "(st = CLOSED \<or> closer_running js) \<and> \<not> thr \<longrightarrow> covered (mark rid T) js"
    using ctl_invD(4) [OF I] covered_mark by blast
  ultimately show ?thesis using I unfolding ctl_inv_def by auto
qed

text \<open>Marking a call completed while its caller runs the rest of it, or an exception is on its way.\<close>

lemma ctl_mark:
  assumes I: "ctl_inv T st ph js thr cn" and e: "(rid, Some k, b0) \<in> set T" and p: "ph k = Some x"
    and "phase_id y = rid" and "caller_ok thr' rid True y" and "thr \<longrightarrow> thr'"
  shows "ctl_inv (mark rid T) st (ph(k \<mapsto> y)) js thr' cn"
proof -
  obtain x' where x: "ph k = Some x'" "caller_ok thr rid b0 x'" using ctl_invD(3) [OF I e] by auto
  with p have pid: "phase_id x = rid" by (simp add: caller_ok_def)
  have "\<exists>b. (phase_id x', Some k', b) \<in> set (mark rid T)" if "(ph(k \<mapsto> y)) k' = Some x'" for k' x'
    using that ctl_invD(2) [OF I, of k' x'] e assms(4) by (cases "k' = k") (auto simp: in_mark)
  moreover have "\<exists>k' x'. w = Some k' \<and> (ph(k \<mapsto> y)) k' = Some x' \<and> caller_ok thr' r b x'"
    if "(r, w, b) \<in> set (mark rid T)" for r w b
  proof -
    from that obtain b' where b': "(r, w, b') \<in> set T" "b = (b' \<or> r = rid)" by (auto simp: in_mark)
    show ?thesis
    proof (cases "r = rid")
      case True
      with b' core_inject [OF e _ ctl_invD(1) [OF I]] have "w = Some k" by blast
      with True b'(2) assms(5) show ?thesis by auto
    next
      case False
      from ctl_invD(3) [OF I b'(1)] obtain k' x' where k': "w = Some k'" "ph k' = Some x'" "caller_ok thr r b' x'"
        by blast
      with False p pid have "k' \<noteq> k" by (auto simp: caller_ok_def)
      with k' False b'(2) assms(6) show ?thesis by (auto simp: caller_ok_def)
    qed
  qed
  moreover have "(st = CLOSED \<or> closer_running js) \<and> \<not> thr' \<longrightarrow> covered (mark rid T) js"
    using ctl_invD(4) [OF I] covered_mark assms(6) by blast
  ultimately show ?thesis using I unfolding ctl_inv_def by auto
qed

lemma ctl_jobs:
  assumes I: "ctl_inv T st ph js thr cn" and "js = [] \<longrightarrow> js' = []"
    and J: "\<And>w s i. Job w s i \<in> set js' \<Longrightarrow> \<exists>s' i'. Job w s' i' \<in> set js"
    and C: "covered T js \<Longrightarrow> \<not> thr \<Longrightarrow> covered T js'"
  shows "ctl_inv T st ph js' thr cn"
proof (rule ctl_invI)
  assume "st = CLOSED \<or> closer_running js'" "\<not> thr"
  moreover have "closer_running js' \<Longrightarrow> closer_running js" using J unfolding closer_running_def by blast
  ultimately show "covered T js'" using ctl_invD(4) [OF I] C by blast
next
  fix w s i assume "Job w s i \<in> set js'"
  then show "st = CLOSED \<or> w = ByCloser \<and> st = CLOSING" using J ctl_invD(5) [OF I] by blast
next
  assume "st = DISCONNECTED \<or> st = CONNECTING \<or> cn"
  then show "T = [] \<and> js' = []" using ctl_invD(6) [OF I] assms(2) by blast
qed (use ctl_invD(1,2,3,7,8) [OF I] in blast)+

lemma ctl_closed:
  assumes I: "ctl_inv T st ph js thr cn" and "\<not> thr \<Longrightarrow> covered T js"
  shows "ctl_inv T CLOSED ph js thr cn"
  by (rule ctl_invI) (use ctl_invD(1,2,3,6) [OF I] assms(2) in auto)

lemma ctl_closing:
  assumes I: "ctl_inv T st ph js thr cn" and "st = READY"
  shows "ctl_inv T CLOSING ph js thr cn"
proof (rule ctl_invI)
  show "\<And>w s i. Job w s i \<in> set js \<Longrightarrow> CLOSING = CLOSED \<or> w = ByCloser \<and> CLOSING = CLOSING"
    using ctl_invD(5) [OF I] assms(2) by auto
qed (use ctl_invD [OF I] assms(2) in \<open>auto simp: closer_running_def\<close>)

text \<open>A loop over all unfinished calls starts; \<open>who\<close> fails the connection or closes it.\<close>

lemma ctl_start:
  assumes I: "ctl_inv T st ph js thr cn" and "st \<noteq> DISCONNECTED" and "ids \<noteq> []"
    and u: "\<And>rid w. (rid, w, False) \<in> set T \<Longrightarrow> rid \<in> set ids" and e: "T \<noteq> []"
    and "st' = CLOSED \<or> who = ByCloser \<and> st' = CLOSING" and "st = CLOSED \<Longrightarrow> st' = CLOSED"
    and "st' = CLOSED \<or> (\<forall>w s i. Job w s i \<in> set js \<longrightarrow> st \<noteq> CLOSED)"
  shows "ctl_inv T st' ph (Job who s ids # js) thr cn"
proof (rule ctl_invI)
  show "covered T (Job who s ids # js)" using u by (auto simp: covered_def)
next
  fix w s' i assume "Job w s' i \<in> set (Job who s ids # js)"
  then show "st' = CLOSED \<or> w = ByCloser \<and> st' = CLOSING" using ctl_invD(5) [OF I, of w s' i] assms(6,8) by auto
next
  assume a: "st' = DISCONNECTED \<or> st' = CONNECTING \<or> cn"
  with ctl_invD(6) [OF I] e assms(6) show "T = [] \<and> Job who s ids # js = []" by auto
next
  show "cn \<Longrightarrow> st' = CONNECTING \<or> st' = CLOSED" using ctl_invD(6) [OF I] e by auto
  show "st' = CONNECTING \<Longrightarrow> cn" using assms(6) by auto
qed (use ctl_invD(1,2,3) [OF I] in blast)+

lemma ctl_call:
  assumes I: "ctl_inv T READY ph js thr cn" and "ph k = None" and "rid \<notin> fst ` set T"
  shows "ctl_inv (T @ [(rid, Some k, False)]) READY (ph(k \<mapsto> Calling rid t)) js thr cn"
proof (rule ctl_invI)
  show "distinct (map fst (T @ [(rid, Some k, False)]))" using ctl_invD(1) [OF I] assms(3) by auto
next
  fix k' x assume "(ph(k \<mapsto> Calling rid t)) k' = Some x"
  then show "\<exists>b. (phase_id x, Some k', b) \<in> set (T @ [(rid, Some k, False)])"
    using ctl_invD(2) [OF I, of k' x] by (cases "k' = k") auto
next
  fix r w b assume "(r, w, b) \<in> set (T @ [(rid, Some k, False)])"
  then consider "(r, w, b) = (rid, Some k, False)" | "(r, w, b) \<in> set T" by auto
  then show "\<exists>k' x. w = Some k' \<and> (ph(k \<mapsto> Calling rid t)) k' = Some x \<and> caller_ok thr r b x"
  proof cases
    case 2
    from ctl_invD(3) [OF I this] obtain k' x where "w = Some k'" "ph k' = Some x" "caller_ok thr r b x" by blast
    with assms(2) show ?thesis by (intro exI [of _ k'] exI [of _ x]) auto
  qed (auto simp: caller_ok_def)
next
  have "\<not> closer_running js" using ctl_invD(5) [OF I] by (auto simp: closer_running_def)
  then show "READY = CLOSED \<or> closer_running js \<Longrightarrow> \<not> thr \<Longrightarrow> covered (T @ [(rid, Some k, False)]) js" by simp
qed (use ctl_invD(5-8) [OF I] in auto)

lemma ctl_finish:
  assumes I: "ctl_inv T st ph js thr cn" and x: "ph k = Some x" "phase_id x = rid"
  shows "ctl_inv (filter (\<lambda>(r, _). r \<noteq> rid) T) st (ph(k := None)) js thr cn"
proof (rule ctl_invI)
  show "distinct (map fst (filter (\<lambda>(r, _). r \<noteq> rid) T))"
    using ctl_invD(1) [OF I] by (rule distinct_map_filter)
next
  fix k' x' assume a: "(ph(k := None)) k' = Some x'"
  then have "k' \<noteq> k" "ph k' = Some x'" by (auto split: if_splits)
  from ctl_invD(2) [OF I this(2)] obtain b where b: "(phase_id x', Some k', b) \<in> set T" by blast
  from ctl_invD(2) [OF I x(1)] x(2) obtain b' where b': "(rid, Some k, b') \<in> set T" by blast
  have "phase_id x' \<noteq> rid" using core_inject [OF _ b' ctl_invD(1) [OF I]] b \<open>k' \<noteq> k\<close> by blast
  with b show "\<exists>b. (phase_id x', Some k', b) \<in> set (filter (\<lambda>(r, _). r \<noteq> rid) T)" by auto
next
  fix r w b assume "(r, w, b) \<in> set (filter (\<lambda>(r, _). r \<noteq> rid) T)"
  then have r: "(r, w, b) \<in> set T" "r \<noteq> rid" by auto
  from ctl_invD(3) [OF I r(1)] obtain k' x' where k': "w = Some k'" "ph k' = Some x'" "caller_ok thr r b x'" by blast
  with r x have "k' \<noteq> k" by (auto simp: caller_ok_def)
  with k' show "\<exists>k' x'. w = Some k' \<and> (ph(k := None)) k' = Some x' \<and> caller_ok thr r b x'" by auto
next
  assume "st = CLOSED \<or> closer_running js" "\<not> thr"
  with ctl_invD(4) [OF I] show "covered (filter (\<lambda>(r, _). r \<noteq> rid) T) js" unfolding covered_def by auto
next
  assume "st = DISCONNECTED \<or> st = CONNECTING \<or> cn"
  with ctl_invD(6) [OF I] show "filter (\<lambda>(r, _). r \<noteq> rid) T = [] \<and> js = []" by auto
qed (use ctl_invD(5,7,8) [OF I] in blast)+

lemma core_map_pending:
  assumes "\<And>p. pc_coroutine (f p) = pc_coroutine p"
  shows "(\<And>p. completed (f p) = completed p) \<Longrightarrow> core (map_pending rid f c) = core c"
    "(\<And>p. completed (f p)) \<Longrightarrow> core (map_pending rid f c) = mark rid (core c)"
  using assms by (auto simp: core_def map_pending_def mark_def split: if_splits)

lemma core_update [simp]:
  "core (c\<lparr>conn_state := st\<rparr>) = core c" "core (c\<lparr>metrics := m\<rparr>) = core c" "core (c\<lparr>writer := w\<rparr>) = core c"
  "core (c\<lparr>reader := r\<rparr>) = core c" "core (c\<lparr>decoder := d\<rparr>) = core c" "core (c\<lparr>conn_fd := b\<rparr>) = core c"
  "core (c\<lparr>outbound := q\<rparr>) = core c" "core (c\<lparr>outbound_bytes := n\<rparr>) = core c"
  "core (c\<lparr>next_request_id := i\<rparr>) = core c" "core (c\<lparr>pending_call_pool := pool\<rparr>) = core c"
  by (simp_all add: core_def)

lemma core_WakeWriter [simp]: "core (WakeWriter c) = core c"
  by (simp add: WakeWriter_def)

lemma core_CloseBegin [simp]: "core (CloseBegin c) = core c" "conn_state (CloseBegin c) = CLOSING"
  "outbound (CloseBegin c) = []"
  by (simp_all add: CloseBegin_def)

lemma core_CloseEnd [simp]: "core (CloseEnd c) = core c" "conn_state (CloseEnd c) = CLOSED"
  "outbound (CloseEnd c) = outbound c"
  by (simp_all add: CloseEnd_def)

lemma core_MaybeFinishDrain [simp]: "core (MaybeFinishDrain c) = core c"
  "outbound (MaybeFinishDrain c) = outbound c"
  by (simp_all add: MaybeFinishDrain_def)

lemma no_unfinished: "\<not> HasUnfinishedPending c \<longleftrightarrow> (\<forall>rid w. (rid, w, False) \<notin> set (core c))"
  by (force simp: HasUnfinishedPending_def list_ex_iff core_def)

lemma ctl_drain:
  assumes "ctl_inv (core c) (conn_state c) ph js thr cn"
  shows "ctl_inv (core (MaybeFinishDrain c)) (conn_state (MaybeFinishDrain c)) ph js thr cn"
proof (cases "conn_state c = CLOSING \<and> outbound c = [] \<and> \<not> HasUnfinishedPending c")
  case True
  then have "covered (core c) js" by (simp add: covered_def no_unfinished)
  with ctl_closed [OF assms] True show ?thesis by (simp add: MaybeFinishDrain_def)
next
  case False
  then have "MaybeFinishDrain c = c" by (auto simp: MaybeFinishDrain_def)
  with assms show ?thesis by simp
qed

lemma core_QueueCancel [simp]: "core (QueueCancel rid c) = core c" "conn_state (QueueCancel rid c) = conn_state c"
  by (simp_all add: QueueCancel_def split: sum.split)

lemma core_release [simp]: "core (ReleasePendingCall p c) = core c" "conn_state (ReleasePendingCall p c) = conn_state c"
  "outbound (ReleasePendingCall p c) = outbound c"
  by (simp_all add: ReleasePendingCall_def)

lemma core_WriterBatch:
  "WriterBatch fs batch c = (b, c') \<Longrightarrow> core c' = core c \<and> conn_state c' = conn_state c \<and> conn_limits c' = conn_limits c \<and>
    (outbound c = fs \<longrightarrow> (\<exists>pre. fs = pre @ outbound c'))"
proof (induction fs batch c rule: WriterBatch.induct)
  case (1 batch c)
  then show ?case by auto
next
  case (2 f fs batch c)
  have cm: "core (map_pending rid (\<lambda>p. p\<lparr>sent := True\<rparr>) d) = core d" for rid d
    by (rule core_map_pending) simp_all
  show ?case
  proof (cases "batch = [] \<or> length batch + length (of_bytes f) \<le> kWriteBatchBytes")
    case False
    with 2(5) show ?thesis by auto
  next
    case True
    let ?c = "c\<lparr>outbound := fs, outbound_bytes := outbound_bytes c - length (of_bytes f)\<rparr>"
    have step: "core c' = core c \<and> conn_state c' = conn_state c \<and> conn_limits c' = conn_limits c \<and>
        (outbound c = f # fs \<longrightarrow> (\<exists>pre. f # fs = pre @ outbound c'))"
      if "core c' = core ?c \<and> conn_state c' = conn_state ?c \<and> conn_limits c' = conn_limits ?c \<and>
        (outbound ?c = fs \<longrightarrow> (\<exists>pre. fs = pre @ outbound c'))"
      using that by (auto intro: exI [of _ "f # pre" for pre])
    show ?thesis
    proof (cases "of_control f")
      case ctl: True
      with 2(1) [OF True refl ctl] 2(5) True show ?thesis by (intro step) simp
    next
      case ctl: False
      show ?thesis
      proof (cases "find_pending (of_request_id f) ?c")
        case None
        with 2(2) [OF True refl ctl None] 2(5) True ctl show ?thesis by (intro step) simp
      next
        case (Some p)
        show ?thesis
        proof (cases "completed p")
          case fin: True
          with 2(3) [OF True refl ctl Some fin] 2(5) True ctl Some show ?thesis by (intro step) simp
        next
          case nd: False
          with 2(4) [OF True refl ctl Some nd] 2(5) True ctl Some cm show ?thesis by (intro step) simp
        qed
      qed
    qed
  qed
qed

lemma WriterRound_core:
  "core (snd (WriterRound c)) = core c" "conn_state (snd (WriterRound c)) = conn_state c"
  "conn_limits (snd (WriterRound c)) = conn_limits c" "outbound c = [] \<Longrightarrow> outbound (snd (WriterRound c)) = []"
proof -
  obtain b d where w: "WriterBatch (outbound c) [] c = (b, d)" by fastforce
  show "core (snd (WriterRound c)) = core c" "conn_state (snd (WriterRound c)) = conn_state c"
    "conn_limits (snd (WriterRound c)) = conn_limits c" "outbound c = [] \<Longrightarrow> outbound (snd (WriterRound c)) = []"
    using core_WriterBatch [OF w] w by (simp_all add: WriterRound_def)
qed

lemma CallEncodedBegin_core:
  assumes "CallEncodedBegin k rid enc c = (r, c')" "conn_inv c"
  shows "conn_state c' = conn_state c \<and> conn_limits c' = conn_limits c \<and> (case r of Inl _ \<Rightarrow> core c' = core c \<and> outbound c' = outbound c
    | Inr i \<Rightarrow> i = rid \<and> core c' = core c @ [(rid, Some k, False)] \<and> rid \<notin> fst ` set (core c))"
proof -
  obtain p c1 where a: "AcquirePendingCall c = (p, c1)" by fastforce
  note A = AcquirePendingCall_inv [OF assms(2) a]
  have "core c1 = core c" using A by (simp add: core_def)
  moreover have "rid \<notin> fst ` set (core c)" if "find_pending rid c = None"
    using that by (force simp: find_pending_def map_of_eq_None_iff core_def)
  ultimately show ?thesis
    using assms(1) a A
    by (auto simp: CallEncodedBegin_def Let_def reject_def new_pending_def core_def split: if_splits)
qed

lemma Call_core:
  assumes "conn_inv c"
    and "CallFrame (Some k) req t c = (r, c') \<or> CallMetadata (Some k) md bdy t c = (r, c')"
  shows "conn_state c' = conn_state c \<and> conn_limits c' = conn_limits c \<and> (case r of Inl _ \<Rightarrow> core c' = core c \<and> outbound c' = outbound c
    | Inr rid \<Rightarrow> conn_state c = READY \<and> core c' = core c @ [(rid, Some k, False)] \<and> rid \<notin> fst ` set (core c))"
proof -
  have enc: ?thesis if "conn_state c = READY" "CallEncodedBegin k rid enc (c\<lparr>next_request_id := n\<rparr>) = (r, c')"
    for rid enc n
    using CallEncodedBegin_core [OF that(2)] assms(1) that(1) by (cases r) simp_all
  from assms(2) show ?thesis
  proof
    assume "CallFrame (Some k) req t c = (r, c')"
    then show ?thesis
      by (cases rule: CallFrame_cases) (use enc in \<open>auto simp: reject_def\<close>)
  next
    assume "CallMetadata (Some k) md bdy t c = (r, c')"
    then show ?thesis
      by (cases rule: CallMetadata_cases) (use enc in \<open>auto simp: reject_def\<close>)
  qed
qed

section \<open>Every step keeps the invariant\<close>

definition ctl :: "ConnSys \<Rightarrow> bool" where
  "ctl s \<longleftrightarrow> ctl_inv (core (conn s)) (conn_state (conn s)) (phases s) (jobs s) (thrown s) (connecting s)"

definition sys_inv :: "ConnSys \<Rightarrow> bool" where
  "sys_inv s \<longleftrightarrow> conn_inv (conn s) \<and> ctl s \<and> (closer_running (jobs s) \<longrightarrow> outbound (conn s) = [])"

lemma unfinished_ids_core: "set (unfinished_ids c) = {rid. \<exists>w. (rid, w, False) \<in> set (core c)}"
  by (force simp: unfinished_ids_def core_def)

lemma unfinished_ids_Nil: "unfinished_ids c = [] \<longleftrightarrow> (\<forall>rid w. (rid, w, False) \<notin> set (core c))"
  using unfinished_ids_core [of c] by (auto simp flip: set_empty)

lemma unfinished_ids_update [simp]:
  "unfinished_ids (CloseBegin c) = unfinished_ids c"
  by (simp_all add: unfinished_ids_def CloseBegin_def)

lemma sys_inv_conn:
  assumes "sys_inv s" and "conn_inv c" and "core c = core (conn s)" and "conn_state c = conn_state (conn s)"
    and "conn_state c \<noteq> READY \<Longrightarrow> outbound (conn s) = [] \<Longrightarrow> outbound c = []"
  shows "sys_inv (s\<lparr>conn := c\<rparr>)"
proof -
  have "closer_running (jobs s) \<Longrightarrow> conn_state (conn s) \<noteq> READY"
    using assms(1) ctl_invD(5) unfolding sys_inv_def ctl_def closer_running_def by fastforce
  with assms show ?thesis by (auto simp: sys_inv_def ctl_def)
qed

lemma start_fail_inv:
  assumes s: "sys_inv s" and f: "FailBegin c = (r, c')" and c: "conn_inv c" "core c = core (conn s)"
    "conn_state c = conn_state (conn s)" "outbound c = outbound (conn s)" and w: "who = ByReader \<or> who = ByWriter"
  shows "sys_inv (start_job who st (r, c') s)"
proof (cases "conn_state c = CLOSED \<or> conn_state c = DISCONNECTED")
  case True
  with f have r: "r = None" "c' = c" by (auto simp: FailBegin_def)
  have "sys_inv (s\<lparr>conn := c'\<lparr>reader := R_None\<rparr>\<rparr>)" "sys_inv (s\<lparr>conn := c'\<lparr>writer := W_None\<rparr>\<rparr>)"
    by (rule sys_inv_conn [OF s]; use c r in \<open>simp add: conn_inv_writer\<close>)+
  with r w show ?thesis by (auto simp: start_job_def)
next
  case False
  note c' = FailBegin_inv [OF c(1) f]
  from f False have r: "r = Some (unfinished_ids c')" "conn_state c' = CLOSED" "core c' = core c" "outbound c' = []"
    by (auto simp: FailBegin_def Let_def)
  have I: "ctl_inv (core c) (conn_state c) (phases s) (jobs s) (thrown s) (connecting s)"
    using s c by (simp add: sys_inv_def ctl_def)
  show ?thesis
  proof (cases "unfinished_ids c' = []")
    case True
    then have "covered (core c) (jobs s)" by (simp add: unfinished_ids_Nil r covered_def)
    from ctl_closed [OF I this] have "ctl_inv (core c) CLOSED (phases s) (jobs s) (thrown s) (connecting s)" .
    with True r w c' show ?thesis
      by (auto simp: start_job_def sys_inv_def ctl_def WakeWriter_inv conn_inv_writer)
  next
    case False
    have "ctl_inv (core c) CLOSED (phases s) (Job who st (unfinished_ids c') # jobs s) (thrown s) (connecting s)"
    proof (rule ctl_start [OF I _ False])
      show "core c \<noteq> []" using False by (auto simp: unfinished_ids_Nil r)
      show "\<And>rid w. (rid, w, False) \<in> set (core c) \<Longrightarrow> rid \<in> set (unfinished_ids c')"
        by (auto simp: unfinished_ids_core r)
    qed (use \<open>\<not> (conn_state c = CLOSED \<or> conn_state c = DISCONNECTED)\<close> in auto)
    with False r w c' show ?thesis by (auto simp: start_job_def sys_inv_def ctl_def closer_running_def)
  qed
qed

lemma start_close_inv:
  assumes s: "sys_inv s"
  shows "sys_inv (start_job ByCloser st (Close (conn s)) s)"
proof (cases "conn_state (conn s) = CLOSED \<or> conn_state (conn s) = DISCONNECTED")
  case True
  then have "start_job ByCloser st (Close (conn s)) s = s" by (auto simp: Close_def start_job_def)
  with s show ?thesis by simp
next
  case False
  let ?c = "CloseBegin (conn s)"
  have c: "conn_inv ?c" using s by (simp add: sys_inv_def CloseBegin_inv)
  have I: "ctl_inv (core (conn s)) (conn_state (conn s)) (phases s) (jobs s) (thrown s) (connecting s)"
    using s by (simp add: sys_inv_def ctl_def)
  show ?thesis
  proof (cases "unfinished_ids (conn s) = []")
    case True
    then have "covered (core (conn s)) (jobs s)" by (simp add: unfinished_ids_Nil covered_def)
    from ctl_closed [OF I this] True \<open>\<not> (conn_state (conn s) = CLOSED \<or> _)\<close> c CloseEnd_inv [OF c] show ?thesis
      by (auto simp: Close_def start_job_def sys_inv_def ctl_def Let_def)
  next
    case ne: False
    have "ctl_inv (core (conn s)) CLOSING (phases s) (Job ByCloser st (unfinished_ids (conn s)) # jobs s)
      (thrown s) (connecting s)"
    proof (rule ctl_start [OF I _ ne])
      show "core (conn s) \<noteq> []" using ne by (auto simp: unfinished_ids_Nil)
      show "\<And>rid w. (rid, w, False) \<in> set (core (conn s)) \<Longrightarrow> rid \<in> set (unfinished_ids (conn s))"
        by (auto simp: unfinished_ids_core)
    qed (use False in auto)
    with ne False c show ?thesis by (auto simp: Close_def start_job_def sys_inv_def ctl_def Let_def)
  qed
qed

lemma completes_core:
  assumes "find_pending rid c = Some p" and "\<not> completed p"
  shows "(rid, pc_coroutine p, False) \<in> set (core c)"
  using find_pending_set [OF assms(1)] assms(2) by (force simp: core_def)

lemma completed_core:
  assumes "conn_inv c" and "find_pending rid c = None \<or> (\<exists>p. find_pending rid c = Some p \<and> completed p)"
  shows "(rid, w, False) \<notin> set (core c)"
proof
  assume "(rid, w, False) \<in> set (core c)"
  then obtain p where p: "(rid, p) \<in> set (pending_calls c)" "\<not> completed p" by (auto simp: core_def)
  with assms(1) have "find_pending rid c = Some p" by (simp add: find_pending_def conn_inv_def)
  with assms(2) p show False by auto
qed

lemma covered_shrink:
  assumes "covered T (js @ Job who st (rid # ids) # js')" and "\<And>w. (rid, w, False) \<notin> set T"
  shows "covered T (js @ Job who st ids # js')"
  unfolding covered_def
proof (intro allI impI)
  fix r w assume a: "(r, w, False) \<in> set T"
  with assms(2) have "r \<noteq> rid" by blast
  from assms(1) a obtain j where "j \<in> set (js @ Job who st (rid # ids) # js')" "r \<in> set (job_ids j)"
    unfolding covered_def by blast
  with \<open>r \<noteq> rid\<close> show "\<exists>j \<in> set (js @ Job who st ids # js'). r \<in> set (job_ids j)" by auto
qed

lemma ctl_job_shrink:
  assumes "ctl_inv T st ph (js @ Job who s (rid # ids) # js') thr cn" and "\<And>w. (rid, w, False) \<notin> set T"
  shows "ctl_inv T st ph (js @ Job who s ids # js') thr cn"
  by (rule ctl_jobs [OF assms(1)]) (use covered_shrink assms(2) in auto)

lemma ctl_job_remove:
  assumes "ctl_inv T st ph (js @ Job who s ids # js') thr cn" and "thr \<or> ids = []"
  shows "ctl_inv T st ph (js @ js') thr cn"
  by (rule ctl_jobs [OF assms(1)]) (use assms(2) in \<open>auto simp: covered_def\<close>)

text \<open>The table after one completion, with the drain it may finish.\<close>

lemma completes_ctl:
  assumes "c' = MaybeFinishDrain
      ((map_pending rid (\<lambda>p. p\<lparr>completed := True, pc_status := st, pc_response := f\<rparr>) c)\<lparr>metrics := m\<rparr>)"
    and "ctl_inv (mark rid (core c)) (conn_state c) ph js thr cn"
  shows "ctl_inv (mark rid (core c)) (conn_state c') ph js thr cn \<and> core c' = mark rid (core c) \<and> outbound c' = outbound c"
proof -
  let ?c = "(map_pending rid (\<lambda>p. p\<lparr>completed := True, pc_status := st, pc_response := f\<rparr>) c)\<lparr>metrics := m\<rparr>"
  have "core ?c = mark rid (core c)" by (simp add: core_map_pending)
  with ctl_drain [of ?c ph js thr cn] assms show ?thesis by simp
qed

lemma ReaderNext_frame:
  "ReaderNext c = (e, c') \<Longrightarrow> conn_inv c \<Longrightarrow> conn_inv c' \<and> core c' = core c \<and> conn_state c' = conn_state c \<and>
     outbound c' = outbound c \<and>
     (\<forall>rid f. e = FrameFor rid f \<longrightarrow> request_id (header f) = rid \<and> message_type (header f) = RESPONSE)"
  by (auto simp: ReaderNext_def split: prod.splits DecodeStatus.splits option.splits if_splits)

lemma CompletePending_reader_ctl:
  assumes s: "sys_inv s" and c: "conn_inv c" "core c = core (conn s)" "conn_state c = conn_state (conn s)"
    "outbound c = outbound (conn s)"
    and d: "CompletePending rid st f c = (Some k, c')" and r: "resume_caller k (phases s) = Some ph"
    and ok: "st = CALL_OK \<Longrightarrow> request_id (header f) = rid \<and> message_type (header f) = RESPONSE"
  shows "sys_inv (s\<lparr>conn := c', phases := ph\<rparr>)"
  using d
proof (cases rule: CompletePending_cases)
  case (completes p m)
  have e: "(rid, Some k, False) \<in> set (core c)" using completes_core [OF completes(1,2)] completes(3) by simp
  have "ctl_inv (core c) (conn_state c) (phases s) (jobs s) (thrown s) (connecting s)"
    using s c by (simp add: sys_inv_def ctl_def)
  from completes_ctl [OF completes(4) ctl_complete [OF this e r]]
  show ?thesis using s c CompletePending_inv [OF c(1) d ok] by (simp add: sys_inv_def ctl_def)
qed simp

lemma job_complete_inv:
  assumes s: "sys_inv s" and j: "jobs s = js @ Job who st (rid # ids) # js'" and nok: "st \<noteq> CALL_OK"
    and d: "CompletePending rid st f (conn s) = (Some k, c)" and r: "resume_caller k (phases s) = Some ph"
  shows "sys_inv (s\<lparr>conn := c, phases := ph, jobs := js @ Job who st ids # js'\<rparr>)"
  using d
proof (cases rule: CompletePending_cases)
  case (completes p m)
  have "sys_inv (s\<lparr>conn := c, phases := ph\<rparr>)"
    by (rule CompletePending_reader_ctl [OF s _ refl refl refl d r]) (use s nok in \<open>auto simp: sys_inv_def\<close>)
  moreover have "(rid, w, False) \<notin> set (core c)" for w
    using completes(4) by (simp add: core_map_pending in_mark_False)
  ultimately show ?thesis
    using ctl_job_shrink [of "core c" _ ph js who st rid ids js'] j
    by (auto simp: sys_inv_def ctl_def closer_running_job)
qed simp

lemma job_throw_inv:
  assumes s: "sys_inv s" and j: "jobs s = js @ Job who st (rid # ids) # js'" and nok: "st \<noteq> CALL_OK"
    and d: "CompletePending rid st f (conn s) = (Some k, c)"
  shows "sys_inv (s\<lparr>conn := job_threw who c, jobs := js @ js', thrown := True\<rparr>)"
  using d
proof (cases rule: CompletePending_cases)
  case (completes p m)
  have I: "ctl_inv (core (conn s)) (conn_state (conn s)) (phases s) (jobs s) (thrown s) (connecting s)"
    using s by (simp add: sys_inv_def ctl_def)
  have e: "(rid, Some k, False) \<in> set (core (conn s))" using completes_core [OF completes(1,2)] completes(3) by simp
  from ctl_invD(3) [OF I e] obtain x where x: "phases s k = Some x" "caller_ok (thrown s) rid False x" by auto
  have "(phases s)(k \<mapsto> x) = phases s" using x(1) by (simp add: fun_upd_idem)
  with ctl_mark [OF I e x(1), of x True] x(2)
  have "ctl_inv (mark rid (core (conn s))) (conn_state (conn s)) (phases s) (jobs s) True (connecting s)"
    by (simp add: caller_ok_def)
  from completes_ctl [OF completes(4) this]
  have "ctl_inv (core c) (conn_state c) (phases s) (jobs s) True (connecting s)" "outbound c = outbound (conn s)"
    by simp_all
  with ctl_job_remove [of "core c" "conn_state c" "phases s" js who st "rid # ids" js' True "connecting s"] j
  have "ctl_inv (core c) (conn_state c) (phases s) (js @ js') True (connecting s)" by simp
  moreover have "conn_inv c" using CompletePending_inv [OF _ d] s nok by (simp add: sys_inv_def)
  ultimately show ?thesis
    using s j \<open>outbound c = _\<close> closer_running_job [of js who st "rid # ids" js']
    by (cases who) (auto simp: sys_inv_def ctl_def conn_inv_writer)
qed simp

lemma job_skip_inv:
  assumes s: "sys_inv s" and j: "jobs s = js @ Job who st (rid # ids) # js'"
    and d: "CompletePending rid st f (conn s) = (None, c)"
  shows "sys_inv (s\<lparr>conn := c, jobs := js @ Job who st ids # js'\<rparr>)"
  using d
proof (cases rule: CompletePending_cases)
  case skip
  have "(rid, w, False) \<notin> set (core (conn s))" for w
    using completed_core [OF _ skip(3)] s by (simp add: sys_inv_def)
  with ctl_job_shrink [of "core (conn s)" _ _ js who st rid ids js'] j s skip(2) show ?thesis
    by (auto simp: sys_inv_def ctl_def closer_running_job)
next
  case (completes p m)
  have "conn_inv (conn s)" using s by (simp add: sys_inv_def)
  from find_pending_ok [OF this completes(1)] completes(3) show ?thesis by (simp add: pending_ok_def)
qed

lemma job_end_inv:
  assumes s: "sys_inv s" and j: "jobs s = js @ Job who st [] # js'"
  shows "sys_inv (s\<lparr>conn := job_end who (conn s), jobs := js @ js'\<rparr>)"
proof -
  have I: "ctl_inv (core (conn s)) (conn_state (conn s)) (phases s) (js @ Job who st [] # js') (thrown s) (connecting s)"
    using s j by (simp add: sys_inv_def ctl_def)
  have c: "conn_inv (conn s)" using s by (simp add: sys_inv_def)
  have cr: "closer_running (js @ js') \<Longrightarrow> outbound (conn s) = []"
    using s j closer_running_job [of js who st "[]" js'] by (simp add: sys_inv_def)
  show ?thesis
  proof (cases "who = ByCloser")
    case True
    then have run: "closer_running (js @ Job who st [] # js')" by (simp add: closer_running_job)
    from ctl_closed [OF I] ctl_invD(4) [OF I] run
    have "ctl_inv (core (conn s)) CLOSED (phases s) (js @ Job who st [] # js') (thrown s) (connecting s)" by blast
    from ctl_job_remove [OF this] True run s j CloseEnd_inv [OF c] show ?thesis
      by (simp add: sys_inv_def ctl_def)
  next
    case False
    from ctl_job_remove [OF I] False cr c show ?thesis
      by (cases who) (auto simp: sys_inv_def ctl_def WakeWriter_inv conn_inv_writer)
  qed
qed

definition jobs_ok :: "Job list \<Rightarrow> bool" where
  "jobs_ok js \<longleftrightarrow> list_all (\<lambda>j. case j of Job _ st _ \<Rightarrow> st \<noteq> CALL_OK) js"

lemma jobs_ok_simps [simp]:
  "jobs_ok []" "jobs_ok (Job who st ids # js) \<longleftrightarrow> st \<noteq> CALL_OK \<and> jobs_ok js"
  "jobs_ok (js @ js') \<longleftrightarrow> jobs_ok js \<and> jobs_ok js'"
  by (simp_all add: jobs_ok_def)

lemma jobs_ok_start: "jobs_ok (jobs s) \<Longrightarrow> st \<noteq> CALL_OK \<Longrightarrow> jobs_ok (jobs (start_job who st r s))"
  by (auto simp: start_job_def split: prod.splits option.splits)

lemma jobs_ok_step: "conn_step s t \<Longrightarrow> jobs_ok (jobs s) \<Longrightarrow> jobs_ok (jobs t)"
  by (induction rule: conn_step.induct) (simp_all add: jobs_ok_start)

lemma QueueCancel_id: "conn_state c \<noteq> READY \<Longrightarrow> QueueCancel rid c = c"
  by (simp add: QueueCancel_def)

lemma sys_phase:
  assumes "sys_inv s" and "phases s k = Some x" and "phase_id y = phase_id x"
    and "\<And>b. caller_ok (thrown s) (phase_id x) b x \<Longrightarrow> caller_ok (thrown s) (phase_id x) b y"
  shows "sys_inv (s\<lparr>phases := (phases s)(k \<mapsto> y)\<rparr>)"
  using assms ctl_phase [of "core (conn s)" _ "phases s" _ _ _ k x y] by (auto simp: sys_inv_def ctl_def)

lemma sys_state:
  assumes "sys_inv s" and "conn_inv c" and "core c = core (conn s)" and "outbound c = outbound (conn s)"
    and "ctl_inv (core (conn s)) (conn_state c) (phases s) (jobs s) (thrown s) (connecting s)"
  shows "sys_inv (s\<lparr>conn := c\<rparr>)"
  using assms by (auto simp: sys_inv_def ctl_def)

lemma drain_inv: "sys_inv s \<Longrightarrow> sys_inv (s\<lparr>conn := BeginDrain (conn s)\<rparr>)"
proof (cases "conn_state (conn s) = READY")
  case True
  assume s: "sys_inv s"
  let ?c = "WakeWriter ((conn s)\<lparr>conn_state := CLOSING\<rparr>)"
  have "ctl_inv (core (conn s)) CLOSING (phases s) (jobs s) (thrown s) (connecting s)"
    using ctl_closing [of "core (conn s)" "conn_state (conn s)"] s True by (simp add: sys_inv_def ctl_def)
  with ctl_drain [of ?c]
  have "ctl_inv (core (conn s)) (conn_state (MaybeFinishDrain ?c)) (phases s) (jobs s) (thrown s) (connecting s)"
    by simp
  moreover have "conn_inv (BeginDrain (conn s))" using s by (simp add: sys_inv_def BeginDrain_inv)
  ultimately show ?thesis using s True by (intro sys_state) (auto simp: BeginDrain_def)
qed (simp add: BeginDrain_def)

lemma written_inv: "sys_inv s \<Longrightarrow> sys_inv (s\<lparr>conn := WriterWritten (conn s)\<rparr>)"
proof -
  assume s: "sys_inv s"
  then have "ctl_inv (core (conn s)) (conn_state (MaybeFinishDrain (conn s))) (phases s) (jobs s) (thrown s) (connecting s)"
    using ctl_drain [of "conn s"] by (simp add: sys_inv_def ctl_def)
  with s show ?thesis by (intro sys_state) (auto simp: WriterWritten_def sys_inv_def conn_inv_writer MaybeFinishDrain_inv)
qed

lemma fresh_inv:
  assumes s: "sys_inv s" and "core (conn s) = []" "jobs s = []" and "conn_inv c" "core c = []"
    and "conn_state c = DISCONNECTED \<and> \<not> cn \<or> conn_state c = CONNECTING \<and> cn \<or> conn_state c = READY \<and> \<not> cn \<or>
      conn_state c = CLOSED \<and> \<not> cn"
  shows "sys_inv (s\<lparr>conn := c, connecting := cn\<rparr>)"
proof -
  have "ctl_inv (core (conn s)) (conn_state (conn s)) (phases s) (jobs s) (thrown s) (connecting s)"
    using s by (simp add: sys_inv_def ctl_def)
  from ctl_invD(2) [OF this] assms(2) have "phases s k = None" for k by (cases "phases s k") auto
  then show ?thesis using assms by (auto simp: sys_inv_def ctl_def ctl_inv_def closer_running_def covered_def)
qed

lemma StartFibers_state:
  "conn_state c = READY \<Longrightarrow> conn_state (snd (StartFibers b c)) = READY \<or> conn_state (snd (StartFibers b c)) = CLOSED"
  "core (snd (StartFibers b c)) = core c"
  by (auto simp: StartFibers_def Close_def Let_def)

lemma disconnected_facts:
  assumes "sys_inv s" and "conn_state (conn s) = DISCONNECTED \<or> connecting s"
  shows "core (conn s) = []" "jobs s = []" "conn_state (conn s) = DISCONNECTED \<Longrightarrow> \<not> connecting s" "outbound (conn s) = []"
proof -
  have I: "ctl_inv (core (conn s)) (conn_state (conn s)) (phases s) (jobs s) (thrown s) (connecting s)"
    using assms by (simp add: sys_inv_def ctl_def)
  show "core (conn s) = []" "jobs s = []" using ctl_invD(6) [OF I] assms(2) by auto
  show "conn_state (conn s) = DISCONNECTED \<Longrightarrow> \<not> connecting s" using ctl_invD(7) [OF I] by auto
  show "outbound (conn s) = []" using assms ctl_invD(7) [OF I] by (auto simp: sys_inv_def conn_inv_def conn_live_def)
qed

lemma attach_inv: "sys_inv s \<Longrightarrow> sys_inv (s\<lparr>conn := snd (Attach b1 b2 (conn s))\<rparr>)"
proof (cases "conn_state (conn s) \<noteq> DISCONNECTED \<or> \<not> b1")
  case False
  assume s: "sys_inv s"
  note D = disconnected_facts [OF s]
  let ?c = "(conn s)\<lparr>conn_fd := True, conn_state := READY\<rparr>"
  have "conn_inv ?c" using s conn_inv_state [of "(conn s)\<lparr>conn_fd := True\<rparr>" READY] by (simp add: sys_inv_def)
  then have "sys_inv (s\<lparr>conn := snd (StartFibers b2 ?c), connecting := False\<rparr>)"
    using D False StartFibers_inv [of ?c b2] StartFibers_state [where c = ?c and b = b2] by (intro fresh_inv s) auto
  moreover have "s\<lparr>conn := snd (StartFibers b2 ?c), connecting := False\<rparr> = s\<lparr>conn := snd (StartFibers b2 ?c)\<rparr>"
    using D(3) False by simp
  ultimately show ?thesis using False by (simp add: Attach_def)
qed (auto simp: Attach_def)

lemma connect_inv:
  assumes s: "sys_inv s" and "ConnectBegin opened (conn s) = (b, c)"
  shows "sys_inv (s\<lparr>conn := c, connecting := (connecting s \<or> b)\<rparr>)"
proof (cases b)
  case True
  with assms(2) have c: "conn_state (conn s) = DISCONNECTED" "c = (conn s)\<lparr>conn_fd := True, conn_state := CONNECTING\<rparr>"
    by (auto simp: ConnectBegin_def split: if_splits)
  note D = disconnected_facts [OF s]
  have "conn_inv c" using s c D conn_inv_state [of "(conn s)\<lparr>conn_fd := True\<rparr>" CONNECTING] by (simp add: sys_inv_def)
  with c D True show ?thesis by (intro fresh_inv s) auto
next
  case False
  with assms(2) have "c = conn s" by (auto simp: ConnectBegin_def split: if_splits)
  with False s show ?thesis by simp
qed

lemma connected_inv:
  assumes s: "sys_inv s" and cn: "connecting s" and "b1 \<longrightarrow> conn_state (conn s) = CONNECTING"
  shows "sys_inv (s\<lparr>conn := snd (ConnectEnd b1 b2 (conn s)), connecting := False\<rparr>)"
proof (cases b1)
  case True
  note D = disconnected_facts [OF s]
  let ?c = "(conn s)\<lparr>conn_state := READY\<rparr>"
  have "conn_inv ?c" using s conn_inv_state [of "conn s" READY] by (simp add: sys_inv_def)
  with True D cn StartFibers_inv [of ?c b2] StartFibers_state [where c = ?c and b = b2] show ?thesis
    by (intro fresh_inv s) (auto simp: ConnectEnd_def)
next
  case False
  note D = disconnected_facts [OF s]
  have "conn_inv ((conn s)\<lparr>conn_fd := False, conn_state := DISCONNECTED\<rparr>)"
    using s D cn conn_inv_state [of "(conn s)\<lparr>conn_fd := False\<rparr>" DISCONNECTED] by (simp add: sys_inv_def)
  with False D cn show ?thesis by (intro fresh_inv s) (auto simp: ConnectEnd_def)
qed

lemma call_inv:
  assumes s: "sys_inv s" and "phases s k = None"
    and c: "CallFrame (Some k) req t (conn s) = (Inr rid, c) \<or> CallMetadata (Some k) md bdy t (conn s) = (Inr rid, c)"
  shows "sys_inv (s\<lparr>conn := c, phases := (phases s)(k \<mapsto> Calling rid b)\<rparr>)"
proof -
  have ci: "conn_inv (conn s)" using s by (simp add: sys_inv_def)
  from Call_core [OF ci c] have *: "conn_state (conn s) = READY" "conn_state c = READY"
    "core c = core (conn s) @ [(rid, Some k, False)]" "rid \<notin> fst ` set (core (conn s))" by auto
  have I: "ctl_inv (core (conn s)) READY (phases s) (jobs s) (thrown s) (connecting s)"
    using s *(1) by (simp add: sys_inv_def ctl_def)
  have "\<not> closer_running (jobs s)" using ctl_invD(5) [OF I] by (auto simp: closer_running_def)
  with ctl_call [OF I assms(2) *(4), of b] * Call_inv [OF ci c] show ?thesis by (simp add: sys_inv_def ctl_def)
qed

lemma woken_inv:
  assumes s: "sys_inv s" and k: "phases s k = Some (Woken rid)" and c: "CallTimedOut rid (conn s) = (b, c)"
  shows "sys_inv (s\<lparr>conn := c, phases := (phases s)(k \<mapsto> Finishing rid b)\<rparr>)"
proof -
  have ci: "conn_inv (conn s)" using s by (simp add: sys_inv_def)
  have I: "ctl_inv (core (conn s)) (conn_state (conn s)) (phases s) (jobs s) (thrown s) (connecting s)"
    using s by (simp add: sys_inv_def ctl_def)
  from ctl_invD(2) [OF I k] obtain b0 where e: "(rid, Some k, b0) \<in> set (core (conn s))" by auto
  then obtain p where p: "find_pending rid (conn s) = Some p" "completed p = b0"
    using ci by (force simp: core_def find_pending_def conn_inv_def)
  have M: "ctl_inv (mark rid (core (conn s))) (conn_state (conn s)) ((phases s)(k \<mapsto> Finishing rid b)) (jobs s)
      (thrown s) (connecting s)"
    by (rule ctl_mark [OF I e k]) (auto simp: caller_ok_def)
  have "core c = mark rid (core (conn s)) \<and> conn_state c = conn_state (conn s) \<and>
      (conn_state c \<noteq> READY \<longrightarrow> outbound c = outbound (conn s))"
  proof (cases "completed p")
    case True
    with p e have "mark rid (core (conn s)) = core (conn s)"
      using core_inject [OF _ _ ctl_invD(1) [OF I]] by (force simp: mark_def intro!: map_idI)
    with True p c show ?thesis by (auto simp: CallTimedOut_def)
  next
    case False
    with p c show ?thesis
      by (auto simp: CallTimedOut_def Let_def core_map_pending QueueCancel_id)
  qed
  with M s CallTimedOut_inv [OF ci c] show ?thesis
    using ctl_invD(5) [OF I] by (fastforce simp: sys_inv_def ctl_def closer_running_def)
qed

lemma core_filter: "core (c\<lparr>pending_calls := filter (\<lambda>(k, _). k \<noteq> rid) (pending_calls c)\<rparr>) =
    filter (\<lambda>(k, _). k \<noteq> rid) (core c)"
  by (simp add: core_def filter_map comp_def case_prod_unfold)

lemma finish_inv:
  assumes s: "sys_inv s" and k: "phases s k = Some (Finishing rid b)" and c: "CallFinish rid b (conn s) = (r, c)"
  shows "sys_inv (s\<lparr>conn := c, phases := (phases s)(k := None)\<rparr>)"
proof -
  define d where "d = (if b then MaybeFinishDrain (conn s) else conn s)"
  have ci: "conn_inv (conn s)" using s by (simp add: sys_inv_def)
  have I: "ctl_inv (core d) (conn_state d) (phases s) (jobs s) (thrown s) (connecting s)"
    using s ctl_drain [of "conn s"] by (simp add: sys_inv_def ctl_def d_def)
  have "core c = filter (\<lambda>(k, _). k \<noteq> rid) (core d)" "conn_state c = conn_state d" "outbound c = outbound (conn s)"
    using c by (auto simp: CallFinish_def Let_def d_def core_filter)
  with ctl_finish [OF I k, of rid] CallFinish_inv [OF ci c] s show ?thesis by (simp add: sys_inv_def ctl_def)
qed

lemma conn_step_inv: "conn_step s t \<Longrightarrow> sys_inv s \<and> jobs_ok (jobs s) \<Longrightarrow> sys_inv t \<and> jobs_ok (jobs t)"
proof (intro conjI)
  assume st: "conn_step s t" and I: "sys_inv s \<and> jobs_ok (jobs s)"
  then show "jobs_ok (jobs t)" using jobs_ok_step by blast
  from I have s: "sys_inv s" and c: "conn_inv (conn s)" by (auto simp: sys_inv_def)
  from st s c I show "sys_inv t"
  proof (induction rule: conn_step.induct)
    case (step_rejected s k req t r c md bdy)
    then show ?case using Call_inv [OF step_rejected(4,2)] Call_core [OF step_rejected(4,2)]
      by (intro sys_inv_conn) auto
  next
    case (step_yield s k rid t)
    then show ?case by (intro sys_phase [where x = "Calling rid t"]) (auto simp: caller_ok_def)
  next
    case (step_timer s k rid)
    then show ?case by (intro sys_phase [where x = "Waiting rid True"]) (auto simp: caller_ok_def)
  next
    case (step_write s)
    then show ?case using WriterRound_core [of "conn s"] WriterRound_inv by (intro sys_inv_conn) auto
  next
    case (step_write_failed s)
    obtain r c' where f: "FailBegin ((conn s)\<lparr>writer := W_Failing\<rparr>) = (r, c')" by fastforce
    show ?case unfolding f using step_write_failed
      by (intro start_fail_inv [OF _ f]) (auto simp: conn_inv_writer)
  next
    case (step_prepare s c)
    then show ?case by (intro sys_inv_conn) (auto simp: ReaderPrepare_def split: prod.splits option.splits if_splits)
  next
    case (step_prepare_failed s c)
    obtain r c' where f: "FailBegin c = (r, c')" by fastforce
    show ?case unfolding f using step_prepare_failed
      by (intro start_fail_inv [OF _ f]) (auto simp: ReaderPrepare_def split: prod.splits option.splits if_splits)
  next
    case (step_received s off data c)
    then show ?case
      by (intro sys_inv_conn) (auto simp: ReaderReceived_def split: prod.splits DecodeStatus.splits)
  next
    case (step_receive_failed s off data c)
    obtain r c' where f: "FailBegin c = (r, c')" by fastforce
    show ?case unfolding f using step_receive_failed
      by (intro start_fail_inv [OF _ f]) (auto simp: ReaderReceived_def split: prod.splits DecodeStatus.splits)
  next
    case (step_closed_by_peer s off)
    obtain r c' where f: "FailBegin ((conn s)\<lparr>decoder := snd (CommitWritable 0 (decoder (conn s))), reader := R_Failing\<rparr>)
      = (r, c')" by fastforce
    show ?case unfolding f using step_closed_by_peer by (intro start_fail_inv [OF _ f]) auto
  next
    case (step_no_frame s c)
    then show ?case using ReaderNext_frame [OF step_no_frame(3)] by (intro sys_inv_conn) auto
  next
    case (step_bad_frame s c)
    obtain r c' where f: "FailBegin c = (r, c')" by fastforce
    show ?case unfolding f using step_bad_frame ReaderNext_frame [OF step_bad_frame(3)]
      by (intro start_fail_inv [OF _ f]) auto
  next
    case (step_late_frame s rid f c c')
    note F = ReaderNext_frame [OF step_late_frame(3) step_late_frame(6)]
    have "c' = c \<or> (\<exists>m. c' = c\<lparr>metrics := m\<rparr>)"
    proof (cases "find_pending rid c = None")
      case True
      with step_late_frame(4) show ?thesis by (auto simp: ReaderDeliver_def)
    next
      case False
      then have d: "CompletePending rid CALL_OK f c = (None, c')"
        using step_late_frame(4) by (simp add: ReaderDeliver_def)
      then show ?thesis
      proof (cases rule: CompletePending_cases)
        case (completes p m)
        with find_pending_ok [of c rid p] F show ?thesis by (auto simp: pending_ok_def)
      qed simp
    qed
    then show ?case using F step_late_frame(5) by (intro sys_inv_conn) auto
  next
    case (step_frame s rid f c k c' ph)
    note F = ReaderNext_frame [OF step_frame(3) step_frame(7)]
    have "CompletePending rid CALL_OK f c = (Some k, c')"
      using step_frame(4) by (auto simp: ReaderDeliver_def split: if_splits)
    with F step_frame(5,6) show ?case by (intro CompletePending_reader_ctl) auto
  next
    case (step_job_skip s js who st rid ids js' c)
    then show ?case by (intro job_skip_inv) auto
  next
    case (step_job_resume s js who st rid ids js' k c ph)
    then show ?case by (intro job_complete_inv) auto
  next
    case (step_job_throw s js who st rid ids js' k c)
    then show ?case by (intro job_throw_inv) auto
  qed (auto intro: attach_inv connect_inv connected_inv drain_inv start_close_inv call_inv woken_inv finish_inv
      written_inv job_end_inv)
qed

lemma new_conn_fields:
  "new_conn lim = Some c \<Longrightarrow> conn_state c = DISCONNECTED \<and> pending_calls c = [] \<and> pending_call_pool c = [] \<and>
     outbound c = [] \<and> outbound_bytes c = 0 \<and> conn_limits c = lim \<and> writer c = W_None"
  by (auto simp: new_conn_def split: if_splits)

lemma conn_start_inv: "conn_start lim s \<Longrightarrow> sys_inv s \<and> jobs_ok (jobs s)"
  using new_conn_fields [of lim "conn s"]
  by (auto simp: conn_start_def sys_inv_def ctl_def ctl_inv_def conn_inv_def core_def covered_def closer_running_def)

interpretation connection_system: invariant_system "conn_start lim" conn_step "\<lambda>s. sys_inv s \<and> jobs_ok (jobs s)"
  by unfold_locales (auto dest: conn_start_inv conn_step_inv)

lemma conn_limits_ops [simp]:
  "conn_limits (WakeWriter c) = conn_limits c" "conn_limits (CloseBegin c) = conn_limits c"
  "conn_limits (CloseEnd c) = conn_limits c" "conn_limits (MaybeFinishDrain c) = conn_limits c"
  "conn_limits (BeginDrain c) = conn_limits c" "conn_limits (snd (Close c)) = conn_limits c"
  "conn_limits (snd (FailBegin c)) = conn_limits c" "conn_limits (QueueCancel rid c) = conn_limits c"
  "conn_limits (ReleasePendingCall p c) = conn_limits c" "conn_limits (job_end who c) = conn_limits c"
  "conn_limits (job_threw who c) = conn_limits c" "conn_limits (snd (StartFibers b c)) = conn_limits c"
proof -
  show w: "conn_limits (WakeWriter c) = conn_limits c" for c by (simp add: WakeWriter_def)
  show b: "conn_limits (CloseBegin c) = conn_limits c" for c by (simp add: CloseBegin_def)
  show e: "conn_limits (CloseEnd c) = conn_limits c" for c by (simp add: CloseEnd_def w)
  show m: "conn_limits (MaybeFinishDrain c) = conn_limits c" for c by (simp add: MaybeFinishDrain_def b e)
  show "conn_limits (BeginDrain c) = conn_limits c" by (simp add: BeginDrain_def m w)
  show "conn_limits (snd (Close c)) = conn_limits c" by (simp add: Close_def b Let_def)
  show "conn_limits (snd (FailBegin c)) = conn_limits c" by (simp add: FailBegin_def Let_def)
  show "conn_limits (QueueCancel rid c) = conn_limits c" by (simp add: QueueCancel_def w split: sum.split)
  show "conn_limits (ReleasePendingCall p c) = conn_limits c" by (simp add: ReleasePendingCall_def)
  show "conn_limits (job_end who c) = conn_limits c" by (cases who) (simp_all add: w e)
  show "conn_limits (job_threw who c) = conn_limits c" by (cases who) simp_all
  show "conn_limits (snd (StartFibers b c)) = conn_limits c" by (simp add: StartFibers_def Close_def Let_def b e)
qed

lemma CompletePending_limits: "CompletePending rid st f c = (r, c') \<Longrightarrow> conn_limits c' = conn_limits c"
  by (erule CompletePending_cases) simp_all

lemma start_job_limits: "conn_limits (conn (start_job who st r s)) = conn_limits (snd r)"
  by (cases who) (auto simp: start_job_def split: prod.splits option.splits)

lemma conn_limits_step: "conn_step s t \<Longrightarrow> conn_inv (conn s) \<Longrightarrow> conn_limits (conn t) = conn_limits (conn s)"
proof (induction rule: conn_step.induct)
  case (step_rejected s k req t r c md bdy)
  then show ?case using Call_core [OF step_rejected(3,2)] by simp
next
  case (step_call s k req t rid c md bdy)
  then show ?case using Call_core [OF step_call(3,2)] by simp
next
  case (step_woken s k rid b c)
  then show ?case by (auto simp: CallTimedOut_def Let_def split: option.splits if_splits)
next
  case (step_late_frame s rid f c c')
  have "conn_limits c' = conn_limits c"
    using step_late_frame(4) by (auto simp: ReaderDeliver_def dest: CompletePending_limits split: if_splits)
  with step_late_frame(3) show ?case
    by (auto simp: ReaderNext_def split: prod.splits DecodeStatus.splits option.splits if_splits)
next
  case (step_frame s rid f c k c' ph)
  have "conn_limits c' = conn_limits c"
    using step_frame(4) by (auto simp: ReaderDeliver_def dest: CompletePending_limits split: if_splits)
  with step_frame(3) show ?case
    by (auto simp: ReaderNext_def split: prod.splits DecodeStatus.splits option.splits if_splits)
qed (auto simp: start_job_limits Attach_def ConnectBegin_def ConnectEnd_def CallFinish_def Let_def WriterRound_core
    WriterWritten_def ReaderPrepare_def ReaderReceived_def ReaderNext_def dest: CompletePending_limits
    split: prod.splits DecodeStatus.splits option.splits if_splits)

lemma reach_limits: "reach (conn_start lim) conn_step s \<Longrightarrow> conn_limits (conn s) = lim"
proof (induction rule: reach.induct)
  case (reach_init s)
  then show ?case using new_conn_fields by (auto simp: conn_start_def)
next
  case (reach_step s t)
  then show ?case
    using conn_limits_step connection_system.reach_inv [OF reach_step(1)] by (simp add: sys_inv_def)
qed

end
