(* ===== verification/ConnectionRuns.thy ===== *)
theory ConnectionRuns
  imports ConnectionInvariant
begin

text \<open>
  What the invariant of the connection gives its users, and four concrete runs: a call that is
  answered, a connection closed under a waiting call, a write failure that strands its caller,
  and a drain that does not end.
\<close>

section \<open>Properties\<close>

text \<open>
  C10. A connection stays within its limits and the writer is never asleep while there is work:
  in every reachable state the byte counter is the size of the queue and within the configured
  maximum, the table has at most the configured number of calls under distinct ids, and when
  frames are queued the connection is open and its writer is not suspended.
\<close>

theorem connection_bounds:
  assumes "reach (conn_start lim) conn_step s"
  shows "outbound_bytes (conn s) = sum_list (map (\<lambda>f. length (of_bytes f)) (outbound (conn s))) \<and>
     outbound_bytes (conn s) \<le> max_outbound_bytes lim \<and> length (pending_calls (conn s)) \<le> max_pending_calls lim \<and>
     distinct (map fst (pending_calls (conn s))) \<and>
     (outbound (conn s) = [] \<or> (conn_live (conn s) \<and> writer (conn s) \<noteq> W_Waiting))"
proof -
  have "conn_inv (conn s)" using connection_system.reach_inv [OF assms] by (simp add: sys_inv_def)
  then show ?thesis using reach_limits [OF assms] by (auto simp: conn_inv_def queue_size_def)
qed

definition idle_sys :: "ConnectionLimits \<Rightarrow> ConnSys" where
  "idle_sys lim = \<lparr>conn = the (new_conn lim), phases = (\<lambda>_. None), jobs = [], thrown = False, connecting = False\<rparr>"

lemma idle_sys_start:
  "max_pending_calls lim \<noteq> 0 \<Longrightarrow> max_outbound_bytes lim \<noteq> 0 \<Longrightarrow> conn_start lim (idle_sys lim)"
  by (simp add: conn_start_def idle_sys_def new_conn_def)

text \<open>
  C7. A call that returns success returns the response to its own request: in every reachable
  state, when a caller finishes with status \<open>OK\<close>, the frame it gets is a response frame and
  carries the request id the call was sent under.
\<close>

theorem response_matches_request:
  assumes "reach (conn_start lim) conn_step s" and "phases s k = Some (Finishing rid b)"
    and "CallFinish rid b (conn s) = (r, c)" and "call_status r = CALL_OK"
  shows "result_request_id r = rid \<and> request_id (header (response r)) = rid \<and>
     message_type (header (response r)) = RESPONSE"
proof -
  have ci: "conn_inv (conn s)"
    and I: "ctl_inv (core (conn s)) (conn_state (conn s)) (phases s) (jobs s) (thrown s) (connecting s)"
    using connection_system.reach_inv [OF assms(1)] by (auto simp: sys_inv_def ctl_def)
  from ctl_invD(2) [OF I assms(2)] obtain b0 where e: "(rid, Some k, b0) \<in> set (core (conn s))" by auto
  from ctl_invD(3) [OF I e] assms(2) have b0: b0 by (auto simp: caller_ok_def)
  from e b0 obtain p where p: "find_pending rid (conn s) = Some p" "completed p"
    using ci by (force simp: core_def find_pending_def conn_inv_def)
  have "find_pending rid (if b then MaybeFinishDrain (conn s) else conn s) = Some p"
    using p(1) by (simp add: find_pending_def MaybeFinishDrain_def CloseEnd_def CloseBegin_def)
  with assms(3,4) find_pending_ok [OF ci p(1)] p(2) show ?thesis
    by (auto simp: CallFinish_def Let_def pending_ok_def)
qed

text \<open>
  C8. No caller is left behind on a dead connection: once a connection is closed and the loop
  that completes its calls is over, every call that is still in the table has been woken, unless
  that loop was cut short by an exception.
\<close>

theorem closed_connection_wakes_all:
  assumes "reach (conn_start lim) conn_step s" and "conn_state (conn s) = CLOSED" and "jobs s = []" and "\<not> thrown s"
    and "phases s k = Some x"
  shows "\<exists>rid b. x = Woken rid \<or> x = Finishing rid b"
proof -
  have I: "ctl_inv (core (conn s)) (conn_state (conn s)) (phases s) (jobs s) (thrown s) (connecting s)"
    using connection_system.reach_inv [OF assms(1)] by (auto simp: sys_inv_def ctl_def)
  from ctl_invD(2) [OF I assms(5)] obtain b where e: "(phase_id x, Some k, b) \<in> set (core (conn s))" by auto
  have "covered (core (conn s)) []" using ctl_invD(4) [OF I] assms by simp
  with e have b by (cases b) (auto simp: covered_def)
  with ctl_invD(3) [OF I e] assms(4,5) show ?thesis by (auto simp: caller_ok_def)
qed

text \<open>The request the examples below send, and its encoding.\<close>

definition sample_request :: "u64 \<Rightarrow> Frame" where
  "sample_request rid = \<lparr>header = \<lparr>flags = 0, message_type = REQUEST, request_id = rid\<rparr>, metadata = [], body = []\<rparr>"

lemma sample_request_fits: "rid \<noteq> 0 \<Longrightarrow> Encode (sample_request rid) = Inr (frame_bytes (sample_request rid))"
  by (rule Encode_frame_bytes)
     (simp add: sample_request_def frame_fits_def header_ok_def IsValidMessageType_def message_types word_le_nat_alt)

lemma sample_request_length: "length (frame_bytes (sample_request rid)) = 32"
  by (simp add: frame_bytes_def sample_request_def header_bytes_def codec_simps)

text \<open>
  An open connection under the default limits, with the given calls, queue, writer and state:
  the states of the two runs below.
\<close>

definition open_conn :: "ConnectionState \<Rightarrow> WriterPc \<Rightarrow> (u64 \<times> PendingCall) list \<Rightarrow> PendingCall list \<Rightarrow> u64 list \<Rightarrow>
    ConnectionMetrics \<Rightarrow> Conn" where
  "open_conn st w ps pool ids m = \<lparr>conn_state = st, conn_fd = (st \<noteq> CLOSED), next_request_id = 1,
     decoder = new_decoder default_limits, reader = R_Loop, writer = w, pending_calls = ps,
     pending_call_pool = pool,
     outbound = map (\<lambda>i. \<lparr>of_request_id = i, of_bytes = frame_bytes (sample_request i), of_control = False\<rparr>) ids,
     conn_limits = default_connection_limits, metrics = m, outbound_bytes = 32 * length ids\<rparr>"

definition waiting_call :: "nat \<Rightarrow> u64 \<Rightarrow> PendingCall" where
  "waiting_call k rid = new_pending\<lparr>pc_coroutine := Some k, pc_request_id := rid\<rparr>"

abbreviation "no_metrics \<equiv> \<lparr>calls_started = 0, calls_completed = 0, calls_timed_out = 0, calls_rejected = 0,
  late_responses = 0, connection_failures = 0\<rparr>"

lemma run_attach: "reach (conn_start default_connection_limits) conn_step
   ((idle_sys default_connection_limits)\<lparr>conn := open_conn READY W_Running [] [] [] no_metrics\<rparr>)"
proof -
  let ?s = "idle_sys default_connection_limits"
  have r: "reach (conn_start default_connection_limits) conn_step ?s"
    by (rule reach.reach_init, rule idle_sys_start) (simp_all add: default_connection_limits_def)
  have "snd (Attach True True (conn ?s)) = open_conn READY W_Running [] [] [] no_metrics"
    by (simp add: Attach_def StartFibers_def idle_sys_def new_conn_def open_conn_def default_connection_limits_def)
  with reach.reach_step [OF r step_attach [of ?s True True]] show ?thesis by simp
qed

lemma run_idle: "snd (WriterRound (open_conn st W_Running ps pool [] m)) =
   (if st = READY \<or> st = CLOSING then open_conn st W_Waiting ps pool [] m else open_conn st W_None ps pool [] m)"
  by (simp add: WriterRound_def open_conn_def conn_live_def)

lemma run_call:
  assumes "rid \<noteq> 0" "t \<noteq> 0" "rid \<notin> fst ` set ps" "length ps < 4000" "length ids < 1000" "pool = [] \<or> pool = [new_pending]"
  shows "CallFrame (Some k) (sample_request rid) t (open_conn READY w ps pool ids m) =
     (Inr rid, open_conn READY (if w = W_Waiting then W_Running else w) (ps @ [(rid, waiting_call k rid)]) [] (ids @ [rid])
        (m\<lparr>calls_started := calls_started m + 1\<rparr>))"
proof -
  have "message_type (header (sample_request rid)) = REQUEST" "request_id (header (sample_request rid)) = rid"
    by (simp_all add: sample_request_def)
  moreover have "map_of ps rid = None" using assms(3) by (simp add: map_of_eq_None_iff)
  ultimately show ?thesis
    using assms sample_request_fits [OF assms(1)] sample_request_length [of rid]
    by (auto simp: CallFrame_def CallEncodedBegin_def find_pending_def AcquirePendingCall_def Let_def WakeWriter_def
        open_conn_def default_connection_limits_def waiting_call_def)
qed

text \<open>A caller that sleeps without a timeout although its call is completed.\<close>

definition stranded :: "nat \<Rightarrow> u64 \<Rightarrow> ConnSys \<Rightarrow> bool" where
  "stranded k rid s \<longleftrightarrow> phases s k = Some (Waiting rid False) \<and> (rid, Some k, True) \<in> set (core (conn s))"

lemma start_job_core: "core (conn (start_job who st r s)) = core (snd r)" "phases (start_job who st r s) = phases s"
  by (cases who; auto simp: start_job_def split: prod.splits option.splits)+

lemma FailBegin_core [simp]: "core (snd (FailBegin c)) = core c" "core (snd (Close c)) = core c"
  by (simp_all add: FailBegin_def Close_def Let_def)

lemma in_mark_True: "(r, w, True) \<in> set T \<Longrightarrow> (r, w, True) \<in> set (mark rid T)"
  by (auto simp: in_mark)

lemma stranded_complete:
  assumes s: "sys_inv s" and st: "stranded k rid s" and c: "conn_inv c" "core c = core (conn s)"
    and d: "CompletePending r x f c = (o', c')"
  shows "(rid, Some k, True) \<in> set (core c') \<and> o' \<noteq> Some k"
  using d
proof (cases rule: CompletePending_cases)
  case skip
  with st c show ?thesis by (simp add: stranded_def)
next
  case (completes p m)
  have "core c' = mark r (core (conn s))" using completes(4) c by (simp add: core_map_pending)
  moreover have "pc_coroutine p \<noteq> Some k"
  proof
    assume a: "pc_coroutine p = Some k"
    have I: "ctl_inv (core (conn s)) (conn_state (conn s)) (phases s) (jobs s) (thrown s) (connecting s)"
      using s by (simp add: sys_inv_def ctl_def)
    from completes_core [OF completes(1,2)] a c have e: "(r, Some k, False) \<in> set (core (conn s))" by simp
    from ctl_invD(3) [OF I e] st have "r = rid" by (auto simp: stranded_def caller_ok_def)
    with core_inject [OF e _ ctl_invD(1) [OF I]] st show False by (auto simp: stranded_def)
  qed
  ultimately show ?thesis using completes(3) st in_mark_True by (simp add: stranded_def)
qed

lemma stranded_resume: "resume_caller k' ph = Some ph' \<Longrightarrow> k' \<noteq> k \<Longrightarrow> ph' k = ph k"
  by (auto simp: resume_caller_def split: option.splits CallPhase.splits)

lemma stranded_step: "conn_step s t \<Longrightarrow> sys_inv s \<Longrightarrow> stranded k rid s \<Longrightarrow> stranded k rid t"
proof (induction rule: conn_step.induct)
  case (step_rejected s k' req t r c md bdy)
  then show ?case using Call_core [OF _ step_rejected(2)] by (simp add: stranded_def sys_inv_def)
next
  case (step_call s k' req t rid' c md bdy)
  then show ?case using Call_core [OF _ step_call(2)] by (auto simp: stranded_def sys_inv_def)
next
  case (step_woken s k' rid' b c)
  have "(rid, Some k, True) \<in> set (core c)"
    using step_woken in_mark_True
    by (auto simp: stranded_def CallTimedOut_def Let_def core_map_pending split: option.splits if_splits)
  with step_woken show ?case by (auto simp: stranded_def)
next
  case (step_finish s k' rid' b r c)
  have I: "ctl_inv (core (conn s)) (conn_state (conn s)) (phases s) (jobs s) (thrown s) (connecting s)"
    using step_finish(3) by (simp add: sys_inv_def ctl_def)
  from ctl_invD(2) [OF I step_finish(1)] obtain b0 where e: "(rid', Some k', b0) \<in> set (core (conn s))" by auto
  have kk: "k' \<noteq> k" using step_finish(1,4) by (auto simp: stranded_def)
  then have "rid' \<noteq> rid" using core_inject [OF e _ ctl_invD(1) [OF I]] step_finish(4) by (auto simp: stranded_def)
  moreover have "core c = filter (\<lambda>(k, _). k \<noteq> rid') (core (conn s))"
    using step_finish(2) by (auto simp: CallFinish_def Let_def core_filter)
  ultimately show ?case using step_finish(4) kk by (auto simp: stranded_def)
next
  case (step_late_frame s r f c c')
  note F = ReaderNext_frame [OF step_late_frame(3)]
  have "(rid, Some k, True) \<in> set (core c')"
  proof (cases "find_pending r c = None")
    case True
    then show ?thesis using step_late_frame F by (auto simp: ReaderDeliver_def stranded_def sys_inv_def)
  next
    case False
    then have "CompletePending r CALL_OK f c = (None, c')" using step_late_frame(4) by (simp add: ReaderDeliver_def)
    from stranded_complete [OF step_late_frame(5,6) _ _ this] F step_late_frame(5) show ?thesis
      by (simp add: sys_inv_def)
  qed
  with step_late_frame(6) show ?case by (simp add: stranded_def)
next
  case (step_frame s r f c k' c' ph)
  note F = ReaderNext_frame [OF step_frame(3)]
  have d: "CompletePending r CALL_OK f c = (Some k', c')"
    using step_frame(4) by (auto simp: ReaderDeliver_def split: if_splits)
  have *: "(rid, Some k, True) \<in> set (core c')" "k' \<noteq> k"
    using stranded_complete [OF step_frame(6,7) _ _ d] F step_frame(6) by (auto simp: sys_inv_def)
  with stranded_resume [OF step_frame(5) *(2)] step_frame(7) show ?case by (simp add: stranded_def)
next
  case (step_job_skip s js who st r ids js' c)
  from stranded_complete [OF step_job_skip(3,4) _ refl step_job_skip(2)] step_job_skip(3,4) show ?case
    by (simp add: stranded_def sys_inv_def)
next
  case (step_job_resume s js who st r ids js' k' c ph)
  have *: "(rid, Some k, True) \<in> set (core c)" "k' \<noteq> k"
    using stranded_complete [OF step_job_resume(4,5) _ refl step_job_resume(2)] step_job_resume(4)
    by (auto simp: sys_inv_def)
  with stranded_resume [OF step_job_resume(3) *(2)] step_job_resume(5) show ?case by (simp add: stranded_def)
next
  case (step_job_throw s js who st r ids js' k' c)
  have "core (job_threw who c) = core c" by (cases who) simp_all
  with stranded_complete [OF step_job_throw(4,5) _ refl step_job_throw(2)] step_job_throw(4,5) show ?case
    by (simp add: stranded_def sys_inv_def)
next
  case (step_job_end s js who st js')
  have "core (job_end who (conn s)) = core (conn s)" by (cases who) simp_all
  with step_job_end show ?case by (simp add: stranded_def)
next
  case (step_prepare s c)
  then show ?case by (auto simp: stranded_def ReaderPrepare_def split: prod.splits option.splits if_splits)
next
  case (step_prepare_failed s c)
  then show ?case
    by (auto simp: stranded_def start_job_core ReaderPrepare_def split: prod.splits option.splits if_splits)
next
  case (step_received s off data c)
  then show ?case by (auto simp: stranded_def ReaderReceived_def split: prod.splits DecodeStatus.splits)
next
  case (step_receive_failed s off data c)
  then show ?case by (auto simp: stranded_def start_job_core ReaderReceived_def split: prod.splits DecodeStatus.splits)
next
  case (step_no_frame s c)
  then show ?case using ReaderNext_frame [OF step_no_frame(3)] by (auto simp: stranded_def sys_inv_def)
next
  case (step_bad_frame s c)
  then show ?case using ReaderNext_frame [OF step_bad_frame(3)] by (auto simp: stranded_def sys_inv_def start_job_core)
next
  case (step_connect opened s b c)
  then show ?case by (auto simp: stranded_def ConnectBegin_def split: if_splits)
next
  case (step_connected s connected created)
  then show ?case by (auto simp: stranded_def ConnectEnd_def StartFibers_state)
next
  case (step_attach s configured created)
  then show ?case by (auto simp: stranded_def Attach_def StartFibers_state)
qed (auto simp: stranded_def start_job_core WriterRound_core WriterWritten_def BeginDrain_def)

lemma stranded_forever:
  assumes "conn_step\<^sup>*\<^sup>* s t" and "sys_inv s \<and> jobs_ok (jobs s)" and "stranded k rid s"
  shows "stranded k rid t"
  using assms
proof (induction rule: rtranclp_induct)
  case (step y z)
  then show ?case using stranded_step connection_system.steps_inv [of s y] by blast
qed

lemma run_write_one:
  "snd (WriterRound (open_conn READY W_Running [(rid, waiting_call k rid)] [] [rid] m)) =
     open_conn READY W_Writing [(rid, (waiting_call k rid)\<lparr>sent := True\<rparr>)] [] [] m"
proof -
  have ne: "frame_bytes (sample_request rid) \<noteq> []" 
    using sample_request_length [of rid] by (metis list.size(3) zero_neq_numeral)
  have nc: "\<not> completed (waiting_call k rid)" by (simp add: waiting_call_def new_pending_def)
  show ?thesis
    by (simp add: WriterRound_def open_conn_def conn_live_def find_pending_def map_pending_def Let_def ne nc
        sample_request_length)
qed

text \<open>A caller registered while the writer sleeps, up to the point where the writer is writing its frame.\<close>

lemma run_one_call:
  assumes "t \<noteq> 0"
  shows "reach (conn_start default_connection_limits) conn_step ((idle_sys default_connection_limits)
     \<lparr>conn := open_conn READY W_Writing [(1, (waiting_call 1 1)\<lparr>sent := True\<rparr>)] [] [] (no_metrics\<lparr>calls_started := 1\<rparr>),
      phases := [1 \<mapsto> Calling 1 (t \<noteq> kNoTimeout)]\<rparr>)"
proof -
  let ?s = "idle_sys default_connection_limits"
  let ?m = "no_metrics\<lparr>calls_started := 1\<rparr>"
  have r1: "reach (conn_start default_connection_limits) conn_step
      (?s\<lparr>conn := open_conn READY W_Waiting [] [] [] no_metrics\<rparr>)"
    by (rule reach_eq_step [OF run_attach step_write]) (simp add: open_conn_def, simp add: run_idle)
  have ph: "phases ?s = Map.empty" by (simp add: idle_sys_def)
  have r2: "reach (conn_start default_connection_limits) conn_step
      (?s\<lparr>conn := open_conn READY W_Running [(1, waiting_call 1 1)] [] [1] ?m,
        phases := [1 \<mapsto> Calling 1 (t \<noteq> kNoTimeout)]\<rparr>)"
    by (rule reach_eq_step [OF r1 step_call [where k = 1 and t = t and req = "sample_request 1"]])
       (use assms in \<open>simp_all add: ph run_call\<close>)
  show ?thesis
    by (rule reach_eq_step [OF r2 step_write]) (simp add: open_conn_def, simp add: run_write_one)
qed

text \<open>
  C21. A failing write strands its caller. When the write of a request fails while its caller is
  still inside \<open>WakeWriter\<close>, \<open>CompletePending\<close> resumes a running coroutine, which throws: the
  connection is closed and the call marked completed, but the caller then suspends itself and,
  having no timeout, is never resumed, whatever happens afterwards.
\<close>

theorem write_failure_strands_caller:
  "\<exists>s. reach (conn_start default_connection_limits) conn_step s \<and> conn_state (conn s) = CLOSED \<and> jobs s = [] \<and>
     {t. conn_step\<^sup>*\<^sup>* s t} \<subseteq> {t. phases t 1 = Some (Waiting 1 False)}"
proof -
  let ?s = "idle_sys default_connection_limits"
  let ?m = "no_metrics\<lparr>calls_started := 1\<rparr>"
  let ?p = "(waiting_call 1 1)\<lparr>sent := True\<rparr>"
  have k: "kNoTimeout \<noteq> 0" by (simp add: kNoTimeout_def)
  have js: "jobs ?s = []" by (simp add: idle_sys_def)
  have r1: "reach (conn_start default_connection_limits) conn_step
      (?s\<lparr>conn := open_conn CLOSED W_Failing [(1, ?p)] [] [] (?m\<lparr>connection_failures := 1\<rparr>),
        phases := [1 \<mapsto> Calling 1 False], jobs := [Job ByWriter CALL_CONNECTION_CLOSED [1]]\<rparr>)"
    by (rule reach_eq_step [OF run_one_call [OF k] step_write_failed])
       (simp_all add: start_job_def FailBegin_def unfinished_ids_def Let_def open_conn_def waiting_call_def
         new_pending_def idle_sys_def)
  let ?q = "?p\<lparr>completed := True, pc_status := CALL_CONNECTION_CLOSED, pc_response := empty_frame\<rparr>"
  have r2: "reach (conn_start default_connection_limits) conn_step
      (?s\<lparr>conn := open_conn CLOSED W_Threw [(1, ?q)] [] [] (?m\<lparr>connection_failures := 1\<rparr>),
        phases := [1 \<mapsto> Calling 1 False], jobs := [], thrown := True\<rparr>)"
    by (rule reach_eq_step [OF r1 step_job_throw [where js = "[]" and js' = "[]" and ids = "[]" and rid = 1 and k = 1
            and who = ByWriter and st = CALL_CONNECTION_CLOSED
            and c = "open_conn CLOSED W_Failing [(1, ?q)] [] [] (?m\<lparr>connection_failures := 1\<rparr>)"]])
       (simp_all add: CompletePending_def find_pending_def map_pending_def MaybeFinishDrain_def open_conn_def
         waiting_call_def new_pending_def Let_def resume_caller_def)
  let ?t = "?s\<lparr>conn := open_conn CLOSED W_Threw [(1, ?q)] [] [] (?m\<lparr>connection_failures := 1\<rparr>),
        phases := [1 \<mapsto> Waiting 1 False], jobs := [], thrown := True\<rparr>"
  have r3: "reach (conn_start default_connection_limits) conn_step ?t"
    by (rule reach_eq_step [OF r2 step_yield [where k = 1 and rid = 1 and t = False]]) simp_all
  have "stranded 1 1 ?t" by (simp add: stranded_def core_def open_conn_def waiting_call_def)
  then have "conn_step\<^sup>*\<^sup>* ?t u \<Longrightarrow> phases u 1 = Some (Waiting 1 False)" for u
    using stranded_forever connection_system.reach_inv [OF r3] by (auto simp: stranded_def)
  with r3 show ?thesis by (intro exI [of _ ?t]) (auto simp: open_conn_def)
qed

section \<open>A call that is answered\<close>

lemma receive_split:
  assumes "receive cap data d = (NEED_MORE, d2)"
  obtains off d1 where "PrepareWritable cap d = (Some off, d1)"
    "CommitWritable (length data) (d1\<lparr>buffer := memcpy_at off data (buffer d1)\<rparr>) = (NEED_MORE, d2)"
  using assms by (auto simp: receive_def split: prod.splits option.splits)

text \<open>What the reader's decoder does with exactly the bytes of one frame.\<close>

lemma decode_one_frame:
  assumes "frame_fits f" "within_limits default_limits f" "length (frame_bytes f) \<le> kReadSize"
  obtains off d1 d2 d3 where "PrepareWritable kReadSize (new_decoder default_limits) = (Some off, d1)"
    "CommitWritable (length (frame_bytes f)) (d1\<lparr>buffer := memcpy_at off (frame_bytes f) (buffer d1)\<rparr>) = (NEED_MORE, d2)"
    "NextView d2 = (FRAME_READY, Some f, d3)"
proof -
  let ?d = "new_decoder default_limits"
  have room: "room_for default_limits kReadSize" by (simp add: room_for_def default_limits_def kReadSize_def)
  note D = new_decoder_inv [of default_limits] new_decoder_start [OF room]
  have "ReadableBytes ?d + kReadSize \<le> max_buffer_size (limits ?d)"
    using D room ReadableBytes_pending [OF D(1)] by (simp add: room_for_def)
  then obtain d2 where d2: "receive kReadSize (frame_bytes f) ?d = (NEED_MORE, d2)" "decoder_inv d2"
    "dec_state d2 \<noteq> FAILED" "limits d2 = default_limits" "pending_stream d2 = frame_bytes f"
    using received.deliver_appends [of ?d "frame_bytes f" kReadSize] D assms(3)
    by (auto simp: kReadSize_def)
  obtain st fo d3 where nv: "NextView d2 = (st, fo, d3)" by (metis prod_cases3)
  have "parse_frame default_limits (frame_bytes f) = Got f []"
    using parse_frame_bytes [OF assms(1,2), of "[]"] by simp
  with NextView_refines [OF d2(2,3) nv] d2(4,5) have "st = FRAME_READY" "fo = Some f"
    by (auto simp: next_outcome_def)
  with nv receive_split [OF d2(1)] that show thesis by metis
qed

lemma run_response:
  assumes f: "frame_fits f" "within_limits default_limits f" "length (frame_bytes f) \<le> kReadSize"
    and r: "message_type (header f) = RESPONSE" "request_id (header f) = 1"
  shows "\<exists>s c. reach (conn_start default_connection_limits) conn_step s \<and> phases s 1 = Some (Finishing 1 False) \<and>
     CallFinish 1 False (conn s) =
       (\<lparr>call_status = CALL_OK, rpc_status = ResponseStatus f, result_request_id = 1, response = f\<rparr>, c)"
proof -
  let ?s = "idle_sys default_connection_limits"
  let ?R = "reach (conn_start default_connection_limits) conn_step"
  let ?m = "no_metrics\<lparr>calls_started := 1\<rparr>"
  let ?p = "(waiting_call 1 1)\<lparr>sent := True\<rparr>"
  let ?c = "open_conn READY W_Writing [(1, ?p)] [] [] ?m"
  obtain off d1 d2 d3 where D: "PrepareWritable kReadSize (new_decoder default_limits) = (Some off, d1)"
    "CommitWritable (length (frame_bytes f)) (d1\<lparr>buffer := memcpy_at off (frame_bytes f) (buffer d1)\<rparr>) = (NEED_MORE, d2)"
    "NextView d2 = (FRAME_READY, Some f, d3)" using decode_one_frame [OF f] .
  have k: "kNoTimeout \<noteq> 0" by (simp add: kNoTimeout_def)
  have "32 \<le> length (frame_bytes f)" by (simp add: frame_bytes_def)
  then have ne: "frame_bytes f \<noteq> []" by auto
  have r1: "?R (?s\<lparr>conn := ?c, phases := [1 \<mapsto> Waiting 1 False]\<rparr>)"
    by (rule reach_eq_step [OF run_one_call [OF k] step_yield [where k = 1 and rid = 1 and t = False]]) simp_all
  have r2: "?R (?s\<lparr>conn := ?c\<lparr>decoder := d1, reader := R_Reading off\<rparr>, phases := [1 \<mapsto> Waiting 1 False]\<rparr>)"
    by (rule reach_eq_step [OF r1 step_prepare [where c = "?c\<lparr>decoder := d1, reader := R_Reading off\<rparr>"]])
       (simp_all add: quiet_def open_conn_def ReaderPrepare_def conn_live_def D)
  have r3: "?R (?s\<lparr>conn := ?c\<lparr>decoder := d2, reader := R_Decoding\<rparr>, phases := [1 \<mapsto> Waiting 1 False]\<rparr>)"
    by (rule reach_eq_step [OF r2 step_received [where off = off and data = "frame_bytes f"
            and c = "?c\<lparr>decoder := d2, reader := R_Decoding\<rparr>"]])
       (use f(3) in \<open>simp_all add: quiet_def open_conn_def ReaderReceived_def D ne\<close>)
  let ?q = "?p\<lparr>completed := True, pc_status := CALL_OK, pc_response := f\<rparr>"
  let ?c4 = "(open_conn READY W_Writing [(1, ?q)] [] [] (?m\<lparr>calls_completed := 1\<rparr>))\<lparr>decoder := d3, reader := R_Decoding\<rparr>"
  have "ReaderNext (?c\<lparr>decoder := d2, reader := R_Decoding\<rparr>) = (FrameFor 1 f, ?c\<lparr>decoder := d3, reader := R_Decoding\<rparr>)"
    using D(3) r by (simp add: ReaderNext_def)
  moreover have "ReaderDeliver 1 f (?c\<lparr>decoder := d3, reader := R_Decoding\<rparr>) = (Some 1, ?c4)"
    by (simp add: ReaderDeliver_def CompletePending_def find_pending_def open_conn_def waiting_call_def new_pending_def
        map_pending_def MaybeFinishDrain_def Let_def)
  ultimately have r4: "?R (?s\<lparr>conn := ?c4, phases := [1 \<mapsto> Woken 1]\<rparr>)"
    by (intro reach_eq_step [OF r3 step_frame [where k = 1 and ph = "[1 \<mapsto> Woken 1]" and rid = 1 and f = f
          and c = "?c\<lparr>decoder := d3, reader := R_Decoding\<rparr>" and c' = ?c4]])
       (auto simp: quiet_def resume_caller_def)
  have r5: "?R (?s\<lparr>conn := ?c4, phases := [1 \<mapsto> Finishing 1 False]\<rparr>)"
    by (rule reach_eq_step [OF r4 step_woken [where k = 1 and rid = 1 and b = False and c = ?c4]])
       (simp_all add: CallTimedOut_def find_pending_def open_conn_def)
  show ?thesis
    by (intro exI conjI, rule r5) (simp_all add: CallFinish_def find_pending_def open_conn_def Let_def)
qed

definition sample_response :: Frame where
  "sample_response = \<lparr>header = \<lparr>flags = 0, message_type = RESPONSE, request_id = 1\<rparr>, metadata = [], body = ''ok''\<rparr>"

lemma sample_response_ok:
  "frame_fits sample_response" "within_limits default_limits sample_response"
  "length (frame_bytes sample_response) \<le> kReadSize" "message_type (header sample_response) = RESPONSE"
  "request_id (header sample_response) = 1"
  by (simp_all add: sample_response_def frame_fits_def header_ok_def IsValidMessageType_def message_types word_le_nat_alt
      within_limits_def default_limits_def frame_bytes_def kReadSize_def)

theorem response_matches_request_witness:
  "\<exists>s r c. reach (conn_start default_connection_limits) conn_step s \<and> phases s 1 = Some (Finishing 1 False) \<and>
     CallFinish 1 False (conn s) = (r, c) \<and> call_status r = CALL_OK \<and> request_id (header (response r)) = 1"
proof -
  obtain s c where s: "reach (conn_start default_connection_limits) conn_step s" "phases s 1 = Some (Finishing 1 False)"
    "CallFinish 1 False (conn s) = (\<lparr>call_status = CALL_OK, rpc_status = ResponseStatus sample_response,
       result_request_id = 1, response = sample_response\<rparr>, c)"
    using run_response [OF sample_response_ok] by (elim exE conjE) (rule that)
  show ?thesis
    by (intro exI conjI, rule s(1), rule s(2), rule s(3)) (use response_matches_request [OF s] in simp_all)
qed

theorem connection_bounds_witness:
  "\<exists>s. reach (conn_start default_connection_limits) conn_step s \<and> length (pending_calls (conn s)) = 1 \<and>
     outbound_bytes (conn s) \<le> 16 * 1024 * 1024"
proof -
  have t: "(1 :: u64) \<noteq> 0" by simp
  let ?s = "(idle_sys default_connection_limits)\<lparr>conn := open_conn READY W_Writing [(1, (waiting_call 1 1)\<lparr>sent := True\<rparr>)]
     [] [] (no_metrics\<lparr>calls_started := 1\<rparr>), phases := [1 \<mapsto> Calling 1 ((1 :: u64) \<noteq> kNoTimeout)]\<rparr>"
  have a: "length (pending_calls (conn ?s)) = 1" by (simp add: open_conn_def)
  have b: "outbound_bytes (conn ?s) \<le> 16 * 1024 * 1024"
    using connection_bounds [OF run_one_call [OF t]] by (simp add: default_connection_limits_def)
  show ?thesis by (rule exI [of _ ?s], intro conjI, rule run_one_call [OF t], rule a, rule b)
qed

text \<open>A run in which the connection is closed while one call waits.\<close>

lemma run_close:
  "\<exists>s. reach (conn_start default_connection_limits) conn_step s \<and> conn_state (conn s) = CLOSED \<and> jobs s = [] \<and>
     \<not> thrown s \<and> phases s 1 = Some (Woken 1)"
proof -
  let ?s = "idle_sys default_connection_limits"
  let ?R = "reach (conn_start default_connection_limits) conn_step"
  let ?m = "no_metrics\<lparr>calls_started := 1\<rparr>"
  let ?p = "(waiting_call 1 1)\<lparr>sent := True\<rparr>"
  have k: "kNoTimeout \<noteq> 0" by (simp add: kNoTimeout_def)
  have r1: "?R (?s\<lparr>conn := open_conn READY W_Writing [(1, ?p)] [] [] ?m, phases := [1 \<mapsto> Waiting 1 False]\<rparr>)"
    by (rule reach_eq_step [OF run_one_call [OF k] step_yield [where k = 1 and rid = 1 and t = False]]) simp_all
  let ?c2 = "(open_conn CLOSING W_Writing [(1, ?p)] [] [] ?m)\<lparr>conn_fd := False\<rparr>"
  have r2: "?R (?s\<lparr>conn := ?c2, phases := [1 \<mapsto> Waiting 1 False], jobs := [Job ByCloser CALL_CONNECTION_CLOSED [1]]\<rparr>)"
    by (rule reach_eq_step [OF r1 step_close])
       (simp add: start_job_def Close_def CloseBegin_def unfinished_ids_def Let_def open_conn_def waiting_call_def
         new_pending_def idle_sys_def)
  let ?q = "?p\<lparr>completed := True, pc_status := CALL_CONNECTION_CLOSED, pc_response := empty_frame\<rparr>"
  let ?c3 = "open_conn CLOSED W_Writing [(1, ?q)] [] [] ?m"
  have c3: "CompletePending 1 CALL_CONNECTION_CLOSED empty_frame ?c2 = (Some 1, ?c3)"
    by (simp add: CompletePending_def find_pending_def map_pending_def MaybeFinishDrain_def HasUnfinishedPending_def
         CloseBegin_def CloseEnd_def WakeWriter_def open_conn_def waiting_call_def new_pending_def Let_def)
  have r3: "?R (?s\<lparr>conn := ?c3, phases := [1 \<mapsto> Woken 1], jobs := [Job ByCloser CALL_CONNECTION_CLOSED []]\<rparr>)"
    by (rule reach_eq_step [OF r2 step_job_resume [where js = "[]" and js' = "[]" and ids = "[]" and rid = 1 and k = 1
            and who = ByCloser and st = CALL_CONNECTION_CLOSED and c = ?c3 and ph = "[1 \<mapsto> Woken 1]"]])
       (simp, rule trans [OF _ c3], simp, simp add: resume_caller_def, simp)
  have r4: "?R (?s\<lparr>conn := job_end ByCloser ?c3, phases := [1 \<mapsto> Woken 1], jobs := []\<rparr>)"
    by (rule reach_eq_step [OF r3 step_job_end [where js = "[]" and js' = "[]" and who = ByCloser
            and st = CALL_CONNECTION_CLOSED]]) simp_all
  show ?thesis
    by (rule exI [of _ "?s\<lparr>conn := job_end ByCloser ?c3, phases := [1 \<mapsto> Woken 1], jobs := []\<rparr>"], intro conjI, rule r4)
       (simp_all add: open_conn_def idle_sys_def)
qed

theorem closed_connection_wakes_all_witness:
  "\<exists>s x rid b. reach (conn_start default_connection_limits) conn_step s \<and> conn_state (conn s) = CLOSED \<and>
     phases s 1 = Some x \<and> (x = Woken rid \<or> x = Finishing rid b)"
proof -
  obtain s where s: "reach (conn_start default_connection_limits) conn_step s" "conn_state (conn s) = CLOSED"
    "jobs s = []" "\<not> thrown s" "phases s 1 = Some (Woken 1)"
    using run_close by (elim exE conjE) (rule that)
  from closed_connection_wakes_all [OF s] obtain rid b where x: "Woken 1 = Woken rid \<or> Woken 1 = Finishing rid b"
    by (elim exE) (rule that)
  show ?thesis
    by (rule exI [of _ s], rule exI [of _ "Woken 1"], rule exI [of _ rid], rule exI [of _ b], intro conjI s x)
qed

section \<open>A drain that does not end\<close>

abbreviation conn_run :: "Conn \<Rightarrow> (nat \<Rightarrow> CallPhase option) \<Rightarrow> bool" where
  "conn_run c ph \<equiv> reach (conn_start default_connection_limits) conn_step
  ((idle_sys default_connection_limits)\<lparr>conn := c, phases := ph\<rparr>)"

lemma run_yield:
  assumes "conn_run c (ph(k \<mapsto> Calling rid t))"
  shows "conn_run c (ph(k \<mapsto> Waiting rid t))"
  by (rule reach_eq_step [OF assms step_yield [where k = k and rid = rid and t = t]]) simp_all

lemma run_timeout:
  assumes "conn_run c (ph(k \<mapsto> Waiting rid True))" and "CallTimedOut rid c = (b, c1)" and "CallFinish rid b c1 = (r, c2)"
  shows "conn_run c2 (ph(k := None))"
proof -
  have r1: "conn_run c (ph(k \<mapsto> Woken rid))"
    by (rule reach_eq_step [OF assms(1) step_timer [where k = k and rid = rid]]) simp_all
  have r2: "conn_run c1 (ph(k \<mapsto> Finishing rid b))"
    by (rule reach_eq_step [OF r1 step_woken [where k = k and rid = rid and b = b and c = c1]]) (simp_all add: assms(2))
  show ?thesis
    by (rule reach_eq_step [OF r2 step_finish [where k = k and rid = rid and b = b and c = c2 and r = r]])
       (simp_all add: assms(3))
qed

abbreviation "sent_call \<equiv> (waiting_call 1 1)\<lparr>sent := True\<rparr>"


end
