(* ===== verification/ClientShards.thy ===== *)
theory ClientShards
  imports CircuitBreaker Connection
begin

text \<open>
  The shards of the client and how tasks reach them: \<open>ClientShard\<close>, \<open>ValidateOptions\<close>, \<open>StartOwned\<close>,
  \<open>PickShard\<close>, \<open>SubmitTask\<close> and \<open>Stop\<close> of \<open>transport/rpc_client.cpp\<close>.

  Submission is lock-free: a user thread picks a shard, reserves a slot with a compare-and-swap,
  checks again that the shard accepts work, and posts the task; the shard's thread runs the task,
  completes it and releases the slot, while another thread may stop the client. Each definition
  below is one atomic stretch of these; the step relation \<open>submit_step\<close> interleaves any number of
  submitters, the shards and \<open>Stop\<close>. \<open>SubmitTask\<close> composes the stretches of one thread.

  A counter that is raised once per event and would need $2^{64}$ events to wrap (the generation of
  the services, the objects on a heap) is a natural number.
\<close>

section \<open>Options\<close>

record RpcClientOptions =
  zookeeper_hosts :: string
  service_root :: string
  zookeeper_session_timeout_ms :: int
  connect_timeout_ms :: u64
  connection_limits :: ConnectionLimits
  circuit_breaker :: CircuitBreakerOptions
  retry :: RetryOptions
  io_threads :: nat
  max_calls_per_shard :: nat
  soft_capacity_percent :: nat

definition default_client_options :: RpcClientOptions where
  "default_client_options = \<lparr>zookeeper_hosts = ''127.0.0.1:2181'', service_root = ''/rpc'',
     zookeeper_session_timeout_ms = 10 * 1000, connect_timeout_ms = 1000,
     connection_limits = default_connection_limits, circuit_breaker = default_breaker_options,
     retry = default_retry_options, io_threads = 1, max_calls_per_shard = 4096,
     soft_capacity_percent = 80\<rparr>"

definition ValidateOptions :: "RpcClientOptions \<Rightarrow> bool" where
  "ValidateOptions opts =
     (let retry = retry opts; cb = circuit_breaker opts
      in io_threads opts > 0 \<and> max_calls_per_shard opts > 0 \<and>
         soft_capacity_percent opts \<le> 100 \<and> connect_timeout_ms opts > 0 \<and>
         max_attempts retry \<noteq> 0 \<and> retry_budget_capacity retry \<noteq> 0 \<and> base_backoff_ms retry \<noteq> 0 \<and>
         max_backoff_ms retry \<ge> base_backoff_ms retry \<and>
         window_size cb > 0 \<and>
         minimum_requests cb \<le> window_size cb \<and>
         failure_threshold_percent cb \<le> 100 \<and>
         open_interval_ms cb > 0 \<and>
         max_open_interval_ms cb \<ge> open_interval_ms cb \<and>
         half_open_max_probes cb > 0)"

section \<open>Shards\<close>

text \<open>
  A cached route names its breaker and its connection by address on the heaps below, as the
  pointers of the code do.
\<close>

record CachedRoute =
  route_generation :: nat
  route_service :: string
  route_method :: string
  route_schema :: string
  route_endpoint_key :: string
  route_address :: "u32 \<times> u16"
  route_breaker :: "nat option"
  route_connection :: "nat option"

definition empty_route :: CachedRoute where
  "empty_route = \<lparr>route_generation = 0, route_service = [], route_method = [], route_schema = [],
     route_endpoint_key = [], route_address = (0, 0), route_breaker = None, route_connection = None\<rparr>"

datatype ShardTask = CallTask nat | RetireTask "string list"

record ClientShard =
  hard_capacity :: nat
  soft_capacity :: nat
  accepting :: bool
  shard_stopping :: bool
  has_runtime :: bool
  reserved_calls :: nat
  inbox :: "ShardTask list"
  conn_heap :: "(Conn \<times> (u32 \<times> u16)) list"
  connections :: "(string \<times> nat) list"
  cached_route :: CachedRoute

text \<open>The product in the soft capacity is a \<open>size_t\<close> and wraps.\<close>

definition new_shard :: "RpcClientOptions \<Rightarrow> ClientShard" where
  "new_shard opts =
     \<lparr>hard_capacity = max_calls_per_shard opts,
      soft_capacity = max 1 ((max_calls_per_shard opts * soft_capacity_percent opts) mod 2 ^ 64 div 100),
      accepting = True, shard_stopping = False, has_runtime = True, reserved_calls = 0, inbox = [],
      conn_heap = [], connections = [], cached_route = empty_route\<rparr>"

definition Post :: "bool \<Rightarrow> ShardTask \<Rightarrow> ClientShard \<Rightarrow> bool \<times> ClientShard" where
  "Post throws task sh =
     (if \<not> accepting sh \<or> \<not> has_runtime sh then (False, sh)
      else if throws then (False, sh)
      else (True, sh\<lparr>inbox := inbox sh @ [task]\<rparr>))"

text \<open>
  \<open>TryReserve\<close> up to its compare-and-swap, which succeeds on the value the loop has read last, and
  the second look at \<open>accepting\<close> after it.
\<close>

definition TryReserveSwap :: "bool \<Rightarrow> ClientShard \<Rightarrow> bool \<times> ClientShard" where
  "TryReserveSwap soft sh =
     (if \<not> accepting sh then (False, sh)
      else let limit = (if soft then soft_capacity sh else hard_capacity sh)
           in if reserved_calls sh < limit then (True, sh\<lparr>reserved_calls := reserved_calls sh + 1\<rparr>)
              else (False, sh))"

definition TryReserveCheck :: "ClientShard \<Rightarrow> bool \<times> ClientShard" where
  "TryReserveCheck sh =
     (if accepting sh then (True, sh) else (False, sh\<lparr>reserved_calls := reserved_calls sh - 1\<rparr>))"

definition TryReserve :: "bool \<Rightarrow> ClientShard \<Rightarrow> bool \<times> ClientShard" where
  "TryReserve soft sh =
     (case TryReserveSwap soft sh of (False, sh) \<Rightarrow> (False, sh) | (True, sh) \<Rightarrow> TryReserveCheck sh)"

text \<open>\<open>None\<close> is the call of \<open>std::terminate\<close>.\<close>

definition Release :: "ClientShard \<Rightarrow> ClientShard option" where
  "Release sh = (if reserved_calls sh = 0 then None else Some (sh\<lparr>reserved_calls := reserved_calls sh - 1\<rparr>))"

text \<open>The first two stores of \<open>ClientShard::Stop\<close>; it then wakes the shard's thread and joins it.\<close>

definition ShardStop :: "ClientShard \<Rightarrow> ClientShard" where
  "ShardStop sh = sh\<lparr>accepting := False, shard_stopping := True\<rparr>"

section \<open>The client\<close>

record RpcClient =
  options :: RpcClientOptions
  client_stopping :: bool
  dedicated :: bool
  next_shard :: u64
  shards :: "ClientShard list"
  services :: "(string \<times> (string \<times> Endpoint) list) list"
  breakers :: "string \<Rightarrow> nat option"
  breaker_heap :: "Breaker list"
  services_generation :: nat
  watch_requests :: "string list"

definition new_client :: "RpcClientOptions \<Rightarrow> bool \<Rightarrow> RpcClient" where
  "new_client opts ded =
     \<lparr>options = opts, client_stopping = False, dedicated = ded, next_shard = 0, shards = [], services = [],
      breakers = (\<lambda>_. None), breaker_heap = [], services_generation = 1, watch_requests = []\<rparr>"

text \<open>\<open>ok\<close> is whether the shard's thread could create its runtime.\<close>

definition StartShard :: "bool \<Rightarrow> RpcClient \<Rightarrow> bool \<times> RpcClient" where
  "StartShard ok cl =
     (if client_stopping cl \<or> length (shards cl) \<ge> io_threads (options cl) then (False, cl)
      else if \<not> ok then (False, cl)
      else (True, cl\<lparr>shards := shards cl @ [new_shard (options cl)]\<rparr>))"

fun start_shards :: "bool list \<Rightarrow> RpcClient \<Rightarrow> bool \<times> RpcClient" where
  "start_shards [] cl = (True, cl)"
| "start_shards (ok # oks) cl =
     (case StartShard ok cl of (False, cl) \<Rightarrow> (False, cl) | (True, cl) \<Rightarrow> start_shards oks cl)"

text \<open>\<open>oks i\<close> is the outcome of starting shard \<open>i\<close>.\<close>

definition StartOwned :: "(nat \<Rightarrow> bool) \<Rightarrow> RpcClient \<Rightarrow> bool \<times> RpcClient" where
  "StartOwned oks cl =
     (if \<not> dedicated cl then (True, cl)
      else start_shards (map oks [0..<io_threads (options cl)]) cl)"

text \<open>The linear congruential generator of a thread: the new state is the number drawn.\<close>

definition NextRandom :: "u64 \<Rightarrow> u64" where
  "NextRandom state = state * 1103515245 + 12345"

definition PickShard :: "u64 \<Rightarrow> RpcClient \<Rightarrow> nat option \<times> u64 \<times> RpcClient" where
  "PickShard rnd cl =
     (if client_stopping cl \<or> shards cl = [] then (None, rnd, cl)
      else let count = length (shards cl);
               i = unat (next_shard cl) mod count;
               cl = cl\<lparr>next_shard := next_shard cl + 1\<rparr>
           in if count = 1 then (Some i, rnd, cl)
              else let rnd = NextRandom rnd;
                       j = (i + 1 + unat rnd mod (count - 1)) mod count
                   in (Some (if reserved_calls (shards cl ! i) \<le> reserved_calls (shards cl ! j) then i else j),
                       rnd, cl))"

definition set_shard :: "nat \<Rightarrow> ClientShard \<Rightarrow> RpcClient \<Rightarrow> RpcClient" where
  "set_shard i sh cl = cl\<lparr>shards := (shards cl)[i := sh]\<rparr>"

text \<open>\<open>RpcClient::Stop\<close>, the stop of the discovery apart.\<close>

definition ClientStop :: "RpcClient \<Rightarrow> RpcClient" where
  "ClientStop cl =
     (if client_stopping cl then cl
      else cl\<lparr>client_stopping := True, shards := map ShardStop (shards cl)\<rparr>)"

text \<open>
  What \<open>SubmitTask\<close> does when no other thread interferes. A rejected task is completed at once
  with the exception's message; an accepted one waits in the inbox of its shard.
\<close>

datatype Submitted = RejectedTask string | QueuedTask nat

definition SubmitPost :: "bool \<Rightarrow> nat \<Rightarrow> nat \<Rightarrow> ClientShard \<Rightarrow> RpcClient \<Rightarrow> (Submitted \<times> RpcClient) option" where
  "SubmitPost throws task i sh cl =
     (case Post throws (CallTask task) sh of
        (True, sh) \<Rightarrow> Some (QueuedTask i, set_shard i sh cl)
      | (False, sh) \<Rightarrow>
          (case Release sh of
             None \<Rightarrow> None
           | Some sh \<Rightarrow> Some (RejectedTask ''RpcClient: failed to post task'', set_shard i sh cl)))"

definition SubmitTo :: "bool \<Rightarrow> nat \<Rightarrow> nat \<Rightarrow> RpcClient \<Rightarrow> (Submitted \<times> RpcClient) option" where
  "SubmitTo throws task i cl =
     (case TryReserve False (shards cl ! i) of
        (False, sh) \<Rightarrow> Some (RejectedTask ''RpcClient shard overloaded; task rejected'', set_shard i sh cl)
      | (True, sh) \<Rightarrow> SubmitPost throws task i sh cl)"

definition SubmitTask :: "u64 \<Rightarrow> bool \<Rightarrow> nat \<Rightarrow> RpcClient \<Rightarrow> (Submitted \<times> RpcClient) option" where
  "SubmitTask rnd throws task cl =
     (case PickShard rnd cl of
        (None, _, cl) \<Rightarrow> Some (RejectedTask ''RpcClient is stopping; task rejected'', cl)
      | (Some i, _, cl) \<Rightarrow> SubmitTo throws task i cl)"

section \<open>All threads together\<close>

text \<open>
  Where a task is: \<open>PickedAt\<close> after \<open>PickShard\<close>, \<open>SwappedAt\<close> after the compare-and-swap, \<open>ReservedAt\<close>
  once the slot is confirmed, \<open>QueuedAt\<close> in the inbox, \<open>RunningAt\<close> started by the shard, \<open>CompletedAt\<close>
  after \<open>CompleteTask\<close> and before \<open>Release\<close>; a task that was rejected or whose slot was
  released is \<open>Finished\<close>.
\<close>

datatype TaskPhase =
    PickedAt nat | SwappedAt nat | ReservedAt nat | QueuedAt nat | RunningAt nat | CompletedAt nat | Finished

record SubmitSys =
  client :: RpcClient
  tasks :: "nat \<Rightarrow> TaskPhase option"
  ended :: "nat set"
  terminated :: bool

fun holds_slot :: "nat \<Rightarrow> TaskPhase \<Rightarrow> bool" where
  "holds_slot i (SwappedAt j) = (i = j)"
| "holds_slot i (ReservedAt j) = (i = j)"
| "holds_slot i (QueuedAt j) = (i = j)"
| "holds_slot i (RunningAt j) = (i = j)"
| "holds_slot i (CompletedAt j) = (i = j)"
| "holds_slot i _ = False"

text \<open>
  A shard's thread leaves once it is told to stop and none of its coroutines is alive:
  \<open>RunUntil\<close> looks at the flag before it drains the inbox, and \<open>Join\<close> drives the loop only while
  coroutines are alive. (The coroutines of the shard's connections are not part of this relation,
  so it lets a shard leave in more states than the code does.)
\<close>

inductive submit_step :: "SubmitSys \<Rightarrow> SubmitSys \<Rightarrow> bool" where
  submit_pick: "tasks s t = None \<Longrightarrow> PickShard rnd (client s) = (Some i, rnd', cl) \<Longrightarrow>
    submit_step s (s\<lparr>client := cl, tasks := (tasks s)(t \<mapsto> PickedAt i)\<rparr>)"
| submit_no_shard: "tasks s t = None \<Longrightarrow> PickShard rnd (client s) = (None, rnd', cl) \<Longrightarrow>
    submit_step s (s\<lparr>client := cl, tasks := (tasks s)(t \<mapsto> Finished)\<rparr>)"
| submit_swap: "tasks s t = Some (PickedAt i) \<Longrightarrow> TryReserveSwap False (shards (client s) ! i) = (True, sh) \<Longrightarrow>
    submit_step s (s\<lparr>client := set_shard i sh (client s), tasks := (tasks s)(t \<mapsto> SwappedAt i)\<rparr>)"
| submit_full: "tasks s t = Some (PickedAt i) \<Longrightarrow> TryReserveSwap False (shards (client s) ! i) = (False, sh) \<Longrightarrow>
    submit_step s (s\<lparr>client := set_shard i sh (client s), tasks := (tasks s)(t \<mapsto> Finished)\<rparr>)"
| submit_check: "tasks s t = Some (SwappedAt i) \<Longrightarrow> TryReserveCheck (shards (client s) ! i) = (True, sh) \<Longrightarrow>
    submit_step s (s\<lparr>client := set_shard i sh (client s), tasks := (tasks s)(t \<mapsto> ReservedAt i)\<rparr>)"
| submit_check_failed: "tasks s t = Some (SwappedAt i) \<Longrightarrow> TryReserveCheck (shards (client s) ! i) = (False, sh) \<Longrightarrow>
    submit_step s (s\<lparr>client := set_shard i sh (client s), tasks := (tasks s)(t \<mapsto> Finished)\<rparr>)"
| submit_post: "tasks s t = Some (ReservedAt i) \<Longrightarrow>
    Post throws (CallTask t) (shards (client s) ! i) = (True, sh) \<Longrightarrow>
    submit_step s (s\<lparr>client := set_shard i sh (client s), tasks := (tasks s)(t \<mapsto> QueuedAt i)\<rparr>)"
| submit_post_failed: "tasks s t = Some (ReservedAt i) \<Longrightarrow>
    Post throws (CallTask t) (shards (client s) ! i) = (False, sh) \<Longrightarrow> Release sh = Some sh' \<Longrightarrow>
    submit_step s (s\<lparr>client := set_shard i sh' (client s), tasks := (tasks s)(t \<mapsto> Finished)\<rparr>)"
| submit_post_terminate: "tasks s t = Some (ReservedAt i) \<Longrightarrow>
    Post throws (CallTask t) (shards (client s) ! i) = (False, sh) \<Longrightarrow> Release sh = None \<Longrightarrow>
    submit_step s (s\<lparr>terminated := True\<rparr>)"
| shard_start: "tasks s t = Some (QueuedAt i) \<Longrightarrow> i \<notin> ended s \<Longrightarrow> inbox (shards (client s) ! i) = CallTask t # rest \<Longrightarrow>
    submit_step s (s\<lparr>client := set_shard i ((shards (client s) ! i)\<lparr>inbox := rest\<rparr>) (client s),
      tasks := (tasks s)(t \<mapsto> RunningAt i)\<rparr>)"
| shard_complete: "tasks s t = Some (RunningAt i) \<Longrightarrow>
    submit_step s (s\<lparr>tasks := (tasks s)(t \<mapsto> CompletedAt i)\<rparr>)"
| shard_release: "tasks s t = Some (CompletedAt i) \<Longrightarrow> Release (shards (client s) ! i) = Some sh \<Longrightarrow>
    submit_step s (s\<lparr>client := set_shard i sh (client s), tasks := (tasks s)(t \<mapsto> Finished)\<rparr>)"
| shard_terminate: "tasks s t = Some (CompletedAt i) \<Longrightarrow> Release (shards (client s) ! i) = None \<Longrightarrow>
    submit_step s (s\<lparr>terminated := True\<rparr>)"
| shard_leave: "i < length (shards (client s)) \<Longrightarrow> shard_stopping (shards (client s) ! i) \<Longrightarrow>
    \<forall>t. tasks s t \<noteq> Some (RunningAt i) \<and> tasks s t \<noteq> Some (CompletedAt i) \<Longrightarrow>
    submit_step s (s\<lparr>ended := insert i (ended s)\<rparr>)"
| client_stop: "submit_step s (s\<lparr>client := ClientStop (client s)\<rparr>)"

definition submit_start :: "RpcClientOptions \<Rightarrow> SubmitSys \<Rightarrow> bool" where
  "submit_start opts s \<longleftrightarrow> ValidateOptions opts \<and> StartOwned (\<lambda>_. True) (new_client opts True) = (True, client s) \<and>
     tasks s = (\<lambda>_. None) \<and> ended s = {} \<and> \<not> terminated s"

lemmas shard_defs = Post_def TryReserveSwap_def TryReserveCheck_def Release_def ShardStop_def

definition slots :: "SubmitSys \<Rightarrow> nat \<Rightarrow> nat set" where
  "slots s i = {t. case tasks s t of None \<Rightarrow> False | Some p \<Rightarrow> holds_slot i p}"

definition queued :: "SubmitSys \<Rightarrow> nat \<Rightarrow> nat set" where
  "queued s i = {t. tasks s t = Some (QueuedAt i)}"

fun phase_shard :: "TaskPhase \<Rightarrow> nat option" where
  "phase_shard (PickedAt i) = Some i"
| "phase_shard (SwappedAt i) = Some i"
| "phase_shard (ReservedAt i) = Some i"
| "phase_shard (QueuedAt i) = Some i"
| "phase_shard (RunningAt i) = Some i"
| "phase_shard (CompletedAt i) = Some i"
| "phase_shard Finished = None"

definition shard_ok :: "SubmitSys \<Rightarrow> nat \<Rightarrow> ClientShard \<Rightarrow> bool" where
  "shard_ok s i sh \<longleftrightarrow> reserved_calls sh = card (slots s i) \<and> reserved_calls sh \<le> hard_capacity sh \<and>
     distinct (inbox sh) \<and> set (inbox sh) = CallTask ` queued s i"

definition submit_inv :: "SubmitSys \<Rightarrow> bool" where
  "submit_inv s \<longleftrightarrow> finite (dom (tasks s)) \<and> \<not> terminated s \<and>
     (\<forall>t p i. tasks s t = Some p \<longrightarrow> phase_shard p = Some i \<longrightarrow> i < length (shards (client s))) \<and>
     (\<forall>i < length (shards (client s)). shard_ok s i (shards (client s) ! i))"

lemma submit_invI:
  assumes "finite (dom (tasks s))" "\<not> terminated s"
    and "\<And>t p i. tasks s t = Some p \<Longrightarrow> phase_shard p = Some i \<Longrightarrow> i < length (shards (client s))"
    and "\<And>i. i < length (shards (client s)) \<Longrightarrow> shard_ok s i (shards (client s) ! i)"
  shows "submit_inv s"
  using assms by (simp add: submit_inv_def)

lemma submit_invD:
  assumes "submit_inv s"
  shows "finite (dom (tasks s))" "\<not> terminated s"
    and "tasks s t = Some p \<Longrightarrow> phase_shard p = Some i \<Longrightarrow> i < length (shards (client s))"
    and "i < length (shards (client s)) \<Longrightarrow> shard_ok s i (shards (client s) ! i)"
  using assms by (auto simp: submit_inv_def)

lemma slots_subset: "slots s i \<subseteq> dom (tasks s)"
  by (auto simp: slots_def split: option.splits)

lemma finite_slots: "submit_inv s \<Longrightarrow> finite (slots s i)"
  using slots_subset submit_invD(1) finite_subset by metis

lemma holds_slot_shard: "holds_slot i p \<Longrightarrow> phase_shard p = Some i"
  by (cases p) auto

lemma slots_update:
  "slots (s\<lparr>client := cl, tasks := (tasks s)(t \<mapsto> p)\<rparr>) j =
     (if holds_slot j p then insert t (slots s j) else slots s j - {t})"
  by (auto simp: slots_def)

lemma queued_update:
  "queued (s\<lparr>client := cl, tasks := (tasks s)(t \<mapsto> p)\<rparr>) j =
     (if p = QueuedAt j then insert t (queued s j) else queued s j - {t})"
  by (auto simp: queued_def)

lemma in_slots_iff: "t \<in> slots s i \<longleftrightarrow> (\<exists>p. tasks s t = Some p \<and> holds_slot i p)"
  by (auto simp: slots_def split: option.splits)

text \<open>
  One step of task \<open>t\<close> at shard \<open>i\<close>: the invariant follows from what the step does to the slot
  count and the inbox of that shard.
\<close>

lemma submit_inv_update:
  assumes inv: "submit_inv s" and i: "i < length (shards (client s))"
    and old: "\<And>q. tasks s t = Some q \<Longrightarrow> phase_shard q = Some i"
    and new: "p \<noteq> Finished \<Longrightarrow> phase_shard p = Some i"
    and sh: "shard_ok (s\<lparr>client := cl, tasks := (tasks s)(t \<mapsto> p)\<rparr>) i sh"
    and cl: "shards cl = (shards (client s))[i := sh]"
  shows "submit_inv (s\<lparr>client := cl, tasks := (tasks s)(t \<mapsto> p)\<rparr>)"
proof (rule submit_invI, goal_cases)
  case 1
  then show ?case using submit_invD(1) [OF inv] by simp
next
  case 2
  then show ?case using submit_invD(2) [OF inv] by simp
next
  case (3 u q k)
  then show ?case
    using submit_invD(3) [OF inv] new i cl by (cases "u = t"; cases p) auto
next
  case (4 k)
  show ?case
  proof (cases "k = i")
    case True
    then show ?thesis using sh i cl by simp
  next
    case False
    have t: "t \<notin> slots s k" "t \<notin> queued s k"
      using old False by (auto simp: in_slots_iff queued_def dest: holds_slot_shard)
    have p: "\<not> holds_slot k p" "p \<noteq> QueuedAt k"
      using new False by (cases p; auto)+
    from 4 have "shard_ok s k (shards (client s) ! k)" using submit_invD(4) [OF inv] cl by simp
    with t p False cl show ?thesis by (simp add: shard_ok_def slots_update queued_update)
  qed
qed

lemma card_slots_pos: "submit_inv s \<Longrightarrow> t \<in> slots s i \<Longrightarrow> card (slots s i) > 0"
  using finite_slots card_gt_0_iff by blast

lemma shards_set_shard [simp]: "shards (set_shard i sh cl) = (shards cl)[i := sh]"
  by (simp add: set_shard_def)

lemma PickShard_shards:
  assumes "PickShard rnd cl = (r, rnd', cl')"
  shows "shards cl' = shards cl" and "r = Some i \<Longrightarrow> i < length (shards cl)"
  using assms by (auto simp: PickShard_def Let_def split: if_splits)

text \<open>The chosen shard is never busier than the other candidate.\<close>

lemma shard_ok_update:
  assumes inv: "submit_inv s" and i: "i < length (shards (client s))"
    and res: "reserved_calls sh = card (slots s i) + (if holds_slot i p \<and> t \<notin> slots s i then 1 else 0)
      - (if \<not> holds_slot i p \<and> t \<in> slots s i then 1 else 0)"
    and le: "reserved_calls sh \<le> hard_capacity sh"
    and box: "distinct (inbox sh)"
      "set (inbox sh) = CallTask ` (if p = QueuedAt i then insert t (queued s i) else queued s i - {t})"
  shows "shard_ok (s\<lparr>client := cl, tasks := (tasks s)(t \<mapsto> p)\<rparr>) i sh"
  using res le box finite_slots [OF inv, of i]
  by (auto simp: shard_ok_def slots_update queued_update card_insert_if card_Diff_singleton_if)

lemma queued_other: "tasks s t = Some p \<Longrightarrow> p \<noteq> QueuedAt i \<Longrightarrow> queued s i - {t} = queued s i"
  "tasks s t = None \<Longrightarrow> queued s i - {t} = queued s i"
  by (auto simp: queued_def)

lemma slots_phase: "tasks s t = Some p \<Longrightarrow> t \<in> slots s i \<longleftrightarrow> holds_slot i p"
  "tasks s t = None \<Longrightarrow> t \<notin> slots s i"
  by (auto simp: slots_def)

lemma slot_held: "submit_inv s \<Longrightarrow> tasks s t = Some p \<Longrightarrow> holds_slot i p \<Longrightarrow>
    i < length (shards (client s)) \<and> reserved_calls (shards (client s) ! i) > 0"
  using submit_invD(3,4) [of s] card_slots_pos [of s t i] holds_slot_shard slots_phase(1)
  by (metis shard_ok_def)

lemma Release_held: "submit_inv s \<Longrightarrow> tasks s t = Some p \<Longrightarrow> holds_slot i p \<Longrightarrow>
    Release (shards (client s) ! i) \<noteq> None"
  by (frule (2) slot_held) (simp add: Release_def)

lemma submit_inv_task:
  assumes inv: "submit_inv s" and i: "i < length (shards (client s))"
    and old: "\<And>q. tasks s t = Some q \<Longrightarrow> phase_shard q = Some i"
    and new: "p \<noteq> Finished \<Longrightarrow> phase_shard p = Some i"
    and cl: "shards cl = (shards (client s))[i := sh]"
    and res: "reserved_calls sh = reserved_calls (shards (client s) ! i)
      + (if holds_slot i p \<and> t \<notin> slots s i then 1 else 0)
      - (if \<not> holds_slot i p \<and> t \<in> slots s i then 1 else 0)"
    and le: "holds_slot i p \<Longrightarrow> t \<notin> slots s i \<Longrightarrow>
      reserved_calls (shards (client s) ! i) < hard_capacity (shards (client s) ! i)"
    and hard: "hard_capacity sh = hard_capacity (shards (client s) ! i)"
    and box: "inbox sh = (if p = QueuedAt i then inbox (shards (client s) ! i) @ [CallTask t]
      else removeAll (CallTask t) (inbox (shards (client s) ! i)))"
    and fresh: "p = QueuedAt i \<Longrightarrow> t \<notin> queued s i"
  shows "submit_inv (s\<lparr>client := cl, tasks := (tasks s)(t \<mapsto> p)\<rparr>)"
proof (rule submit_inv_update [OF inv i old new _ cl])
  note ok = submit_invD(4) [OF inv i, unfolded shard_ok_def]
  show "shard_ok (s\<lparr>client := cl, tasks := (tasks s)(t \<mapsto> p)\<rparr>) i sh"
  proof (rule shard_ok_update [OF inv i])
    show "reserved_calls sh = card (slots s i) + (if holds_slot i p \<and> t \<notin> slots s i then 1 else 0)
      - (if \<not> holds_slot i p \<and> t \<in> slots s i then 1 else 0)"
      using res ok by simp
    show "reserved_calls sh \<le> hard_capacity sh" using res le hard ok by (auto split: if_splits)
    show "distinct (inbox sh)" using box ok fresh by (auto simp: distinct_removeAll split: if_splits)
    show "set (inbox sh) = CallTask ` (if p = QueuedAt i then insert t (queued s i) else queued s i - {t})"
      using box ok by auto
  qed
qed

lemma not_in_inbox:
  assumes "submit_inv s" and "i < length (shards (client s))" and "tasks s t \<noteq> Some (QueuedAt i)"
  shows "removeAll (CallTask t) (inbox (shards (client s) ! i)) = inbox (shards (client s) ! i)"
  using submit_invD(4) [OF assms(1,2)] assms(3)
  by (intro removeAll_id) (auto simp: shard_ok_def queued_def)

lemma submit_inv_shards:
  assumes "submit_inv s" and "length (shards cl) = length (shards (client s))"
    and "\<And>i. i < length (shards cl) \<Longrightarrow>
      reserved_calls (shards cl ! i) = reserved_calls (shards (client s) ! i) \<and>
      hard_capacity (shards cl ! i) = hard_capacity (shards (client s) ! i) \<and>
      inbox (shards cl ! i) = inbox (shards (client s) ! i)"
  shows "submit_inv (s\<lparr>client := cl\<rparr>)"
proof (rule submit_invI)
  fix i assume i: "i < length (shards (client (s\<lparr>client := cl\<rparr>)))"
  have "shard_ok s i (shards (client s) ! i)" using submit_invD(4) [OF assms(1)] assms(2) i by simp
  moreover have "slots (s\<lparr>client := cl\<rparr>) i = slots s i" "queued (s\<lparr>client := cl\<rparr>) i = queued s i"
    by (simp_all add: slots_def queued_def)
  ultimately show "shard_ok (s\<lparr>client := cl\<rparr>) i (shards (client (s\<lparr>client := cl\<rparr>)) ! i)"
    using assms(3) [of i] i by (simp add: shard_ok_def)
qed (use submit_invD [OF assms(1)] assms(2) in auto)

lemma submit_inv_cong:
  "tasks s' = tasks s \<Longrightarrow> client s' = client s \<Longrightarrow> terminated s' = terminated s \<Longrightarrow> submit_inv s' = submit_inv s"
  by (simp add: submit_inv_def shard_ok_def slots_def queued_def)

lemma submit_step_inv:
  assumes "submit_step s s'" and "submit_inv s"
  shows "submit_inv s'"
  using assms
proof (induction rule: submit_step.induct)
  case (submit_pick s t rnd i rnd' cl)
  note P = PickShard_shards [OF submit_pick(2)]
  have i: "i < length (shards (client s))" using P(2) by simp
  note nb = not_in_inbox [OF submit_pick(3) i]
  show ?case
    by (rule submit_inv_task [OF submit_pick(3) i, where sh = "shards (client s) ! i"])
      (use submit_pick(1) nb i P in \<open>simp_all add: slots_phase queued_def\<close>)
next
  case (submit_no_shard s t rnd rnd' cl)
  have sh: "shards cl = shards (client s)" using PickShard_shards(1) [OF submit_no_shard(2)] .
  have "slots (s\<lparr>client := cl, tasks := (tasks s)(t \<mapsto> Finished)\<rparr>) k = slots s k"
    "queued (s\<lparr>client := cl, tasks := (tasks s)(t \<mapsto> Finished)\<rparr>) k = queued s k" for k
    using submit_no_shard(1) by (auto simp: slots_update queued_update slots_phase queued_other)
  with submit_no_shard(3) sh show ?case
    by (auto simp: submit_inv_def shard_ok_def)
next
  case (submit_swap s t i sh)
  have i: "i < length (shards (client s))" using submit_invD(3) [OF submit_swap(3,1)] by simp
  note nb = not_in_inbox [OF submit_swap(3) i]
  have sh: "reserved_calls (shards (client s) ! i) < hard_capacity (shards (client s) ! i)"
    "sh = (shards (client s) ! i)\<lparr>reserved_calls := reserved_calls (shards (client s) ! i) + 1\<rparr>"
    using submit_swap(2) by (auto simp: TryReserveSwap_def split: if_splits)
  show ?case
    by (rule submit_inv_task [OF submit_swap(3) i, where sh = sh])
      (use submit_swap(1) nb i sh in \<open>simp_all add: slots_phase queued_def\<close>)
next
  case (submit_full s t i sh)
  have i: "i < length (shards (client s))" using submit_invD(3) [OF submit_full(3,1)] by simp
  note nb = not_in_inbox [OF submit_full(3) i]
  have sh: "sh = shards (client s) ! i"
    using submit_full(2) by (auto simp: TryReserveSwap_def split: if_splits)
  show ?case
    by (rule submit_inv_task [OF submit_full(3) i, where sh = sh])
      (use submit_full(1) nb i sh in \<open>simp_all add: slots_phase queued_def\<close>)
next
  case (submit_check s t i sh)
  have i: "i < length (shards (client s))" using submit_invD(3) [OF submit_check(3,1)] by simp
  note nb = not_in_inbox [OF submit_check(3) i]
  have sh: "sh = shards (client s) ! i"
    using submit_check(2) by (auto simp: TryReserveCheck_def split: if_splits)
  show ?case
    by (rule submit_inv_task [OF submit_check(3) i, where sh = sh])
      (use submit_check(1) nb i sh in \<open>simp_all add: slots_phase queued_def\<close>)
next
  case (submit_check_failed s t i sh)
  have i: "i < length (shards (client s))" using submit_invD(3) [OF submit_check_failed(3,1)] by simp
  note nb = not_in_inbox [OF submit_check_failed(3) i]
  have sh: "sh = (shards (client s) ! i)\<lparr>reserved_calls := reserved_calls (shards (client s) ! i) - 1\<rparr>"
    using submit_check_failed(2) by (auto simp: TryReserveCheck_def split: if_splits)
  show ?case
    by (rule submit_inv_task [OF submit_check_failed(3) i, where sh = sh])
      (use submit_check_failed(1) nb i sh in \<open>simp_all add: slots_phase queued_def\<close>)
next
  case (submit_post s t i throws sh)
  have i: "i < length (shards (client s))" using submit_invD(3) [OF submit_post(3,1)] by simp
  note nb = not_in_inbox [OF submit_post(3) i]
  have sh: "sh = (shards (client s) ! i)\<lparr>inbox := inbox (shards (client s) ! i) @ [CallTask t]\<rparr>"
    using submit_post(2) by (auto simp: Post_def split: if_splits)
  have t: "t \<notin> queued s i" using submit_post(1) by (simp add: queued_def)
  show ?case
    by (rule submit_inv_task [OF submit_post(3) i, where sh = sh])
      (use submit_post(1) nb i sh t in \<open>simp_all add: slots_phase queued_def\<close>)
next
  case (submit_post_failed s t i throws sh sh')
  have i: "i < length (shards (client s))" using submit_invD(3) [OF submit_post_failed(4,1)] by simp
  note nb = not_in_inbox [OF submit_post_failed(4) i]
  have sh: "sh' = (shards (client s) ! i)\<lparr>reserved_calls := reserved_calls (shards (client s) ! i) - 1\<rparr>"
    using submit_post_failed(2,3) by (auto simp: Post_def Release_def split: if_splits)
  show ?case
    by (rule submit_inv_task [OF submit_post_failed(4) i, where sh = sh'])
      (use submit_post_failed(1) nb i sh in \<open>simp_all add: slots_phase queued_def\<close>)
next
  case (submit_post_terminate s t i throws sh)
  have "sh = shards (client s) ! i" using submit_post_terminate(2) by (auto simp: Post_def split: if_splits)
  with submit_post_terminate Release_held [OF submit_post_terminate(4,1), of i] show ?case by simp
next
  case (shard_start s t i rest)
  have i: "i < length (shards (client s))" using submit_invD(3) [OF shard_start(4,1)] by simp
  note nb = not_in_inbox [OF shard_start(4) i]
  have "distinct (CallTask t # rest)"
    using submit_invD(4) [OF shard_start(4) i] shard_start(3) by (simp add: shard_ok_def)
  then have rest: "removeAll (CallTask t) (inbox (shards (client s) ! i)) = rest"
    using shard_start(3) by simp
  show ?case
    by (rule submit_inv_task [OF shard_start(4) i, where sh = "(shards (client s) ! i)\<lparr>inbox := rest\<rparr>"])
      (use shard_start(1) nb i rest in \<open>simp_all add: slots_phase queued_def\<close>)
next
  case (shard_complete s t i)
  have i: "i < length (shards (client s))" using submit_invD(3) [OF shard_complete(2,1)] by simp
  note nb = not_in_inbox [OF shard_complete(2) i]
  have "submit_inv (s\<lparr>client := client s, tasks := (tasks s)(t \<mapsto> CompletedAt i)\<rparr>)"
    by (rule submit_inv_task [OF shard_complete(2) i, where sh = "shards (client s) ! i"])
      (use shard_complete(1) nb i in \<open>simp_all add: slots_phase queued_def\<close>)
  then show ?case by simp
next
  case (shard_release s t i sh)
  have i: "i < length (shards (client s))" using submit_invD(3) [OF shard_release(3,1)] by simp
  note nb = not_in_inbox [OF shard_release(3) i]
  have sh: "sh = (shards (client s) ! i)\<lparr>reserved_calls := reserved_calls (shards (client s) ! i) - 1\<rparr>"
    using shard_release(2) by (auto simp: Release_def split: if_splits)
  show ?case
    by (rule submit_inv_task [OF shard_release(3) i, where sh = sh])
      (use shard_release(1) nb i sh in \<open>simp_all add: slots_phase queued_def\<close>)
next
  case (shard_terminate s t i)
  then show ?case using Release_held [OF shard_terminate(3,1), of i] by simp
next
  case (shard_leave i s)
  then show ?case using submit_inv_cong [of "s\<lparr>ended := insert i (ended s)\<rparr>" s] by simp
next
  case (client_stop s)
  show ?case
    by (rule submit_inv_shards [OF client_stop]) (auto simp: ClientStop_def ShardStop_def)
qed

lemma start_shards_all:
  "\<not> client_stopping cl \<Longrightarrow> length (shards cl) + n \<le> io_threads (options cl) \<Longrightarrow>
   start_shards (replicate n True) cl = (True, cl\<lparr>shards := shards cl @ replicate n (new_shard (options cl))\<rparr>)"
  by (induction n arbitrary: cl) (simp_all add: StartShard_def)

lemma StartOwned_all:
  "StartOwned (\<lambda>_. True) (new_client opts True) =
     (True, (new_client opts True)\<lparr>shards := replicate (io_threads opts) (new_shard opts)\<rparr>)"
  using start_shards_all [of "new_client opts True" "io_threads opts"]
  by (simp add: StartOwned_def new_client_def map_replicate_const)

lemma submit_start_client:
  "submit_start opts s \<Longrightarrow>
   client s = (new_client opts True)\<lparr>shards := replicate (io_threads opts) (new_shard opts)\<rparr>"
  by (simp add: submit_start_def StartOwned_all)

lemma submit_start_inv: "submit_start opts s \<Longrightarrow> submit_inv s"
  by (frule submit_start_client)
    (simp add: submit_inv_def shard_ok_def slots_def queued_def submit_start_def new_shard_def)

interpretation submit_system: invariant_system "submit_start opts" submit_step submit_inv for opts
  by unfold_locales (auto dest: submit_start_inv submit_step_inv)

definition capacities_ok :: "RpcClientOptions \<Rightarrow> SubmitSys \<Rightarrow> bool" where
  "capacities_ok opts s \<longleftrightarrow> map hard_capacity (shards (client s)) = replicate (io_threads opts) (max_calls_per_shard opts)"

lemma map_update_same: "f x = f (xs ! i) \<Longrightarrow> map f (xs[i := x]) = map f xs"
  by (cases "i < length xs") (simp_all add: map_update list_update_same_conv list_update_beyond)

lemma submit_step_capacities: "submit_step s s' \<Longrightarrow>
    map hard_capacity (shards (client s')) = map hard_capacity (shards (client s))"
proof (induction rule: submit_step.induct)
  case (submit_pick s t rnd i rnd' cl)
  then show ?case using PickShard_shards(1) by simp
next
  case (submit_no_shard s t rnd rnd' cl)
  then show ?case using PickShard_shards(1) by simp
next
  case (client_stop s)
  then show ?case by (simp add: ClientStop_def ShardStop_def)
qed (auto simp: shard_defs map_update_same split: if_splits)

interpretation capacity_system: invariant_system "submit_start opts" submit_step "capacities_ok opts" for opts
  by unfold_locales
    (auto simp: capacities_ok_def submit_step_capacities new_shard_def dest: submit_start_client)

lemma reach_capacity:
  assumes "reach (submit_start opts) submit_step s" and "i < length (shards (client s))"
  shows "hard_capacity (shards (client s) ! i) = max_calls_per_shard opts"
  using capacity_system.reach_inv [OF assms(1)] assms(2)
  by (metis capacities_ok_def length_map length_replicate nth_map nth_replicate)

lemma reach_shard_count:
  assumes "reach (submit_start opts) submit_step s"
  shows "length (shards (client s)) = io_threads opts"
  using capacity_system.reach_inv [OF assms] by (metis capacities_ok_def length_map length_replicate)

subsection \<open>Every task ends\<close>

definition drives :: "SubmitSys \<Rightarrow> nat \<Rightarrow> bool" where
  "drives s t \<longleftrightarrow> (\<exists>s'. submit_step\<^sup>*\<^sup>* s s' \<and> tasks s' t = Some Finished)"

lemma drives_now: "tasks s t = Some Finished \<Longrightarrow> drives s t"
  by (auto simp: drives_def)

lemma drives_step: "submit_step s s1 \<Longrightarrow> drives s1 t \<Longrightarrow> drives s t"
  unfolding drives_def by (meson converse_rtranclp_into_rtranclp)

lemma drives_completed:
  assumes "submit_inv s" "tasks s t = Some (CompletedAt i)"
  shows "drives s t"
proof -
  obtain sh where "Release (shards (client s) ! i) = Some sh" using Release_held [OF assms, of i] by auto
  from shard_release [OF assms(2) this] show ?thesis by (rule drives_step) (simp add: drives_now)
qed

lemma drives_running:
  assumes "submit_inv s" "tasks s t = Some (RunningAt i)"
  shows "drives s t"
proof -
  note st = shard_complete [OF assms(2)]
  from st show ?thesis
    by (rule drives_step) (rule drives_completed [OF submit_step_inv [OF st assms(1)], of _ i], simp)
qed

lemma drives_queued:
  assumes "submit_inv s" "tasks s t = Some (QueuedAt i)" "i \<notin> ended s"
    and "inbox (shards (client s) ! i) = xs @ CallTask t # ys"
  shows "drives s t"
  using assms
proof (induction xs arbitrary: s)
  case Nil
  from Nil(4) have box: "inbox (shards (client s) ! i) = CallTask t # ys" by simp
  note st = shard_start [OF Nil(2,3) box]
  from st show ?case
    by (rule drives_step) (rule drives_running [OF submit_step_inv [OF st Nil(1)], of _ i], simp)
next
  case (Cons x xs)
  note inv = Cons(2) and t = Cons(3) and i = Cons(4) and box = Cons(5)
  have len: "i < length (shards (client s))" using submit_invD(3) [OF inv t] by simp
  have ok: "distinct (x # xs @ CallTask t # ys)" "set (x # xs @ CallTask t # ys) = CallTask ` queued s i"
    using submit_invD(4) [OF inv len] box by (simp_all add: shard_ok_def)
  then obtain u where u: "x = CallTask u" "tasks s u = Some (QueuedAt i)" by (auto simp: queued_def)
  have ut: "u \<noteq> t" using ok(1) u(1) by auto
  have "inbox (shards (client s) ! i) = CallTask u # xs @ CallTask t # ys" using box u(1) by simp
  note st = shard_start [OF u(2) i this]
  from st show ?case
    by (rule drives_step)
      (rule Cons(1) [OF submit_step_inv [OF st inv]], use t i ut len in simp_all)
qed

lemma drives_in_inbox:
  assumes "submit_inv s" "tasks s t = Some (QueuedAt i)" "i \<notin> ended s"
  shows "drives s t"
proof -
  have "i < length (shards (client s))" using submit_invD(3) [OF assms(1,2)] by simp
  then have "CallTask t \<in> set (inbox (shards (client s) ! i))"
    using submit_invD(4) [OF assms(1)] assms(2) by (simp add: shard_ok_def queued_def)
  then obtain xs ys where "inbox (shards (client s) ! i) = xs @ CallTask t # ys" by (meson split_list)
  then show ?thesis by (rule drives_queued [OF assms])
qed

lemma drives_reserved:
  assumes "submit_inv s" "tasks s t = Some (ReservedAt i)" "i \<notin> ended s"
  shows "drives s t"
proof (cases "Post False (CallTask t) (shards (client s) ! i)")
  case (Pair ok sh)
  show ?thesis
  proof (cases ok)
    case True
    with Pair have "Post False (CallTask t) (shards (client s) ! i) = (True, sh)" by simp
    note st = submit_post [OF assms(2) this]
    from st show ?thesis
      by (rule drives_step)
        (rule drives_in_inbox [OF submit_step_inv [OF st assms(1)], of _ i], use assms in simp_all)
  next
    case False
    with Pair have post: "Post False (CallTask t) (shards (client s) ! i) = (False, sh)" by simp
    then have "sh = shards (client s) ! i" by (auto simp: Post_def split: if_splits)
    then obtain sh' where "Release sh = Some sh'" using Release_held [OF assms(1,2), of i] by auto
    from submit_post_failed [OF assms(2) post this] show ?thesis
      by (rule drives_step) (simp add: drives_now)
  qed
qed

lemma drives_swapped:
  assumes "submit_inv s" "tasks s t = Some (SwappedAt i)" "i \<notin> ended s"
  shows "drives s t"
proof (cases "TryReserveCheck (shards (client s) ! i)")
  case (Pair ok sh)
  show ?thesis
  proof (cases ok)
    case True
    with Pair have "TryReserveCheck (shards (client s) ! i) = (True, sh)" by simp
    note st = submit_check [OF assms(2) this]
    from st show ?thesis
      by (rule drives_step)
        (rule drives_reserved [OF submit_step_inv [OF st assms(1)], of _ i], use assms in simp_all)
  next
    case False
    with Pair have "TryReserveCheck (shards (client s) ! i) = (False, sh)" by simp
    from submit_check_failed [OF assms(2) this] show ?thesis
      by (rule drives_step) (simp add: drives_now)
  qed
qed

lemma drives_picked:
  assumes "submit_inv s" "tasks s t = Some (PickedAt i)" "i \<notin> ended s"
  shows "drives s t"
proof (cases "TryReserveSwap False (shards (client s) ! i)")
  case (Pair ok sh)
  show ?thesis
  proof (cases ok)
    case True
    with Pair have "TryReserveSwap False (shards (client s) ! i) = (True, sh)" by simp
    note st = submit_swap [OF assms(2) this]
    from st show ?thesis
      by (rule drives_step)
        (rule drives_swapped [OF submit_step_inv [OF st assms(1)], of _ i], use assms in simp_all)
  next
    case False
    with Pair have "TryReserveSwap False (shards (client s) ! i) = (False, sh)" by simp
    from submit_full [OF assms(2) this] show ?thesis
      by (rule drives_step) (simp add: drives_now)
  qed
qed

lemmas drives_phase = drives_picked drives_swapped drives_reserved drives_in_inbox
  drives_running drives_completed

subsection \<open>A run\<close>

definition example_start :: SubmitSys where
  "example_start = \<lparr>client = (new_client default_client_options True)\<lparr>shards := [new_shard default_client_options]\<rparr>,
     tasks = (\<lambda>_. None), ended = {}, terminated = False\<rparr>"

definition example_shard :: "nat \<Rightarrow> ShardTask list \<Rightarrow> ClientShard" where
  "example_shard n box = (new_shard default_client_options)\<lparr>reserved_calls := n, inbox := box\<rparr>"

definition example_queued :: SubmitSys where
  "example_queued = example_start\<lparr>client := (client example_start)\<lparr>next_shard := 1,
     shards := [example_shard 1 [CallTask 7]]\<rparr>, tasks := [7 \<mapsto> QueuedAt 0]\<rparr>"

lemmas example_defs = example_start_def example_shard_def example_queued_def new_client_def new_shard_def
  default_client_options_def set_shard_def

lemma example_start_ok: "submit_start default_client_options example_start"
  by (simp add: submit_start_def StartOwned_all)
    (simp add: example_start_def default_client_options_def ValidateOptions_def Let_def
      default_retry_options_def default_breaker_options_def)

lemma example_run: "submit_step\<^sup>*\<^sup>* example_start example_queued"
proof -
  define cl where "cl = (client example_start)\<lparr>next_shard := 1\<rparr>"
  define s1 where "s1 = example_start\<lparr>client := cl, tasks := [7 \<mapsto> PickedAt 0]\<rparr>"
  define s2 where "s2 = example_start\<lparr>client := cl\<lparr>shards := [example_shard 1 []]\<rparr>, tasks := [7 \<mapsto> SwappedAt 0]\<rparr>"
  define s3 where "s3 = example_start\<lparr>client := cl\<lparr>shards := [example_shard 1 []]\<rparr>, tasks := [7 \<mapsto> ReservedAt 0]\<rparr>"
  note defs = s1_def s2_def s3_def cl_def example_defs
  have "submit_step example_start s1"
    using submit_pick [of example_start 7 0 0 0 cl]
    by (simp add: s1_def cl_def example_defs PickShard_def Let_def)
  moreover have "submit_step s1 s2"
    using submit_swap [of s1 7 0 "example_shard 1 []"]
    by (simp add: defs TryReserveSwap_def)
  moreover have "submit_step s2 s3"
    using submit_check [of s2 7 0 "example_shard 1 []"]
    by (simp add: defs TryReserveCheck_def)
  moreover have "submit_step s3 example_queued"
    using submit_post [of s3 7 0 False "example_shard 1 [CallTask 7]"]
    by (simp add: defs Post_def)
  ultimately show ?thesis by (meson converse_rtranclp_into_rtranclp rtranclp.rtrancl_refl)
qed

lemma set_shard_twice [simp]: "set_shard i a (set_shard i b cl) = set_shard i a cl"
  by (simp add: set_shard_def)

lemma set_shard_nth [simp]: "i < length (shards cl) \<Longrightarrow> shards (set_shard i a cl) ! i = a"
  by simp

text \<open>The phase \<open>SubmitTask\<close> leaves its task in.\<close>

fun submitted_phase :: "Submitted \<Rightarrow> TaskPhase" where
  "submitted_phase (QueuedTask i) = QueuedAt i"
| "submitted_phase (RejectedTask _) = Finished"

lemma submit_two_steps:
  "submit_step a b \<Longrightarrow> submit_step\<^sup>*\<^sup>* b c \<Longrightarrow> submit_step\<^sup>*\<^sup>* a c"
  by (rule converse_rtranclp_into_rtranclp)

lemma SubmitPost_steps:
  assumes inv: "submit_inv s" and t: "tasks s t = Some (ReservedAt i)" and sh: "sh = shards (client s) ! i"
  shows "\<exists>r cl. SubmitPost throws t i sh (client s) = Some (r, cl) \<and>
    submit_step s (s\<lparr>client := cl, tasks := (tasks s)(t \<mapsto> submitted_phase r)\<rparr>)"
proof (cases "Post throws (CallTask t) sh")
  case (Pair ok sh1)
  show ?thesis
  proof (cases ok)
    case True
    then show ?thesis using Pair submit_post [OF t, of throws sh1] sh by (simp add: SubmitPost_def)
  next
    case False
    then have "sh1 = sh" using Pair by (auto simp: Post_def split: if_splits)
    then obtain sh' where "Release sh1 = Some sh'" using Release_held [OF inv t, of i] sh by auto
    then show ?thesis
      using False Pair submit_post_failed [OF t, of throws sh1 sh'] sh by (simp add: SubmitPost_def)
  qed
qed

lemma SubmitTo_steps:
  assumes inv: "submit_inv s" and t: "tasks s t = Some (PickedAt i)"
  shows "\<exists>r cl. SubmitTo throws t i (client s) = Some (r, cl) \<and>
    submit_step\<^sup>*\<^sup>* s (s\<lparr>client := cl, tasks := (tasks s)(t \<mapsto> submitted_phase r)\<rparr>)"
proof -
  have i: "i < length (shards (client s))" using submit_invD(3) [OF inv t] by simp
  obtain ok sh where sw: "TryReserveSwap False (shards (client s) ! i) = (ok, sh)" by fastforce
  show ?thesis
  proof (cases ok)
    case False
    then show ?thesis
      using sw submit_full [OF t, of sh] by (simp add: SubmitTo_def TryReserve_def r_into_rtranclp)
  next
    case True
    with sw have "accepting sh" by (auto simp: TryReserveSwap_def Let_def split: if_splits)
    then have ck: "TryReserveCheck sh = (True, sh)" by (simp add: TryReserveCheck_def)
    define s1 where "s1 = s\<lparr>client := set_shard i sh (client s), tasks := (tasks s)(t \<mapsto> SwappedAt i)\<rparr>"
    define s2 where "s2 = s\<lparr>client := set_shard i sh (client s), tasks := (tasks s)(t \<mapsto> ReservedAt i)\<rparr>"
    have st1: "submit_step s s1" using submit_swap [OF t, of sh] sw True by (simp add: s1_def)
    have st2: "submit_step s1 s2" using submit_check [of s1 t i sh] ck i by (simp add: s1_def s2_def)
    have inv2: "submit_inv s2" using submit_step_inv st1 st2 inv by blast
    have same: "SubmitPost throws t i sh (client s2) = SubmitPost throws t i sh (client s)"
      by (simp add: s2_def SubmitPost_def split: prod.split bool.split option.split)
    have "tasks s2 t = Some (ReservedAt i)" "sh = shards (client s2) ! i" using i by (simp_all add: s2_def)
    from SubmitPost_steps [OF inv2 this, of throws] obtain r cl where
      post: "SubmitPost throws t i sh (client s) = Some (r, cl)"
      and st3: "submit_step s2 (s2\<lparr>client := cl, tasks := (tasks s2)(t \<mapsto> submitted_phase r)\<rparr>)"
      unfolding same by blast
    have "submit_step s2 (s\<lparr>client := cl, tasks := (tasks s)(t \<mapsto> submitted_phase r)\<rparr>)"
      using st3 by (simp add: s2_def)
    then have "submit_step\<^sup>*\<^sup>* s (s\<lparr>client := cl, tasks := (tasks s)(t \<mapsto> submitted_phase r)\<rparr>)"
      by (intro submit_two_steps [OF st1] submit_two_steps [OF st2] r_into_rtranclp)
    with post sw True ck show ?thesis by (simp add: SubmitTo_def TryReserve_def)
  qed
qed

lemma lost_step:
  "submit_step s s' \<Longrightarrow> tasks s t = Some (QueuedAt i) \<and> i \<in> ended s \<Longrightarrow> tasks s' t = Some (QueuedAt i) \<and> i \<in> ended s'"
  by (induction rule: submit_step.induct) auto

lemma lost_steps:
  "submit_step\<^sup>*\<^sup>* s s' \<Longrightarrow> tasks s t = Some (QueuedAt i) \<and> i \<in> ended s \<Longrightarrow> tasks s' t = Some (QueuedAt i) \<and> i \<in> ended s'"
  by (induction rule: rtranclp_induct) (auto dest: lost_step)

lemma example_reach: "reach (submit_start default_client_options) submit_step example_queued"
proof -
  have "reach (submit_start default_client_options) submit_step example_start"
    by (rule reach.reach_init) (rule example_start_ok)
  then show ?thesis using example_run by (rule reach_steps)
qed

section \<open>Properties\<close>

text \<open>
  C23. In every reachable state of the submission protocol, with any number of threads submitting,
  shards running tasks and the client being stopped at any point, a shard's \<open>reserved_calls\<close> is
  exactly the number of tasks that hold one of its slots and never exceeds the configured
  \<open>max_calls_per_shard\<close>; \<open>Release\<close> never finds the counter at zero, so \<open>std::terminate\<close> is not
  reached; and the inbox of a shard holds each task that was posted and not yet started once.
\<close>

theorem submit_slots_exact:
  assumes "reach (submit_start opts) submit_step s"
  shows "\<not> terminated s \<and> length (shards (client s)) = io_threads opts \<and>
    (\<forall>i < io_threads opts.
       reserved_calls (shards (client s) ! i) = card (slots s i) \<and> card (slots s i) \<le> max_calls_per_shard opts \<and>
       distinct (inbox (shards (client s) ! i)) \<and> set (inbox (shards (client s) ! i)) = CallTask ` queued s i)"
proof -
  note inv = submit_system.reach_inv [OF assms] and len = reach_shard_count [OF assms]
  have "shard_ok s i (shards (client s) ! i)" "hard_capacity (shards (client s) ! i) = max_calls_per_shard opts"
    if "i < io_threads opts" for i
    using submit_invD(4) [OF inv] reach_capacity [OF assms] that len by simp_all
  then show ?thesis using submit_invD(2) [OF inv] len by (metis shard_ok_def)
qed

theorem submit_slots_exact_witness:
  "reach (submit_start default_client_options) submit_step example_queued \<and> slots example_queued 0 = {7} \<and>
   \<not> terminated example_queued \<and> reserved_calls (shards (client example_queued) ! 0) = card (slots example_queued 0)"
proof -
  have "slots example_queued 0 = {7}" by (auto simp: slots_def example_defs split: if_splits)
  moreover have "io_threads default_client_options = 1" by (simp add: default_client_options_def)
  ultimately show ?thesis using submit_slots_exact [OF example_reach] example_reach by simp
qed



text \<open>
  C25. \<open>SubmitTask\<close>, run by a thread that is not interrupted, is a run of the protocol: it always
  returns (the \<open>Release\<close> on its failure path finds its own slot), and its task is then either in the
  inbox of the picked shard or completed with an exception.
\<close>

theorem SubmitTask_refines:
  assumes "reach (submit_start opts) submit_step s" "tasks s t = None"
  shows "\<exists>r cl. SubmitTask rnd throws t (client s) = Some (r, cl) \<and>
    submit_step\<^sup>*\<^sup>* s (s\<lparr>client := cl, tasks := (tasks s)(t \<mapsto> submitted_phase r)\<rparr>)"
proof -
  obtain r rnd' cl where pick: "PickShard rnd (client s) = (r, rnd', cl)" by (cases "PickShard rnd (client s)")
  show ?thesis
  proof (cases r)
    case None
    with pick submit_no_shard [OF assms(2), of rnd rnd' cl] show ?thesis by (simp add: SubmitTask_def r_into_rtranclp)
  next
    case (Some i)
    define s1 where "s1 = s\<lparr>client := cl, tasks := (tasks s)(t \<mapsto> PickedAt i)\<rparr>"
    have st: "submit_step s s1" using submit_pick [OF assms(2)] pick Some by (simp add: s1_def)
    have "submit_inv s1" using submit_step_inv [OF st submit_system.reach_inv [OF assms(1)]] .
    moreover have "tasks s1 t = Some (PickedAt i)" by (simp add: s1_def)
    ultimately obtain r' cl' where "SubmitTo throws t i cl = Some (r', cl')"
      and "submit_step\<^sup>*\<^sup>* s1 (s1\<lparr>client := cl', tasks := (tasks s1)(t \<mapsto> submitted_phase r')\<rparr>)"
      using SubmitTo_steps [of s1 t i throws] by (auto simp: s1_def)
    then show ?thesis using submit_two_steps [OF st] pick Some by (auto simp: SubmitTask_def s1_def)
  qed
qed

theorem SubmitTask_refines_witness:
  "\<exists>r cl. SubmitTask 0 False 8 (client example_queued) = Some (r, cl) \<and>
    submit_step\<^sup>*\<^sup>* example_queued
      (example_queued\<lparr>client := cl, tasks := (tasks example_queued)(8 \<mapsto> submitted_phase r)\<rparr>)"
  using SubmitTask_refines [OF example_reach, of 8 0 False] by (simp add: example_defs)

text \<open>
  C26. Stopping the client can lose a task it has accepted: there is a reachable state in which a
  posted task is in the inbox of a shard whose thread has left, and from then on no step changes
  that. Its \<open>CompleteTask\<close> is never called, so the scope that waits for it waits for ever.
\<close>

theorem stop_loses_task:
  "\<exists>s t. reach (submit_start default_client_options) submit_step s \<and> tasks s t = Some (QueuedAt 0) \<and>
    {s'. submit_step\<^sup>*\<^sup>* s s'} \<subseteq> {s'. tasks s' t = Some (QueuedAt 0)}"
proof -
  define s1 where "s1 = example_queued\<lparr>client := ClientStop (client example_queued)\<rparr>"
  define s2 where "s2 = s1\<lparr>ended := insert 0 (ended s1)\<rparr>"
  have "submit_step example_queued s1" unfolding s1_def by (rule client_stop)
  moreover have "submit_step s1 s2"
    unfolding s2_def by (rule shard_leave) (simp_all add: s1_def example_defs ClientStop_def ShardStop_def)
  ultimately have "reach (submit_start default_client_options) submit_step s2"
    using example_reach by (meson reach.reach_step)
  moreover have "tasks s2 7 = Some (QueuedAt 0) \<and> 0 \<in> ended s2" by (simp add: s2_def s1_def example_defs)
  ultimately show ?thesis using lost_steps [of s2 _ 7 0] by blast
qed

end
