(* ===== verification/ClientRouting.thy ===== *)
theory ClientRouting
  imports ClientShards "HOL-Library.AList"
begin

text \<open>
  Routing in the client, \<open>transport/rpc_client.cpp\<close>: the table of services and its publication
  (\<open>PublishService\<close>, \<open>RetireAddresses\<close>), the choice of an endpoint and a connection for a call
  (\<open>GetConnectionForCall\<close>, \<open>GetOrCreateConnection\<close>) with the one-entry route cache of a shard, and
  the ways a client is created.

  The services and the endpoints of a service are iterated over by the code, so they are
  association lists, in the order the iteration takes; a published list replaces the shared
  pointer the code swaps. A connection is an address on the heap of its shard, together with the
  socket address it was opened for. \<open>GetOrCreateConnection\<close> gives the thread to other coroutines of
  the shard while it connects, so it is cut there: \<open>GetOrCreateBegin\<close> runs up to the connect, and
  \<open>GetOrCreateEnd\<close> after it; \<open>GetConnectionForCall\<close> is cut at the same points into \<open>LookupStart\<close> and
  \<open>LookupResume\<close>. \<open>inet_pton\<close>, the outcomes of \<open>socket\<close> and \<open>connect\<close> and the clock are arguments.
\<close>

section \<open>Publication\<close>

type_synonym endpoints = "(string \<times> Endpoint) list"

definition endpoint_entry_valid :: "string \<times> Endpoint \<Rightarrow> bool" where
  "endpoint_entry_valid e \<longleftrightarrow> endpoint_valid (snd e) \<and> fst e = address_key (snd e) \<and>
     list_all (\<lambda>m. fst m \<noteq> [] \<and> capability_valid (snd m)) (methods (snd e))"

definition ValidStaticServices :: "(string \<times> endpoints) list \<Rightarrow> bool" where
  "ValidStaticServices svcs \<longleftrightarrow> svcs \<noteq> [] \<and>
     list_all (\<lambda>s. fst s \<noteq> [] \<and> CHR ''/'' \<notin> set (fst s) \<and> snd s \<noteq> [] \<and>
       list_all endpoint_entry_valid (snd s)) svcs"

text \<open>
  A breaker is made for every endpoint that has none; \<open>old\<close> is the table before the publication and
  stays as it is for the readers that hold it.
\<close>

fun AddBreakers :: "string \<Rightarrow> endpoints \<Rightarrow> (string \<Rightarrow> nat option) \<Rightarrow> (string \<Rightarrow> nat option) \<times> Breaker list \<Rightarrow>
    (string \<Rightarrow> nat option) \<times> Breaker list" where
  "AddBreakers svc [] old (table, heap) = (table, heap)"
| "AddBreakers svc ((key, _) # eps) old (table, heap) =
     (let k = BreakerKey svc key
      in if old k = None \<and> table k = None
         then AddBreakers svc eps old (table(k \<mapsto> length heap), heap @ [new_breaker])
         else AddBreakers svc eps old (table, heap))"

text \<open>
  \<open>PublishService\<close> up to the store of the new endpoints; the result is the list it replaces, when
  it goes on.
\<close>

definition PublishStore :: "string \<Rightarrow> endpoints \<Rightarrow> RpcClient \<Rightarrow> (endpoints option) option \<times> RpcClient" where
  "PublishStore svc eps cl =
     (if client_stopping cl \<or> svc = [] \<or> CHR ''/'' \<in> set svc then (None, cl)
      else if \<not> list_all endpoint_entry_valid eps then (None, cl)
      else let (table, heap) = AddBreakers svc eps (breakers cl) (breakers cl, breaker_heap cl)
           in (Some (map_of (services cl) svc),
               cl\<lparr>breakers := table, breaker_heap := heap, services := AList.update svc eps (services cl)\<rparr>))"

definition RetireAddresses :: "(nat \<Rightarrow> bool) \<Rightarrow> string list \<Rightarrow> RpcClient \<Rightarrow> RpcClient" where
  "RetireAddresses throws keys cl =
     (if keys = [] \<or> \<not> dedicated cl then cl
      else cl\<lparr>shards := map (\<lambda>i. snd (Post (throws i) (RetireTask keys) (shards cl ! i))) [0..<length (shards cl)]\<rparr>)"

definition globally_retired :: "endpoints option \<Rightarrow> endpoints \<Rightarrow> (string \<times> endpoints) list \<Rightarrow> string list" where
  "globally_retired previous eps svcs =
     (let retired = (case previous of
          None \<Rightarrow> []
        | Some prev \<Rightarrow> filter (\<lambda>k. map_of eps k = None) (map fst prev))
      in filter (\<lambda>k. \<not> list_ex (\<lambda>s. map_of (snd s) k \<noteq> None) svcs) retired)"

text \<open>The rest of \<open>PublishService\<close>: the new generation, and the retirement of the addresses left without a service.\<close>

definition PublishBump :: "(nat \<Rightarrow> bool) \<Rightarrow> endpoints \<Rightarrow> endpoints option \<Rightarrow> RpcClient \<Rightarrow> RpcClient" where
  "PublishBump throws eps previous cl =
     (let cl = cl\<lparr>services_generation := services_generation cl + 1\<rparr>
      in RetireAddresses throws (globally_retired previous eps (services cl)) cl)"

definition PublishService :: "(nat \<Rightarrow> bool) \<Rightarrow> string \<Rightarrow> endpoints \<Rightarrow> RpcClient \<Rightarrow> RpcClient" where
  "PublishService throws svc eps cl =
     (case PublishStore svc eps cl of
        (None, cl) \<Rightarrow> cl
      | (Some previous, cl) \<Rightarrow> PublishBump throws eps previous cl)"

text \<open>\<open>StartDiscovery\<close>: \<open>started\<close> is whether the discovery could be created and started.\<close>

definition StartDiscovery :: "bool \<Rightarrow> RpcClient \<Rightarrow> bool" where
  "StartDiscovery started cl = (zookeeper_hosts (options cl) = [] \<or> started)"

definition Create :: "(nat \<Rightarrow> bool) \<Rightarrow> bool \<Rightarrow> RpcClientOptions \<Rightarrow> RpcClient option" where
  "Create oks started opts =
     (let cl = new_client opts True
      in if \<not> ValidateOptions opts then None
         else case StartOwned oks cl of
             (False, _) \<Rightarrow> None
           | (True, cl) \<Rightarrow> if StartDiscovery started cl then Some cl else None)"

definition CreateStatic :: "(nat \<Rightarrow> bool) \<Rightarrow> (nat \<Rightarrow> bool) \<Rightarrow> (string \<times> endpoints) list \<Rightarrow> RpcClientOptions \<Rightarrow>
    RpcClient option" where
  "CreateStatic oks throws svcs opts =
     (if \<not> ValidStaticServices svcs then None
      else if \<not> ValidateOptions opts then None
      else case StartOwned oks (new_client opts True) of
          (False, _) \<Rightarrow> None
        | (True, cl) \<Rightarrow> Some (fold (\<lambda>s. PublishService throws (fst s) (snd s)) svcs cl))"

text \<open>The overloads that run on a runtime of the caller start no shards.\<close>

definition CreateStaticOn :: "(string \<times> endpoints) list \<Rightarrow> RpcClientOptions \<Rightarrow> RpcClient option" where
  "CreateStaticOn svcs opts =
     (if \<not> ValidStaticServices svcs then None
      else if \<not> ValidateOptions opts then None
      else Some (fold (\<lambda>s. PublishService (\<lambda>_. False) (fst s) (snd s)) svcs (new_client opts False)))"

definition CreateOn :: "bool \<Rightarrow> RpcClientOptions \<Rightarrow> RpcClient option" where
  "CreateOn started opts =
     (let cl = new_client opts False
      in if ValidateOptions opts \<and> StartDiscovery started cl then Some cl else None)"

section \<open>Connections of a shard\<close>

datatype GetConn = HaveConn nat | NoConn | Connecting nat

definition erase_connection :: "string \<Rightarrow> ClientShard \<Rightarrow> ClientShard" where
  "erase_connection key sh = sh\<lparr>connections := AList.delete key (connections sh)\<rparr>"

text \<open>
  A new connection is created with the default limits; \<open>Connect\<close> runs until it waits for the
  socket. \<open>new_conn\<close> refuses only limits of zero.
\<close>

definition OpenConnection :: "bool \<Rightarrow> u32 \<times> u16 \<Rightarrow> ClientShard \<Rightarrow> GetConn \<times> ClientShard" where
  "OpenConnection opened addr sh =
     (case new_conn default_connection_limits of
        None \<Rightarrow> (NoConn, sh)
      | Some c \<Rightarrow>
          (case ConnectBegin opened c of
             (False, c) \<Rightarrow> (NoConn, sh\<lparr>conn_heap := conn_heap sh @ [(c, addr)]\<rparr>)
           | (True, c) \<Rightarrow> (Connecting (length (conn_heap sh)), sh\<lparr>conn_heap := conn_heap sh @ [(c, addr)]\<rparr>)))"

definition conn_ready :: "ClientShard \<Rightarrow> nat \<Rightarrow> bool" where
  "conn_ready sh a = (conn_state (fst (conn_heap sh ! a)) = READY)"

definition GetOrCreateBegin :: "bool \<Rightarrow> string \<Rightarrow> u32 \<times> u16 \<Rightarrow> ClientShard \<Rightarrow> GetConn \<times> ClientShard" where
  "GetOrCreateBegin opened key addr sh =
     (case map_of (connections sh) key of
        None \<Rightarrow> OpenConnection opened addr sh
      | Some a \<Rightarrow>
          if conn_ready sh a then (HaveConn a, sh)
          else OpenConnection opened addr (erase_connection key sh))"

text \<open>\<open>emplace\<close> leaves an entry that is already there.\<close>

definition GetOrCreateEnd :: "bool \<Rightarrow> bool \<Rightarrow> string \<Rightarrow> nat \<Rightarrow> ClientShard \<Rightarrow> nat option \<times> ClientShard" where
  "GetOrCreateEnd connected created key a sh =
     (case ConnectEnd connected created (fst (conn_heap sh ! a)) of
        (ok, c) \<Rightarrow>
          let sh = sh\<lparr>conn_heap := (conn_heap sh)[a := (c, snd (conn_heap sh ! a))]\<rparr>
          in if \<not> ok then (None, sh)
             else if map_of (connections sh) key \<noteq> None then (Some a, sh)
             else (Some a, sh\<lparr>connections := (key, a) # connections sh\<rparr>))"

text \<open>The body of the task \<open>RetireAddresses\<close> posts.\<close>

fun RetireKeys :: "string list \<Rightarrow> ClientShard \<Rightarrow> ClientShard" where
  "RetireKeys [] sh = sh"
| "RetireKeys (key # keys) sh =
     RetireKeys keys
       (case map_of (connections sh) key of
          None \<Rightarrow> sh
        | Some a \<Rightarrow>
            let (c, addr) = conn_heap sh ! a
            in erase_connection key (sh\<lparr>conn_heap := (conn_heap sh)[a := (BeginDrain c, addr)]\<rparr>))"

section \<open>The route of a call\<close>

record Lookup =
  lk_service :: string
  lk_method :: string
  lk_schema :: string
  lk_generation :: nat
  lk_now :: u64
  lk_breakers :: "string \<Rightarrow> nat option"
  method_found :: bool
  schema_matched :: bool

datatype LookupState =
    LookupDone "nat option" CallStatus
  | ConnectingCached nat
  | ConnectingSlow nat string "u32 \<times> u16" "nat option" Lookup endpoints

text \<open>A breaker that is not there admits; \<open>None\<close> is the spin in \<open>Allow\<close>.\<close>

definition Admit :: "CircuitBreakerOptions \<Rightarrow> u64 \<Rightarrow> nat option \<Rightarrow> Breaker list \<Rightarrow> (bool \<times> Breaker list) option" where
  "Admit opts now b heap =
     (case b of
        None \<Rightarrow> Some (True, heap)
      | Some p \<Rightarrow>
          (case Allow opts now (heap ! p) of
             None \<Rightarrow> None
           | Some (permit, b') \<Rightarrow> Some (permit \<noteq> kDeniedPermit, heap[p := b'])))"

definition fill_route :: "Lookup \<Rightarrow> string \<Rightarrow> u32 \<times> u16 \<Rightarrow> nat option \<Rightarrow> nat \<Rightarrow> CachedRoute" where
  "fill_route lk key addr b a =
     \<lparr>route_generation = lk_generation lk, route_service = lk_service lk, route_method = lk_method lk,
      route_schema = lk_schema lk, route_endpoint_key = key, route_address = addr, route_breaker = b,
      route_connection = Some a\<rparr>"

definition lookup_failure :: "Lookup \<Rightarrow> CallStatus" where
  "lookup_failure lk =
     (if method_found lk \<and> \<not> schema_matched lk then CALL_INVALID_REQUEST else CALL_SERVICE_NOT_FOUND)"

text \<open>The loop over the endpoints, up to the first connection it has or has to wait for.\<close>

fun RouteLoop :: "(string \<Rightarrow> u32 option) \<Rightarrow> (string \<Rightarrow> bool) \<Rightarrow> CircuitBreakerOptions \<Rightarrow> Lookup \<Rightarrow> endpoints \<Rightarrow>
    Breaker list \<Rightarrow> ClientShard \<Rightarrow> (LookupState \<times> Breaker list \<times> ClientShard) option" where
  "RouteLoop inet opened opts lk [] heap sh = Some (LookupDone None (lookup_failure lk), heap, sh)"
| "RouteLoop inet opened opts lk ((key, ep) # eps) heap sh =
     (case map_of (methods ep) (lk_method lk) of
        None \<Rightarrow> RouteLoop inet opened opts lk eps heap sh
      | Some cap \<Rightarrow>
          let lk = lk\<lparr>method_found := True\<rparr>
          in if lk_schema lk \<noteq> [] \<and> request_schema cap \<noteq> lk_schema lk
             then RouteLoop inet opened opts lk eps heap sh
             else let lk = lk\<lparr>schema_matched := True\<rparr>;
                      b = lk_breakers lk (BreakerKey (lk_service lk) key)
                  in case Admit opts (lk_now lk) b heap of
                       None \<Rightarrow> None
                     | Some (False, heap) \<Rightarrow> RouteLoop inet opened opts lk eps heap sh
                     | Some (True, heap) \<Rightarrow>
                         (case inet (host ep) of
                            None \<Rightarrow> RouteLoop inet opened opts lk eps heap sh
                          | Some ip \<Rightarrow>
                              (case GetOrCreateBegin (opened key) key (ip, port ep) sh of
                                 (HaveConn a, sh) \<Rightarrow>
                                   Some (LookupDone (Some a) CALL_OK, heap,
                                     sh\<lparr>cached_route := fill_route lk key (ip, port ep) b a\<rparr>)
                               | (NoConn, sh) \<Rightarrow> RouteLoop inet opened opts lk eps heap sh
                               | (Connecting a, sh) \<Rightarrow>
                                   Some (ConnectingSlow a key (ip, port ep) b lk eps, heap, sh))))"

definition new_lookup :: "string \<Rightarrow> string \<Rightarrow> string \<Rightarrow> nat \<Rightarrow> u64 \<Rightarrow> (string \<Rightarrow> nat option) \<Rightarrow> Lookup" where
  "new_lookup svc meth schema g now table =
     \<lparr>lk_service = svc, lk_method = meth, lk_schema = schema, lk_generation = g, lk_now = now,
      lk_breakers = table, method_found = False, schema_matched = (schema = [])\<rparr>"

text \<open>
  \<open>GetConnectionForCall\<close> on the cache miss path, from the load of the services on; \<open>discovery\<close>
  is whether the client has one, which is then asked to watch the service.
\<close>

definition LookupSlow :: "(string \<Rightarrow> u32 option) \<Rightarrow> (string \<Rightarrow> bool) \<Rightarrow> bool \<Rightarrow> u64 \<Rightarrow> nat \<Rightarrow> string \<Rightarrow> string \<Rightarrow> string \<Rightarrow>
    nat \<Rightarrow> RpcClient \<Rightarrow> (LookupState \<times> RpcClient) option" where
  "LookupSlow inet opened discovery now g svc meth schema i cl =
     (case map_of (services cl) svc of
        None \<Rightarrow>
          Some (LookupDone None CALL_SERVICE_NOT_FOUND,
                if discovery then cl\<lparr>watch_requests := watch_requests cl @ [svc]\<rparr> else cl)
      | Some eps \<Rightarrow>
          if eps = [] then Some (LookupDone None CALL_SERVICE_NOT_FOUND, cl)
          else map_option (\<lambda>(r, heap, sh). (r, set_shard i sh (cl\<lparr>breaker_heap := heap\<rparr>)))
            (RouteLoop inet opened (circuit_breaker (options cl)) (new_lookup svc meth schema g now (breakers cl)) eps
               (breaker_heap cl) (shards cl ! i)))"

definition cache_hit :: "nat \<Rightarrow> string \<Rightarrow> string \<Rightarrow> string \<Rightarrow> CachedRoute \<Rightarrow> bool" where
  "cache_hit g svc meth schema r =
     (route_generation r = g \<and> route_service r = svc \<and> route_method r = meth \<and> route_schema r = schema)"

text \<open>
  \<open>GetConnectionForCall\<close> after the load of the generation \<open>g\<close>, on the thread of shard \<open>i\<close>. The clock is
  read on the cached path (\<open>now\<close>) and on the other (\<open>now'\<close>).
\<close>

definition LookupStart :: "(string \<Rightarrow> u32 option) \<Rightarrow> (string \<Rightarrow> bool) \<Rightarrow> bool \<Rightarrow> u64 \<Rightarrow> u64 \<Rightarrow> nat \<Rightarrow> string \<Rightarrow> string \<Rightarrow>
    string \<Rightarrow> nat \<Rightarrow> RpcClient \<Rightarrow> (LookupState \<times> RpcClient) option" where
  "LookupStart inet opened discovery now now' g svc meth schema i cl =
     (let sh = shards cl ! i; route = cached_route sh
      in if cache_hit g svc meth schema route
         then case Admit (circuit_breaker (options cl)) now (route_breaker route) (breaker_heap cl) of
             None \<Rightarrow> None
           | Some (False, heap) \<Rightarrow>
               LookupSlow inet opened discovery now' g svc meth schema i
                 (set_shard i (sh\<lparr>cached_route := route\<lparr>route_generation := 0\<rparr>\<rparr>) (cl\<lparr>breaker_heap := heap\<rparr>))
           | Some (True, heap) \<Rightarrow>
               (let cl = cl\<lparr>breaker_heap := heap\<rparr>
                in if (case route_connection route of None \<Rightarrow> False | Some a \<Rightarrow> conn_ready sh a)
                   then Some (LookupDone (route_connection route) CALL_OK, cl)
                   else (case GetOrCreateBegin (opened (route_endpoint_key route)) (route_endpoint_key route)
                                (route_address route) sh of
                           (HaveConn a, sh) \<Rightarrow>
                             Some (LookupDone (Some a) CALL_OK,
                               set_shard i (sh\<lparr>cached_route := route\<lparr>route_connection := Some a\<rparr>\<rparr>) cl)
                         | (NoConn, sh) \<Rightarrow>
                             Some (LookupDone None CALL_SERVICE_NOT_FOUND,
                               set_shard i (sh\<lparr>cached_route := route\<lparr>route_connection := None\<rparr>\<rparr>) cl)
                         | (Connecting a, sh) \<Rightarrow> Some (ConnectingCached a, set_shard i sh cl)))
         else LookupSlow inet opened discovery now' g svc meth schema i cl)"

text \<open>
  \<open>GetConnectionForCall\<close> from its entry, when no publication comes between its first two loads; \<open>shard\<close> is the
  shard of the calling thread, if it is the thread of one.
\<close>

definition GetConnectionForCall :: "(string \<Rightarrow> u32 option) \<Rightarrow> (string \<Rightarrow> bool) \<Rightarrow> bool \<Rightarrow> u64 \<Rightarrow> u64 \<Rightarrow> string \<Rightarrow> string \<Rightarrow>
    string \<Rightarrow> nat option \<Rightarrow> RpcClient \<Rightarrow> (LookupState \<times> RpcClient) option" where
  "GetConnectionForCall inet opened discovery now now' svc meth schema shard cl =
     (case shard of
        None \<Rightarrow> Some (LookupDone None CALL_NOT_CONNECTED, cl)
      | Some i \<Rightarrow> LookupStart inet opened discovery now now' (services_generation cl) svc meth schema i cl)"

text \<open>
  \<open>GetConnectionForCall\<close> once the connect is over. On the cached path the key is a view of
  \<open>cached.endpoint_key\<close>, which other lookups may have assigned in the meantime: \<open>view\<close> is what it
  reads then; and the connection is stored in whatever route the cache holds then.
\<close>

definition LookupResume :: "(string \<Rightarrow> u32 option) \<Rightarrow> (string \<Rightarrow> bool) \<Rightarrow> bool \<Rightarrow> bool \<Rightarrow> string \<Rightarrow> LookupState \<Rightarrow>
    nat \<Rightarrow> RpcClient \<Rightarrow> (LookupState \<times> RpcClient) option" where
  "LookupResume inet opened connected created view st i cl =
     (case st of
        LookupDone _ _ \<Rightarrow> Some (st, cl)
      | ConnectingCached a \<Rightarrow>
          (case GetOrCreateEnd connected created view a (shards cl ! i) of
             (r, sh) \<Rightarrow>
               Some (LookupDone r (if r = None then CALL_SERVICE_NOT_FOUND else CALL_OK),
                 set_shard i (sh\<lparr>cached_route := (cached_route sh)\<lparr>route_connection := r\<rparr>\<rparr>) cl))
      | ConnectingSlow a key addr b lk eps \<Rightarrow>
          (case GetOrCreateEnd connected created key a (shards cl ! i) of
             (Some a, sh) \<Rightarrow>
               Some (LookupDone (Some a) CALL_OK,
                 set_shard i (sh\<lparr>cached_route := fill_route lk key addr b a\<rparr>) cl)
           | (None, sh) \<Rightarrow>
               map_option (\<lambda>(r, heap, sh). (r, set_shard i sh (cl\<lparr>breaker_heap := heap\<rparr>)))
                 (RouteLoop inet opened (circuit_breaker (options cl)) lk eps (breaker_heap cl) sh)))"

section \<open>Lookups and publications together\<close>

text \<open>
  Calls look up their routes on the threads of the shards while the discovery's thread publishes.
  A lookup is known by a number; \<open>LookupLoaded\<close> has loaded the generation only. \<open>publishing\<close> is the
  publication that has stored its endpoints and not raised the generation yet; publications come
  from one thread. A connection may change its state at any time (\<open>conn_moves\<close>).
\<close>

datatype LookupPhase = LookupLoaded nat string string string | LookupAt LookupState

record RouteSys =
  rclient :: RpcClient
  lookups :: "nat \<Rightarrow> (nat \<times> LookupPhase) option"
  publishing :: "(endpoints \<times> endpoints option) option"

inductive route_step :: "(string \<Rightarrow> u32 option) \<Rightarrow> RouteSys \<Rightarrow> RouteSys \<Rightarrow> bool" for inet where
  lookup_load: "lookups s k = None \<Longrightarrow> i < length (shards (rclient s)) \<Longrightarrow>
    route_step inet s (s\<lparr>lookups := (lookups s)(k \<mapsto>
      (i, LookupLoaded (services_generation (rclient s)) svc meth schema))\<rparr>)"
| lookup_start: "lookups s k = Some (i, LookupLoaded g svc meth schema) \<Longrightarrow>
    LookupStart inet opened discovery now now' g svc meth schema i (rclient s) = Some (st, cl) \<Longrightarrow>
    route_step inet s (s\<lparr>rclient := cl, lookups := (lookups s)(k \<mapsto> (i, LookupAt st))\<rparr>)"
| lookup_resume: "lookups s k = Some (i, LookupAt st) \<Longrightarrow>
    LookupResume inet opened connected created view st i (rclient s) = Some (st', cl) \<Longrightarrow>
    route_step inet s (s\<lparr>rclient := cl, lookups := (lookups s)(k \<mapsto> (i, LookupAt st'))\<rparr>)"
| lookup_forget: "lookups s k = Some (i, LookupAt (LookupDone r f)) \<Longrightarrow>
    route_step inet s (s\<lparr>lookups := (lookups s)(k := None)\<rparr>)"
| publish_store: "publishing s = None \<Longrightarrow> PublishStore svc eps (rclient s) = (Some previous, cl) \<Longrightarrow>
    route_step inet s (s\<lparr>rclient := cl, publishing := Some (eps, previous)\<rparr>)"
| publish_bump: "publishing s = Some (eps, previous) \<Longrightarrow>
    route_step inet s (s\<lparr>rclient := PublishBump throws eps previous (rclient s), publishing := None\<rparr>)"
| retire_run: "i < length (shards (rclient s)) \<Longrightarrow> inbox (shards (rclient s) ! i) = RetireTask keys # box \<Longrightarrow>
    route_step inet s (s\<lparr>rclient := set_shard i (RetireKeys keys ((shards (rclient s) ! i)\<lparr>inbox := box\<rparr>)) (rclient s)\<rparr>)"
| conn_moves: "i < length (shards (rclient s)) \<Longrightarrow> sh = shards (rclient s) ! i \<Longrightarrow> a < length (conn_heap sh) \<Longrightarrow>
    conn_state (fst (conn_heap sh ! a)) \<in> {READY, CLOSING} \<Longrightarrow> conn_state c \<in> {CLOSING, CLOSED} \<Longrightarrow>
    route_step inet s (s\<lparr>rclient :=
      set_shard i (sh\<lparr>conn_heap := (conn_heap sh)[a := (c, snd (conn_heap sh ! a))]\<rparr>) (rclient s)\<rparr>)"

definition route_start :: "RouteSys \<Rightarrow> bool" where
  "route_start s \<longleftrightarrow> (\<exists>opts. ValidateOptions opts \<and>
     StartOwned (\<lambda>_. True) (new_client opts True) = (True, rclient s)) \<and>
     lookups s = (\<lambda>_. None) \<and> publishing s = None"

section \<open>What a lookup finds\<close>

text \<open>An endpoint serves a call at an address: it has the method, with the schema the call asks for, if any.\<close>

definition serves :: "(string \<Rightarrow> u32 option) \<Rightarrow> string \<Rightarrow> string \<Rightarrow> Endpoint \<Rightarrow> u32 \<times> u16 \<Rightarrow> bool" where
  "serves inet meth schema ep addr \<longleftrightarrow>
     (case map_of (methods ep) meth of None \<Rightarrow> False | Some cap \<Rightarrow> schema = [] \<or> request_schema cap = schema) \<and>
     inet (host ep) = Some (fst addr) \<and> port ep = snd addr"

lemma OpenConnection_cases:
  assumes "OpenConnection opened addr sh = (r, sh')"
  obtains (none) "r = NoConn" "cached_route sh' = cached_route sh"
    | (connecting) c where "r = Connecting (length (conn_heap sh))" "cached_route sh' = cached_route sh"
      "conn_heap sh' = conn_heap sh @ [(c, addr)]" "conn_state c = CONNECTING"
proof (cases "new_conn default_connection_limits")
  case None
  then show ?thesis using assms none by (simp add: OpenConnection_def)
next
  case (Some c)
  obtain ok c' where b: "ConnectBegin opened c = (ok, c')" by fastforce
  show ?thesis
  proof (cases ok)
    case False
    with Some b assms show ?thesis by (intro none) (auto simp: OpenConnection_def)
  next
    case True
    with b have "conn_state c' = CONNECTING" by (auto simp: ConnectBegin_def split: if_splits)
    with Some b True assms show ?thesis by (intro connecting) (auto simp: OpenConnection_def)
  qed
qed

lemma GetOrCreateBegin_cases:
  assumes "GetOrCreateBegin opened key addr sh = (r, sh')"
  obtains (existing) a where "r = HaveConn a" "sh' = sh" "map_of (connections sh) key = Some a" "conn_ready sh a"
    | (none) "r = NoConn" "cached_route sh' = cached_route sh"
    | (connecting) c where "r = Connecting (length (conn_heap sh))" "cached_route sh' = cached_route sh"
      "conn_heap sh' = conn_heap sh @ [(c, addr)]" "conn_state c = CONNECTING"
proof -
  have er: "cached_route (erase_connection key sh) = cached_route sh" "conn_heap (erase_connection key sh) = conn_heap sh"
    by (simp_all add: erase_connection_def)
  consider "OpenConnection opened addr sh = (r, sh')" | "OpenConnection opened addr (erase_connection key sh) = (r, sh')"
    | a where "r = HaveConn a" "sh' = sh" "map_of (connections sh) key = Some a" "conn_ready sh a"
    using assms by (auto simp: GetOrCreateBegin_def split: option.splits if_splits)
  then show ?thesis
  proof cases
    case 1
    then show ?thesis by (rule OpenConnection_cases) (use none connecting in auto)
  next
    case 2
    then show ?thesis by (rule OpenConnection_cases) (use none connecting er in auto)
  qed (rule existing)
qed

definition found_flags :: "Lookup \<Rightarrow> Lookup" where
  "found_flags lk = lk\<lparr>method_found := True, schema_matched := True\<rparr>"

lemma found_flags_simps [simp]:
  "lk_service (found_flags lk) = lk_service lk" "lk_method (found_flags lk) = lk_method lk"
  "lk_schema (found_flags lk) = lk_schema lk" "lk_generation (found_flags lk) = lk_generation lk"
  "lk_breakers (found_flags lk) = lk_breakers lk" "lk_now (found_flags lk) = lk_now lk"
  "fill_route (found_flags lk) = fill_route lk"
  "found_flags (lk\<lparr>method_found := x\<rparr>) = found_flags lk"
  "found_flags (lk\<lparr>schema_matched := x\<rparr>) = found_flags lk"
  "found_flags (found_flags lk) = found_flags lk"
  by (simp_all add: found_flags_def fill_route_def fun_eq_iff)

text \<open>How the loop ends, when it is not in a connect.\<close>

inductive route_outcome :: "(string \<Rightarrow> u32 option) \<Rightarrow> Lookup \<Rightarrow> endpoints \<Rightarrow> CachedRoute \<Rightarrow>
    LookupState \<Rightarrow> ClientShard \<Rightarrow> bool" for inet lk eps r0 where
  route_failed: "cached_route sh = r0 \<Longrightarrow> route_outcome inet lk eps r0 (LookupDone None f) sh"
| route_found: "(key, ep) \<in> set eps \<Longrightarrow> serves inet (lk_method lk) (lk_schema lk) ep addr \<Longrightarrow>
    b = lk_breakers lk (BreakerKey (lk_service lk) key) \<Longrightarrow>
    cached_route sh = fill_route lk key addr b a \<Longrightarrow> map_of (connections sh) key = Some a \<Longrightarrow> conn_ready sh a \<Longrightarrow>
    route_outcome inet lk eps r0 (LookupDone (Some a) CALL_OK) sh"
| route_connecting: "(key, ep) \<in> set eps \<Longrightarrow> serves inet (lk_method lk) (lk_schema lk) ep addr \<Longrightarrow>
    b = lk_breakers lk (BreakerKey (lk_service lk) key) \<Longrightarrow> cached_route sh = r0 \<Longrightarrow> set rest \<subseteq> set eps \<Longrightarrow>
    a < length (conn_heap sh) \<Longrightarrow> snd (conn_heap sh ! a) = addr \<Longrightarrow> conn_state (fst (conn_heap sh ! a)) = CONNECTING \<Longrightarrow>
    route_outcome inet lk eps r0 (ConnectingSlow a key addr b (found_flags lk) rest) sh"

lemma route_outcome_more:
  assumes "route_outcome inet lk' eps r0 st sh" "found_flags lk' = found_flags lk"
  shows "route_outcome inet lk (e # eps) r0 st sh"
  using assms(1)
proof cases
  case route_failed
  then show ?thesis by (auto intro: route_outcome.route_failed)
next
  case (route_found key ep addr b a)
  have "lk_method lk' = lk_method lk" "lk_schema lk' = lk_schema lk" "lk_service lk' = lk_service lk"
    "lk_breakers lk' = lk_breakers lk" "fill_route lk' = fill_route lk"
    using assms(2) by (metis found_flags_simps)+
  with route_found show ?thesis by (auto intro!: route_outcome.route_found)
next
  case (route_connecting key ep addr b rest a)
  have "lk_method lk' = lk_method lk" "lk_schema lk' = lk_schema lk" "lk_service lk' = lk_service lk"
    "lk_breakers lk' = lk_breakers lk"
    using assms(2) by (metis found_flags_simps)+
  with route_connecting assms(2) show ?thesis by (auto intro!: route_outcome.route_connecting)
qed

lemma RouteLoop_outcome:
  assumes "RouteLoop inet opened opts lk eps heap sh = Some (st, heap', sh')"
  shows "route_outcome inet lk eps (cached_route sh) st sh'"
  using assms
proof (induction eps arbitrary: lk heap sh)
  case Nil
  then show ?case by (auto intro: route_failed)
next
  case (Cons e eps)
  obtain key ep where e: "e = (key, ep)" by (cases e)
  show ?case
  proof (cases "map_of (methods ep) (lk_method lk)")
    case None
    with Cons(2) e have "RouteLoop inet opened opts lk eps heap sh = Some (st, heap', sh')" by simp
    from Cons(1) [OF this] show ?thesis by (rule route_outcome_more) simp
  next
    case cap: (Some cap)
    show ?thesis
    proof (cases "lk_schema lk \<noteq> [] \<and> request_schema cap \<noteq> lk_schema lk")
      case True
      with Cons(2) e cap have "RouteLoop inet opened opts (lk\<lparr>method_found := True\<rparr>) eps heap sh = Some (st, heap', sh')"
        by (simp add: Let_def)
      from Cons(1) [OF this] show ?thesis by (rule route_outcome_more) simp
    next
      case match: False
      define lk1 where "lk1 = found_flags lk"
      let ?b = "lk_breakers lk (BreakerKey (lk_service lk) key)"
      have flags: "lk\<lparr>method_found := True, schema_matched := True\<rparr> = lk1" by (simp add: lk1_def found_flags_def)
      obtain ok heap1 where adm: "Admit opts (lk_now lk) ?b heap = Some (ok, heap1)"
        using Cons(2) e cap match by (auto simp: Let_def split: option.splits prod.splits)
      show ?thesis
      proof (cases "ok \<and> inet (host ep) \<noteq> None")
        case False
        then have "RouteLoop inet opened opts lk1 eps heap1 sh = Some (st, heap', sh')"
          using Cons(2) e cap match adm flags by (auto simp: Let_def split: bool.splits option.splits)
        from Cons(1) [OF this] show ?thesis by (rule route_outcome_more) (simp add: lk1_def)
      next
        case True
        then obtain ip where ip: "ok" "inet (host ep) = Some ip" by auto
        have sv: "serves inet (lk_method lk) (lk_schema lk) ep (ip, port ep)"
          using cap match ip(2) by (auto simp: serves_def)
        obtain g sh1 where gc: "GetOrCreateBegin (opened key) key (ip, port ep) sh = (g, sh1)" by fastforce
        then show ?thesis
        proof (cases rule: GetOrCreateBegin_cases)
          case (existing a)
          then have "st = LookupDone (Some a) CALL_OK" "sh' = sh\<lparr>cached_route := fill_route lk key (ip, port ep) ?b a\<rparr>"
            using Cons(2) e cap match adm ip gc flags by (auto simp: Let_def lk1_def)
          with existing sv e show ?thesis
            by (auto intro!: route_found [where key = key and ep = ep] simp: conn_ready_def)
        next
          case none
          then have "RouteLoop inet opened opts lk1 eps heap1 sh1 = Some (st, heap', sh')"
            using Cons(2) e cap match adm ip gc flags by (auto simp: Let_def)
          from Cons(1) [OF this] none show ?thesis
            using route_outcome_more [of inet lk1 eps _ st sh' lk e] by (simp add: lk1_def)
        next
          case (connecting c)
          then have "st = ConnectingSlow (length (conn_heap sh)) key (ip, port ep) ?b lk1 eps" "sh' = sh1"
            using Cons(2) e cap match adm ip gc flags by (auto simp: Let_def lk1_def)
          with connecting sv e show ?thesis
            unfolding lk1_def by (auto intro!: route_connecting [where ep = ep])
        qed
      qed
    qed
  qed
qed

section \<open>The route cache and the table of services\<close>

definition route_fresh :: "(string \<Rightarrow> u32 option) \<Rightarrow> (string \<times> endpoints) list \<Rightarrow> CachedRoute \<Rightarrow> bool" where
  "route_fresh inet svcs r \<longleftrightarrow>
     (\<exists>eps ep. map_of svcs (route_service r) = Some eps \<and> (route_endpoint_key r, ep) \<in> set eps \<and>
        serves inet (route_method r) (route_schema r) ep (route_address r))"

definition cache_ok :: "(string \<Rightarrow> u32 option) \<Rightarrow> nat \<Rightarrow> bool \<Rightarrow> (string \<times> endpoints) list \<Rightarrow> CachedRoute \<Rightarrow> bool" where
  "cache_ok inet gen idle svcs r \<longleftrightarrow>
     route_generation r \<le> gen \<and> (idle \<and> route_generation r = gen \<longrightarrow> route_fresh inet svcs r)"

definition lookup_ok :: "nat \<Rightarrow> bool \<Rightarrow> (string \<times> endpoints) list \<Rightarrow> Lookup \<Rightarrow> endpoints \<Rightarrow> bool" where
  "lookup_ok gen idle svcs lk eps \<longleftrightarrow> lk_generation lk \<le> gen \<and>
     (idle \<and> lk_generation lk = gen \<longrightarrow> (\<exists>all. map_of svcs (lk_service lk) = Some all \<and> set eps \<subseteq> set all))"

fun state_ok :: "(string \<Rightarrow> u32 option) \<Rightarrow> nat \<Rightarrow> bool \<Rightarrow> (string \<times> endpoints) list \<Rightarrow> LookupState \<Rightarrow> bool" where
  "state_ok inet gen idle svcs (ConnectingSlow a key addr b lk rest) =
     (lookup_ok gen idle svcs lk rest \<and>
      (\<exists>ep. serves inet (lk_method lk) (lk_schema lk) ep addr \<and> lookup_ok gen idle svcs lk [(key, ep)]))"
| "state_ok inet gen idle svcs _ = True"

fun phase_ok :: "(string \<Rightarrow> u32 option) \<Rightarrow> nat \<Rightarrow> bool \<Rightarrow> (string \<times> endpoints) list \<Rightarrow> LookupPhase \<Rightarrow> bool" where
  "phase_ok inet gen idle svcs (LookupLoaded g svc meth schema) = (g \<le> gen)"
| "phase_ok inet gen idle svcs (LookupAt st) = state_ok inet gen idle svcs st"

definition route_inv :: "(string \<Rightarrow> u32 option) \<Rightarrow> RouteSys \<Rightarrow> bool" where
  "route_inv inet s \<longleftrightarrow> 0 < services_generation (rclient s) \<and>
     (\<forall>sh \<in> set (shards (rclient s)).
        cache_ok inet (services_generation (rclient s)) (publishing s = None) (services (rclient s)) (cached_route sh)) \<and>
     (\<forall>k i p. lookups s k = Some (i, p) \<longrightarrow> i < length (shards (rclient s)) \<and>
        phase_ok inet (services_generation (rclient s)) (publishing s = None) (services (rclient s)) p)"

lemma route_invI:
  assumes "0 < services_generation (rclient s)"
    and "\<And>sh. sh \<in> set (shards (rclient s)) \<Longrightarrow>
      cache_ok inet (services_generation (rclient s)) (publishing s = None) (services (rclient s)) (cached_route sh)"
    and "\<And>k i p. lookups s k = Some (i, p) \<Longrightarrow> i < length (shards (rclient s)) \<and>
      phase_ok inet (services_generation (rclient s)) (publishing s = None) (services (rclient s)) p"
  shows "route_inv inet s"
  using assms by (simp add: route_inv_def)

lemma route_invD:
  assumes "route_inv inet s"
  shows "0 < services_generation (rclient s)"
    and "sh \<in> set (shards (rclient s)) \<Longrightarrow>
      cache_ok inet (services_generation (rclient s)) (publishing s = None) (services (rclient s)) (cached_route sh)"
    and "lookups s k = Some (i, p) \<Longrightarrow> i < length (shards (rclient s)) \<and>
      phase_ok inet (services_generation (rclient s)) (publishing s = None) (services (rclient s)) p"
  using assms by (auto simp: route_inv_def)

lemma route_outcome_ok:
  assumes "route_outcome inet lk eps r0 st sh" "lookup_ok gen idle svcs lk eps" "cache_ok inet gen idle svcs r0"
  shows "cache_ok inet gen idle svcs (cached_route sh) \<and> state_ok inet gen idle svcs st"
  using assms(1)
proof cases
  case (route_failed f)
  then show ?thesis using assms(3) by simp
next
  case (route_found key ep addr b a)
  then show ?thesis
    using assms(2) by (auto simp: cache_ok_def lookup_ok_def route_fresh_def fill_route_def)
next
  case (route_connecting key ep addr b rest a)
  then have "lookup_ok gen idle svcs (found_flags lk) rest" "lookup_ok gen idle svcs (found_flags lk) [(key, ep)]"
    using assms(2) by (auto simp: lookup_ok_def)
  with route_connecting assms(3) show ?thesis by auto
qed

text \<open>What a piece of a lookup on shard \<open>i\<close> does to the client.\<close>

definition lookup_change :: "(string \<Rightarrow> u32 option) \<Rightarrow> bool \<Rightarrow> nat \<Rightarrow> RpcClient \<Rightarrow> LookupState \<Rightarrow> RpcClient \<Rightarrow> bool" where
  "lookup_change inet idle i cl st cl' \<longleftrightarrow>
     services cl' = services cl \<and> services_generation cl' = services_generation cl \<and>
     (\<exists>sh. shards cl' = (shards cl)[i := sh] \<and>
        cache_ok inet (services_generation cl) idle (services cl) (cached_route sh)) \<and>
     state_ok inet (services_generation cl) idle (services cl) st"

lemma cache_ok_gen0: "0 < gen \<Longrightarrow> cache_ok inet gen idle svcs (r\<lparr>route_generation := 0\<rparr>)"
  by (simp add: cache_ok_def)

lemma cache_ok_connection: "cache_ok inet gen idle svcs (r\<lparr>route_connection := c\<rparr>) = cache_ok inet gen idle svcs r"
  by (simp add: cache_ok_def route_fresh_def)

lemma fill_route_ok:
  "serves inet (lk_method lk) (lk_schema lk) ep addr \<Longrightarrow> lookup_ok gen idle svcs lk [(key, ep)] \<Longrightarrow>
   cache_ok inet gen idle svcs (fill_route lk key addr b a)"
  by (auto simp: cache_ok_def lookup_ok_def route_fresh_def fill_route_def)

lemma lookup_change_RouteLoop:
  assumes "RouteLoop inet opened opts lk eps heap sh = Some (st, heap', sh')"
    and "lookup_ok (services_generation cl) idle (services cl) lk eps"
    and "cache_ok inet (services_generation cl) idle (services cl) (cached_route sh)"
  shows "lookup_change inet idle i cl st (set_shard i sh' (cl\<lparr>breaker_heap := heap'\<rparr>))"
  using route_outcome_ok [OF RouteLoop_outcome [OF assms(1)] assms(2,3)]
  by (auto simp: lookup_change_def set_shard_def)

lemma lookup_change_same:
  assumes "cache_ok inet (services_generation cl) idle (services cl) (cached_route (shards cl ! i))"
    and "shards cl' = shards cl" "services cl' = services cl" "services_generation cl' = services_generation cl"
    and "state_ok inet (services_generation cl) idle (services cl) st"
  shows "lookup_change inet idle i cl st cl'"
  using assms unfolding lookup_change_def by (metis list_update_id)

lemma LookupSlow_change:
  assumes "LookupSlow inet opened discovery now g svc meth schema i cl = Some (st, cl')"
    and "g \<le> services_generation cl"
    and "cache_ok inet (services_generation cl) idle (services cl) (cached_route (shards cl ! i))"
  shows "lookup_change inet idle i cl st cl'"
proof (cases "map_of (services cl) svc")
  case None
  then have "st = LookupDone None CALL_SERVICE_NOT_FOUND" "shards cl' = shards cl" "services cl' = services cl"
    "services_generation cl' = services_generation cl"
    using assms(1) by (auto simp: LookupSlow_def split: if_splits)
  then show ?thesis by (intro lookup_change_same [OF assms(3)]) simp_all
next
  case (Some eps)
  show ?thesis
  proof (cases "eps = []")
    case True
    then show ?thesis using assms(1) Some by (intro lookup_change_same [OF assms(3)]) (auto simp: LookupSlow_def)
  next
    case False
    let ?lk = "new_lookup svc meth schema g now (breakers cl)"
    obtain heap' sh' where loop: "RouteLoop inet opened (circuit_breaker (options cl)) ?lk eps (breaker_heap cl) (shards cl ! i)
        = Some (st, heap', sh')" and cl': "cl' = set_shard i sh' (cl\<lparr>breaker_heap := heap'\<rparr>)"
      using assms(1) Some False by (auto simp: LookupSlow_def)
    have "lookup_ok (services_generation cl) idle (services cl) ?lk eps"
      using assms(2) Some by (simp add: lookup_ok_def new_lookup_def)
    from lookup_change_RouteLoop [OF loop this assms(3)] show ?thesis using cl' by simp
  qed
qed

lemma LookupStart_change:
  assumes st: "LookupStart inet opened discovery now now' g svc meth schema i cl = Some (st, cl')"
    and g: "g \<le> services_generation cl" and pos: "0 < services_generation cl" and i: "i < length (shards cl)"
    and ok: "cache_ok inet (services_generation cl) idle (services cl) (cached_route (shards cl ! i))"
  shows "lookup_change inet idle i cl st cl'"
proof -
  let ?sh = "shards cl ! i" let ?r = "cached_route (shards cl ! i)"
  show ?thesis
  proof (cases "cache_hit g svc meth schema ?r")
    case False
    with st have "LookupSlow inet opened discovery now' g svc meth schema i cl = Some (st, cl')"
      by (simp add: LookupStart_def Let_def)
    then show ?thesis by (rule LookupSlow_change [OF _ g ok])
  next
    case hit: True
    obtain adm heap where ad: "Admit (circuit_breaker (options cl)) now (route_breaker ?r) (breaker_heap cl) = Some (adm, heap)"
      using st hit by (auto simp: LookupStart_def Let_def split: option.splits)
    show ?thesis
    proof (cases adm)
      case False
      let ?cl = "set_shard i (?sh\<lparr>cached_route := ?r\<lparr>route_generation := 0\<rparr>\<rparr>) (cl\<lparr>breaker_heap := heap\<rparr>)"
      have "LookupSlow inet opened discovery now' g svc meth schema i ?cl = Some (st, cl')"
        using st hit ad False by (simp add: LookupStart_def Let_def)
      then have "lookup_change inet idle i ?cl st cl'"
        by (rule LookupSlow_change) (use g i cache_ok_gen0 [OF pos] in \<open>simp_all add: set_shard_def\<close>)
      then show ?thesis by (auto simp: lookup_change_def set_shard_def)
    next
      case True
      let ?cl = "cl\<lparr>breaker_heap := heap\<rparr>"
      let ?ready = "case route_connection ?r of None \<Rightarrow> False | Some a \<Rightarrow> conn_ready ?sh a"
      show ?thesis
      proof (cases ?ready)
        case ready: True
        then have "st = LookupDone (route_connection ?r) CALL_OK" "cl' = ?cl"
          using st hit ad True by (simp_all add: LookupStart_def Let_def)
        then show ?thesis by (intro lookup_change_same [OF ok]) simp_all
      next
        case notready: False
        obtain c sh1 where gc: "GetOrCreateBegin (opened (route_endpoint_key ?r)) (route_endpoint_key ?r) (route_address ?r) ?sh
            = (c, sh1)" by fastforce
        have st': "(case GetOrCreateBegin (opened (route_endpoint_key ?r)) (route_endpoint_key ?r) (route_address ?r) ?sh of
             (HaveConn a, sh) \<Rightarrow> Some (LookupDone (Some a) CALL_OK,
               set_shard i (sh\<lparr>cached_route := ?r\<lparr>route_connection := Some a\<rparr>\<rparr>) ?cl)
           | (NoConn, sh) \<Rightarrow> Some (LookupDone None CALL_SERVICE_NOT_FOUND,
               set_shard i (sh\<lparr>cached_route := ?r\<lparr>route_connection := None\<rparr>\<rparr>) ?cl)
           | (Connecting a, sh) \<Rightarrow> Some (ConnectingCached a, set_shard i sh ?cl)) = Some (st, cl')"
          using st hit ad True notready by (simp add: LookupStart_def Let_def)
        from gc show ?thesis
          by (cases rule: GetOrCreateBegin_cases)
            (use st' gc ok in \<open>auto simp: lookup_change_def set_shard_def cache_ok_connection\<close>)
      qed
    qed
  qed
qed

lemma GetOrCreateEnd_route:
  "GetOrCreateEnd connected created key a sh = (r, sh') \<Longrightarrow> cached_route sh' = cached_route sh"
  by (auto simp: GetOrCreateEnd_def Let_def split: prod.splits if_splits)

lemma GetOrCreateEnd_result:
  "GetOrCreateEnd connected created key a sh = (Some a', sh') \<Longrightarrow> a' = a"
  by (auto simp: GetOrCreateEnd_def Let_def split: prod.splits if_splits)

lemma LookupResume_change:
  assumes st: "LookupResume inet opened connected created view st i cl = Some (st', cl')"
    and i: "i < length (shards cl)"
    and ok: "cache_ok inet (services_generation cl) idle (services cl) (cached_route (shards cl ! i))"
    and sok: "state_ok inet (services_generation cl) idle (services cl) st"
  shows "lookup_change inet idle i cl st' cl'"
proof (cases st)
  case (LookupDone r f)
  with st show ?thesis by (intro lookup_change_same [OF ok]) (auto simp: LookupResume_def)
next
  case (ConnectingCached a)
  obtain r sh where e: "GetOrCreateEnd connected created view a (shards cl ! i) = (r, sh)" by fastforce
  have "cl' = set_shard i (sh\<lparr>cached_route := (cached_route sh)\<lparr>route_connection := r\<rparr>\<rparr>) cl"
    "st' = LookupDone r (if r = None then CALL_SERVICE_NOT_FOUND else CALL_OK)"
    using st ConnectingCached e by (simp_all add: LookupResume_def)
  then show ?thesis
    using ok GetOrCreateEnd_route [OF e] by (auto simp: lookup_change_def set_shard_def cache_ok_connection)
next
  case (ConnectingSlow a key addr b lk eps)
  obtain r sh where e: "GetOrCreateEnd connected created key a (shards cl ! i) = (r, sh)" by fastforce
  note cached = GetOrCreateEnd_route [OF e]
  show ?thesis
  proof (cases r)
    case None
    then obtain heap' sh' where loop: "RouteLoop inet opened (circuit_breaker (options cl)) lk eps (breaker_heap cl) sh
        = Some (st', heap', sh')" and cl': "cl' = set_shard i sh' (cl\<lparr>breaker_heap := heap'\<rparr>)"
      using st ConnectingSlow e by (auto simp: LookupResume_def)
    have "lookup_change inet idle i cl st' (set_shard i sh' (cl\<lparr>breaker_heap := heap'\<rparr>))"
      by (rule lookup_change_RouteLoop [OF loop]) (use sok ConnectingSlow ok cached in simp_all)
    then show ?thesis using cl' by simp
  next
    case (Some a')
    then have "cl' = set_shard i (sh\<lparr>cached_route := fill_route lk key addr b a'\<rparr>) cl" "st' = LookupDone (Some a') CALL_OK"
      using st ConnectingSlow e by (simp_all add: LookupResume_def)
    moreover have "cache_ok inet (services_generation cl) idle (services cl) (fill_route lk key addr b a')"
      using sok ConnectingSlow by (auto intro: fill_route_ok)
    ultimately show ?thesis by (auto simp: lookup_change_def set_shard_def)
  qed
qed

lemma lookup_change_inv:
  assumes inv: "route_inv inet s" and k: "lookups s k = Some (i, p)"
    and ch: "lookup_change inet (publishing s = None) i (rclient s) st cl"
  shows "route_inv inet (s\<lparr>rclient := cl, lookups := (lookups s)(k \<mapsto> (i, LookupAt st))\<rparr>)"
proof -
  from ch obtain sh where sh: "shards cl = (shards (rclient s))[i := sh]"
    "cache_ok inet (services_generation (rclient s)) (publishing s = None) (services (rclient s)) (cached_route sh)"
    and same: "services cl = services (rclient s)" "services_generation cl = services_generation (rclient s)"
    and st: "state_ok inet (services_generation (rclient s)) (publishing s = None) (services (rclient s)) st"
    by (auto simp: lookup_change_def)
  have i: "i < length (shards (rclient s))" using route_invD(3) [OF inv k] by simp
  show ?thesis
  proof (rule route_invI, goal_cases)
    case 1
    then show ?case using route_invD(1) [OF inv] same by simp
  next
    case (2 sh')
    then have "sh' = sh \<or> sh' \<in> set (shards (rclient s))" using sh(1) by (auto dest: set_update_subset_insert [THEN subsetD])
    then show ?case using sh(2) route_invD(2) [OF inv] same by auto
  next
    case (3 k' i' p')
    then show ?case using route_invD(3) [OF inv] st i sh(1) same by (cases "k' = k") auto
  qed
qed

text \<open>A state that is not idle asks less of the table.\<close>

lemma ok_not_idle:
  "cache_ok inet gen idle svcs r \<Longrightarrow> cache_ok inet gen False svcs' r"
  "phase_ok inet gen idle svcs p \<Longrightarrow> phase_ok inet gen False svcs' p"
  by (auto simp: cache_ok_def lookup_ok_def elim!: phase_ok.elims state_ok.elims)

lemma ok_next_generation:
  "cache_ok inet gen idle svcs r \<Longrightarrow> cache_ok inet (Suc gen) idle' svcs' r"
  "phase_ok inet gen idle svcs p \<Longrightarrow> phase_ok inet (Suc gen) idle' svcs' p"
  by (auto simp: cache_ok_def lookup_ok_def elim!: phase_ok.elims state_ok.elims)

lemma PublishStore_shards:
  "PublishStore svc eps cl = (r, cl') \<Longrightarrow> shards cl' = shards cl \<and> services_generation cl' = services_generation cl"
  by (auto simp: PublishStore_def Let_def split: if_splits prod.splits)

lemma RetireAddresses_same [simp]:
  "services (RetireAddresses throws keys cl) = services cl"
  "services_generation (RetireAddresses throws keys cl) = services_generation cl"
  "length (shards (RetireAddresses throws keys cl)) = length (shards cl)"
  by (simp_all add: RetireAddresses_def)

lemma Post_route: "cached_route (snd (Post throws task sh)) = cached_route sh"
  by (simp add: Post_def)

lemma RetireAddresses_routes:
  "sh \<in> set (shards (RetireAddresses throws keys cl)) \<Longrightarrow> \<exists>sh' \<in> set (shards cl). cached_route sh = cached_route sh'"
  by (auto simp: RetireAddresses_def Post_route split: if_splits)

lemma PublishBump_same:
  "services (PublishBump throws eps previous cl) = services cl"
  "services_generation (PublishBump throws eps previous cl) = Suc (services_generation cl)"
  "length (shards (PublishBump throws eps previous cl)) = length (shards cl)"
  "sh \<in> set (shards (PublishBump throws eps previous cl)) \<Longrightarrow> \<exists>sh' \<in> set (shards cl). cached_route sh = cached_route sh'"
  by (simp_all add: PublishBump_def) (drule RetireAddresses_routes, simp)

lemma RetireKeys_route [simp]: "cached_route (RetireKeys keys sh) = cached_route sh"
  by (induction keys sh rule: RetireKeys.induct)
    (auto simp: erase_connection_def split: option.splits prod.splits)

lemma set_shard_inv:
  assumes "route_inv inet s" "i < length (shards (rclient s))" "cached_route sh = cached_route (shards (rclient s) ! i)"
  shows "route_inv inet (s\<lparr>rclient := set_shard i sh (rclient s)\<rparr>)"
proof (rule route_invI, goal_cases)
  case 1
  then show ?case using route_invD(1) [OF assms(1)] by (simp add: set_shard_def)
next
  case (2 sh')
  then have "\<exists>sh'' \<in> set (shards (rclient s)). cached_route sh' = cached_route sh''"
    using assms(2,3) by (auto simp: set_shard_def dest!: set_update_subset_insert [THEN subsetD])
  then show ?case using route_invD(2) [OF assms(1)] by (auto simp: set_shard_def)
next
  case (3 k i p)
  then show ?case using route_invD(3) [OF assms(1)] by (simp add: set_shard_def)
qed

lemma route_step_inv:
  assumes "route_step inet s s'" "route_inv inet s"
  shows "route_inv inet s'"
  using assms
proof (induction rule: route_step.induct)
  case (lookup_load s k i svc meth schema)
  show ?case
    by (rule route_invI) (use lookup_load(2) route_invD [OF lookup_load(3)] in \<open>auto split: if_splits\<close>)
next
  case (lookup_start s k i g svc meth schema opened discovery now now' st cl)
  note inv = lookup_start(3)
  have i: "i < length (shards (rclient s))" and g: "g \<le> services_generation (rclient s)"
    using route_invD(3) [OF inv lookup_start(1)] by simp_all
  show ?case
    by (rule lookup_change_inv [OF inv lookup_start(1)], rule LookupStart_change [OF lookup_start(2) g _ i])
      (use route_invD(1,2) [OF inv] i in simp_all)
next
  case (lookup_resume s k i st opened connected created view st' cl)
  note inv = lookup_resume(3)
  have i: "i < length (shards (rclient s))" using route_invD(3) [OF inv lookup_resume(1)] by simp
  show ?case
    by (rule lookup_change_inv [OF inv lookup_resume(1)], rule LookupResume_change [OF lookup_resume(2) i])
      (use route_invD(2) [OF inv] route_invD(3) [OF inv lookup_resume(1)] i in simp_all)
next
  case (lookup_forget s k i r f)
  show ?case by (rule route_invI) (use route_invD [OF lookup_forget(2)] in \<open>auto split: if_splits\<close>)
next
  case (publish_store s svc eps previous cl)
  note same = PublishStore_shards [OF publish_store(2)]
  show ?case
    by (rule route_invI)
      (use route_invD [OF publish_store(3)] same ok_not_idle in \<open>fastforce+\<close>)
next
  case (publish_bump s eps previous throws)
  show ?case
    by (rule route_invI)
      (use route_invD [OF publish_bump(2)] ok_next_generation in \<open>fastforce simp: PublishBump_same dest: PublishBump_same(4)\<close>)+
next
  case (retire_run i s keys box)
  show ?case by (rule set_shard_inv [OF retire_run(3,1)]) simp
next
  case (conn_moves i s sh a c)
  show ?case by (rule set_shard_inv [OF conn_moves(6,1)]) (simp add: conn_moves(2))
qed

lemma route_start_inv: "route_start s \<Longrightarrow> route_inv inet s"
proof -
  assume s: "route_start s"
  then obtain opts where "rclient s = (new_client opts True)\<lparr>shards := replicate (io_threads opts) (new_shard opts)\<rparr>"
    by (metis StartOwned_all route_start_def prod.inject)
  then show ?thesis
    using s by (auto simp: route_start_def route_inv_def new_client_def new_shard_def empty_route_def cache_ok_def)
qed

interpretation route_system: invariant_system route_start "route_step inet" "route_inv inet" for inet
  by unfold_locales (auto dest: route_start_inv route_step_inv)

end
