(* ===== verification/ClientRoutes.thy ===== *)
theory ClientRoutes
  imports ClientRouting
begin

text \<open>
  The properties of routing: what the table and the cache promise under every interleaving, what
  publishing and retiring do, and three runs in which the cut of \<open>GetOrCreateConnection\<close> at its
  connect matters. The runs are computed: \<open>route_run\<close> applies a list of events to the state of a
  client with one shard, and every run it computes is one of the step relation.
\<close>

section \<open>Runs\<close>

datatype RouteEvent =
    LoadEvent nat nat string string string
  | StartEvent nat
  | ResumeEvent nat bool string
  | StoreEvent string endpoints
  | BumpEvent
  | MoveEvent nat nat ConnectionState

text \<open>One step of a run, chosen by an event: sockets open, breakers are asked at time 0, and there is no discovery.\<close>

fun route_exec :: "(string \<Rightarrow> u32 option) \<Rightarrow> RouteEvent \<Rightarrow> RouteSys \<Rightarrow> RouteSys option" where
  "route_exec inet (LoadEvent k i svc meth schema) s =
     (if lookups s k = None \<and> i < length (shards (rclient s))
      then Some (s\<lparr>lookups := (lookups s)(k \<mapsto> (i, LookupLoaded (services_generation (rclient s)) svc meth schema))\<rparr>)
      else None)"
| "route_exec inet (StartEvent k) s =
     (case lookups s k of
        Some (i, LookupLoaded g svc meth schema) \<Rightarrow>
          (case LookupStart inet (\<lambda>_. True) False 0 0 g svc meth schema i (rclient s) of
             None \<Rightarrow> None
           | Some (st, cl) \<Rightarrow> Some (s\<lparr>rclient := cl, lookups := (lookups s)(k \<mapsto> (i, LookupAt st))\<rparr>))
      | _ \<Rightarrow> None)"
| "route_exec inet (ResumeEvent k connected view) s =
     (case lookups s k of
        Some (i, LookupAt st) \<Rightarrow>
          (case LookupResume inet (\<lambda>_. True) connected True view st i (rclient s) of
             None \<Rightarrow> None
           | Some (st', cl) \<Rightarrow> Some (s\<lparr>rclient := cl, lookups := (lookups s)(k \<mapsto> (i, LookupAt st'))\<rparr>))
      | _ \<Rightarrow> None)"
| "route_exec inet (StoreEvent svc eps) s =
     (if publishing s \<noteq> None then None
      else case PublishStore svc eps (rclient s) of
          (None, _) \<Rightarrow> None
        | (Some previous, cl) \<Rightarrow> Some (s\<lparr>rclient := cl, publishing := Some (eps, previous)\<rparr>))"
| "route_exec inet BumpEvent s =
     (case publishing s of
        None \<Rightarrow> None
      | Some (eps, previous) \<Rightarrow>
          Some (s\<lparr>rclient := PublishBump (\<lambda>_. False) eps previous (rclient s), publishing := None\<rparr>))"
| "route_exec inet (MoveEvent i a st) s =
     (let sh = shards (rclient s) ! i
      in if i < length (shards (rclient s)) \<and> a < length (conn_heap sh) \<and>
           conn_state (fst (conn_heap sh ! a)) \<in> {READY, CLOSING} \<and> st \<in> {CLOSING, CLOSED}
         then Some (s\<lparr>rclient := set_shard i (sh\<lparr>conn_heap :=
           (conn_heap sh)[a := ((fst (conn_heap sh ! a))\<lparr>conn_state := st\<rparr>, snd (conn_heap sh ! a))]\<rparr>) (rclient s)\<rparr>)
         else None)"

lemma route_exec_step: "route_exec inet e s = Some s' \<Longrightarrow> route_step inet s s'"
proof (induction inet e s rule: route_exec.induct)
  case (6 inet i a st s)
  then show ?case by (auto simp: Let_def split: if_splits intro!: conn_moves)
next
  case (4 inet svc eps s)
  then have idle: "publishing s = None" by (cases "publishing s") simp_all
  with 4 show ?case by (auto split: option.splits prod.splits intro: publish_store)
qed (auto split: if_splits option.splits prod.splits LookupPhase.splits intro: route_step.intros)

fun route_run :: "(string \<Rightarrow> u32 option) \<Rightarrow> RouteEvent list \<Rightarrow> RouteSys \<Rightarrow> RouteSys option" where
  "route_run inet [] s = Some s"
| "route_run inet (e # es) s = (case route_exec inet e s of None \<Rightarrow> None | Some s' \<Rightarrow> route_run inet es s')"

lemma route_run_steps: "route_run inet es s = Some s' \<Longrightarrow> (route_step inet)\<^sup>*\<^sup>* s s'"
  by (induction es arbitrary: s)
    (auto split: option.splits dest!: route_exec_step intro: converse_rtranclp_into_rtranclp)

lemma route_run_reach:
  assumes "route_start s" "case route_run inet es s of None \<Rightarrow> False | Some s' \<Rightarrow> P s'"
  shows "\<exists>s'. reach route_start (route_step inet) s' \<and> P s'"
proof -
  obtain s' where "route_run inet es s = Some s'" "P s'" using assms(2) by (auto split: option.splits)
  moreover have "reach route_start (route_step inet) s" using assms(1) by (rule reach.reach_init)
  ultimately show ?thesis using route_run_steps reach_steps by metis
qed

text \<open>A client with one shard, two servers and the addresses \<open>inet_pton\<close> gives for them.\<close>

definition example_inet :: "string \<Rightarrow> u32 option" where
  "example_inet h = (if h = ''10.0.0.1'' then Some 1 else if h = ''10.0.0.2'' then Some 2 else None)"

definition example_capability :: MethodCapability where
  "example_capability = \<lparr>service_version = ''1'', codec = ''raw'', request_schema = [], response_schema = []\<rparr>"

definition example_endpoint :: "string \<Rightarrow> Endpoint" where
  "example_endpoint h = \<lparr>host = h, port = 80, methods = [(''get'', example_capability), (''put'', example_capability)]\<rparr>"

definition example_routes :: RouteSys where
  "example_routes = \<lparr>rclient = snd (StartOwned (\<lambda>_. True) (new_client default_client_options True)),
     lookups = (\<lambda>_. None), publishing = None\<rparr>"

definition serverA :: endpoints where "serverA = [(''10.0.0.1:80'', example_endpoint ''10.0.0.1'')]"
definition serverB :: endpoints where "serverB = [(''10.0.0.2:80'', example_endpoint ''10.0.0.2'')]"

definition two_connects :: "RouteEvent list" where
  "two_connects = [StoreEvent ''a'' serverA, BumpEvent,
     LoadEvent 1 0 ''a'' ''get'' [], StartEvent 1, LoadEvent 2 0 ''a'' ''get'' [], StartEvent 2,
     ResumeEvent 1 True [], ResumeEvent 2 True []]"


text \<open>The connections of the runs: while they connect, connected, and after a failed connect.\<close>

definition fresh_conn :: Conn where "fresh_conn = the (new_conn default_connection_limits)"
definition connecting_conn :: Conn where "connecting_conn = snd (ConnectBegin True fresh_conn)"
definition ready_conn :: Conn where "ready_conn = snd (ConnectEnd True True connecting_conn)"
definition failed_conn :: Conn where "failed_conn = snd (ConnectEnd False True connecting_conn)"

lemma example_conns:
  "new_conn default_connection_limits = Some fresh_conn"
  "ConnectBegin True fresh_conn = (True, connecting_conn)"
  "ConnectEnd True True connecting_conn = (True, ready_conn)"
  "ConnectEnd False True connecting_conn = (False, failed_conn)"
  "conn_state ready_conn = READY" "conn_state connecting_conn = CONNECTING" "conn_state failed_conn = DISCONNECTED"
proof -
  show 1: "new_conn default_connection_limits = Some fresh_conn"
    by (simp add: fresh_conn_def new_conn_def default_connection_limits_def)
  have st: "conn_state fresh_conn = DISCONNECTED"
    by (simp add: fresh_conn_def new_conn_def default_connection_limits_def)
  then show 2: "ConnectBegin True fresh_conn = (True, connecting_conn)"
    by (simp add: connecting_conn_def ConnectBegin_def)
  show "conn_state connecting_conn = CONNECTING" using st by (simp add: connecting_conn_def ConnectBegin_def)
  show "ConnectEnd True True connecting_conn = (True, ready_conn)" "conn_state ready_conn = READY"
    by (simp_all add: ready_conn_def ConnectEnd_def StartFibers_def)
  show "ConnectEnd False True connecting_conn = (False, failed_conn)" "conn_state failed_conn = DISCONNECTED"
    by (simp_all add: failed_conn_def ConnectEnd_def)
qed

definition example_client :: RpcClient where
  "example_client = (new_client default_client_options True)\<lparr>shards := [new_shard default_client_options]\<rparr>"

lemma example_routes_eq: "example_routes = \<lparr>rclient = example_client, lookups = (\<lambda>_. None), publishing = None\<rparr>"
  by (simp add: example_routes_def StartOwned_all example_client_def) (simp add: default_client_options_def)

lemma example_client_simps:
  "client_stopping example_client = False" "dedicated example_client" "services example_client = []"
  "breakers example_client = (\<lambda>_. None)" "breaker_heap example_client = []"
  "services_generation example_client = 1" "shards example_client = [new_shard default_client_options]"
  "conn_heap (new_shard opts) = []" "connections (new_shard opts) = []" "cached_route (new_shard opts) = empty_route"
  by (simp_all add: example_client_def new_client_def new_shard_def)

lemma Allow_new: "Allow opts 0 new_breaker = Some (0, new_breaker)"
  by (simp add: Allow_def new_breaker_def State_def kClosed_def Control_def kStateMask_def)

lemma permit_new: "(0 :: u64) \<noteq> kDeniedPermit"
  by (simp add: kDeniedPermit_def)

lemma example_routes_start: "route_start example_routes"
  using example_start_ok unfolding submit_start_def route_start_def example_routes_def
  by (auto simp: StartOwned_all intro!: exI [of _ default_client_options])

lemma example_endpoint_simps:
  "host (example_endpoint h) = h" "port (example_endpoint h) = 80"
  "methods (example_endpoint h) = [(''get'', example_capability), (''put'', example_capability)]"
  "endpoint_entry_valid (''10.0.0.1:80'', example_endpoint ''10.0.0.1'')"
  "endpoint_entry_valid (''10.0.0.2:80'', example_endpoint ''10.0.0.2'')"
  by (simp_all add: endpoint_entry_valid_def example_endpoint_def example_capability_def
      endpoint_valid_def capability_valid_def address_key_def to_string.simps digit_def char_of_def bit_simps)

lemmas run_simps = example_conns example_endpoint_simps example_routes_eq example_client_simps Allow_new permit_new
  example_inet_def empty_route_def BreakerKey_def serverA_def serverB_def
  LookupStart_def LookupResume_def LookupSlow_def GetOrCreateBegin_def GetOrCreateEnd_def OpenConnection_def
  PublishStore_def PublishBump_def RetireAddresses_def globally_retired_def Admit_def fill_route_def new_lookup_def
  set_shard_def conn_ready_def erase_connection_def cache_hit_def Let_def

text \<open>One call fills the cache.\<close>

definition one_call :: "RouteEvent list" where
  "one_call = [StoreEvent ''a'' serverA, BumpEvent, LoadEvent 1 0 ''a'' ''get'' [], StartEvent 1, ResumeEvent 1 True []]"

lemma one_call_run:
  "case route_run example_inet one_call example_routes of None \<Rightarrow> False | Some s \<Rightarrow>
     publishing s = None \<and> length (shards (rclient s)) = 1 \<and>
     cache_hit (services_generation (rclient s)) ''a'' ''get'' [] (cached_route (shards (rclient s) ! 0))"
  by (simp add: one_call_def run_simps)

text \<open>Two calls connect to the same server at the same time.\<close>

lemma two_connects_run:
  "case route_run example_inet two_connects example_routes of None \<Rightarrow> False | Some s \<Rightarrow>
     lookups s 2 = Some (0, LookupAt (LookupDone (Some 1) CALL_OK)) \<and> conn_ready (shards (rclient s) ! 0) 1 \<and>
     1 \<notin> snd ` set (connections (shards (rclient s) ! 0))"
  by (simp add: two_connects_def run_simps)

text \<open>
  The cached connection to the first server is lost; while a call connects to it again through
  the cached route, a call to the second server fills the cache.
\<close>

definition cache_race :: "RouteEvent list" where
  "cache_race = [StoreEvent ''a'' serverA, BumpEvent, StoreEvent ''b'' serverB, BumpEvent,
     LoadEvent 1 0 ''a'' ''get'' [], StartEvent 1, ResumeEvent 1 True [], MoveEvent 0 0 CLOSED,
     LoadEvent 2 0 ''a'' ''get'' [], StartEvent 2,
     LoadEvent 3 0 ''b'' ''get'' [], StartEvent 3, ResumeEvent 3 True [],
     ResumeEvent 2 True ''10.0.0.2:80'']"

lemma cache_race_run:
  "case route_run example_inet cache_race example_routes of None \<Rightarrow> False | Some s \<Rightarrow>
     publishing s = None \<and> map_of (services (rclient s)) ''b'' = Some serverB \<and>
     (let sh = shards (rclient s) ! 0; r = cached_route sh
      in cache_hit (services_generation (rclient s)) ''b'' ''get'' [] r \<and> route_address r = (2, 80) \<and>
         route_connection r = Some 1 \<and> conn_ready sh 1 \<and> snd (conn_heap sh ! 1) = (1, 80))"
  by (simp add: cache_race_def run_simps)

text \<open>A call to another method of the server finds the lost connection first and cannot connect again.\<close>

definition lost_cache :: "RouteEvent list" where
  "lost_cache = [StoreEvent ''a'' serverA, BumpEvent,
     LoadEvent 1 0 ''a'' ''get'' [], StartEvent 1, ResumeEvent 1 True [], MoveEvent 0 0 CLOSED,
     LoadEvent 2 0 ''a'' ''put'' [], StartEvent 2, ResumeEvent 2 False []]"

lemma lost_cache_run:
  "case route_run example_inet lost_cache example_routes of None \<Rightarrow> False | Some s \<Rightarrow>
     (let sh = shards (rclient s) ! 0; r = cached_route sh
      in cache_hit (services_generation (rclient s)) ''a'' ''get'' [] r \<and> route_connection r = Some 0 \<and>
         0 \<notin> snd ` set (connections sh))"
  by (simp add: lost_cache_def run_simps)

section \<open>Publication and retirement\<close>

lemma AddBreakers_result:
  assumes "AddBreakers svc eps old (table, heap) = (table', heap')"
  shows "(\<forall>k p. table k = Some p \<longrightarrow> table' k = Some p) \<and> take (length heap) heap' = heap \<and>
    (\<forall>e \<in> set eps. table' (BreakerKey svc (fst e)) \<noteq> None \<or> old (BreakerKey svc (fst e)) \<noteq> None)"
  using assms
proof (induction svc eps old "(table, heap)" arbitrary: table heap rule: AddBreakers.induct)
  case (1 svc old)
  then show ?case by simp
next
  case (2 svc key ep eps old table heap)
  let ?k = "BreakerKey svc key"
  show ?case
  proof (cases "old ?k = None \<and> table ?k = None")
    case True
    then have "AddBreakers svc eps old (table(?k \<mapsto> length heap), heap @ [new_breaker]) = (table', heap')"
      using 2(3) by (simp add: Let_def)
    note IH = 2(1) [OF refl True this]
    have "take (length heap) heap' = take (length heap) (take (length (heap @ [new_breaker])) heap')" by (simp add: min_def)
    also have "\<dots> = heap" using IH by simp
    finally have "take (length heap) heap' = heap" .
    moreover have "table' ?k \<noteq> None" using IH by (metis fun_upd_same option.distinct(1))
    moreover have "\<forall>k p. table k = Some p \<longrightarrow> table' k = Some p" using IH True by (metis fun_upd_other option.distinct(1))
    ultimately show ?thesis using IH by simp
  next
    case False
    then have "AddBreakers svc eps old (table, heap) = (table', heap')" using 2(3) by (auto simp: Let_def)
    note IH = 2(2) [OF refl False this]
    have "table' ?k \<noteq> None \<or> old ?k \<noteq> None" using False IH by auto
    then show ?thesis using IH by simp
  qed
qed

lemma PublishStore_cases:
  assumes "PublishStore svc eps cl = (Some previous, cl')"
  shows "previous = map_of (services cl) svc" "services cl' = AList.update svc eps (services cl)"
    "AddBreakers svc eps (breakers cl) (breakers cl, breaker_heap cl) = (breakers cl', breaker_heap cl')"
    "list_all endpoint_entry_valid eps" "dedicated cl' = dedicated cl" "shards cl' = shards cl"
  using assms by (auto simp: PublishStore_def split: if_splits prod.splits)

lemma globally_retired_iff:
  assumes "map_of svcs svc = Some eps" "distinct (map fst svcs)"
  shows "k \<in> set (globally_retired previous eps svcs) \<longleftrightarrow>
    (\<exists>old. previous = Some old \<and> k \<in> fst ` set old) \<and> (\<forall>s \<in> set svcs. k \<notin> fst ` set (snd s))"
proof -
  have "(svc, eps) \<in> set svcs" using assms(1) by (rule map_of_SomeD)
  then show ?thesis
    by (force simp: globally_retired_def list_ex_iff map_of_eq_None_iff split: option.splits)
qed

lemma map_of_delete_conv: "map_of (AList.delete k xs) = (map_of xs)(k := None)"
  by (rule ext) (simp add: delete_conv)

lemma RetireKeys_connections:
  "map_of (connections (RetireKeys keys sh)) k = (if k \<in> set keys then None else map_of (connections sh) k)"
  by (induction keys sh rule: RetireKeys.induct)
    (auto simp: erase_connection_def delete_conv split: option.splits prod.splits)

text \<open>Publishing keeps the table of services free of duplicates.\<close>

lemma distinct_services_update: "distinct (map fst xs) \<Longrightarrow> distinct (map fst (AList.update k v xs))"
  by (rule distinct_update)

definition has_method :: "string \<Rightarrow> Endpoint \<Rightarrow> bool" where
  "has_method meth ep = (map_of (methods ep) meth \<noteq> None)"

definition has_schema :: "string \<Rightarrow> string \<Rightarrow> Endpoint \<Rightarrow> bool" where
  "has_schema meth schema ep =
     (case map_of (methods ep) meth of None \<Rightarrow> False | Some cap \<Rightarrow> schema = [] \<or> request_schema cap = schema)"

lemma RouteLoop_failure:
  assumes "RouteLoop inet opened opts lk eps heap sh = Some (LookupDone None f, heap', sh')"
  shows "f = (if (method_found lk \<or> list_ex (\<lambda>e. has_method (lk_method lk) (snd e)) eps) \<and>
      \<not> (schema_matched lk \<or> list_ex (\<lambda>e. has_schema (lk_method lk) (lk_schema lk) (snd e)) eps)
      then CALL_INVALID_REQUEST else CALL_SERVICE_NOT_FOUND)"
  using assms
proof (induction eps arbitrary: lk heap sh)
  case Nil
  then show ?case by (auto simp: lookup_failure_def)
next
  case (Cons e eps)
  obtain key ep where e: "e = (key, ep)" by (cases e)
  let ?adm = "Admit opts (lk_now lk) (lk_breakers lk (BreakerKey (lk_service lk) key)) heap"
  consider "map_of (methods ep) (lk_method lk) = None"
      "RouteLoop inet opened opts lk eps heap sh = Some (LookupDone None f, heap', sh')"
    | cap where "map_of (methods ep) (lk_method lk) = Some cap" "lk_schema lk \<noteq> []" "request_schema cap \<noteq> lk_schema lk"
      "RouteLoop inet opened opts (lk\<lparr>method_found := True\<rparr>) eps heap sh = Some (LookupDone None f, heap', sh')"
    | cap heap1 sh1 where "map_of (methods ep) (lk_method lk) = Some cap"
      "lk_schema lk = [] \<or> request_schema cap = lk_schema lk"
      "RouteLoop inet opened opts (lk\<lparr>method_found := True, schema_matched := True\<rparr>) eps heap1 sh1
         = Some (LookupDone None f, heap', sh')"
  proof (cases "map_of (methods ep) (lk_method lk)")
    case None
    with Cons(2) e that(1) show ?thesis by simp
  next
    case cap: (Some cap)
    show ?thesis
    proof (cases "lk_schema lk \<noteq> [] \<and> request_schema cap \<noteq> lk_schema lk")
      case True
      with Cons(2) e cap that(2) [OF cap] show ?thesis by (simp add: Let_def)
    next
      case match: False
      obtain ok heap1 where adm: "?adm = Some (ok, heap1)"
        using Cons(2) e cap match by (auto simp: Let_def split: option.splits prod.splits)
      obtain g sh1 where gc: "GetOrCreateBegin (opened key) key (the (inet (host ep)), port ep) sh = (g, sh1)" by fastforce
      show ?thesis
        using Cons(2) e cap match adm gc that(3) [OF cap, of heap1 sh] that(3) [OF cap, of heap1 sh1]
        by (cases ok; cases "inet (host ep)"; cases g) (auto simp: Let_def)
    qed
  qed
  then show ?case
  proof cases
    case 1
    with Cons(1) [OF 1(2)] e show ?thesis by (simp add: has_method_def has_schema_def)
  next
    case (2 cap)
    with Cons(1) [OF 2(4)] e show ?thesis by (simp add: has_method_def has_schema_def)
  next
    case (3 cap heap1 sh1)
    with Cons(1) [OF 3(3)] e show ?thesis by (auto simp: has_method_def has_schema_def)
  qed
qed

section \<open>Properties\<close>

text \<open>
  C27. The route cache agrees with the table of services. In every reachable state, for any
  interleaving of lookups on the shards, their waits for a connect, connection failures,
  retirements and publications, a cached route that carries the current generation names an
  endpoint that the table still lists for its service, that still has its method and schema, and
  whose address it holds; only in the window between the two stores of a running publication may
  it be out of date.
\<close>

theorem cached_route_current:
  assumes "reach route_start (route_step inet) s" "publishing s = None" "sh \<in> set (shards (rclient s))"
    and "cache_hit (services_generation (rclient s)) svc meth schema (cached_route sh)"
  shows "\<exists>eps ep. map_of (services (rclient s)) svc = Some eps \<and>
    (route_endpoint_key (cached_route sh), ep) \<in> set eps \<and> serves inet meth schema ep (route_address (cached_route sh))"
  using route_invD(2) [OF route_system.reach_inv [OF assms(1)] assms(3)] assms(2,4)
  by (auto simp: cache_ok_def cache_hit_def route_fresh_def)

theorem cached_route_current_witness:
  "\<exists>s sh eps ep. reach route_start (route_step example_inet) s \<and> sh \<in> set (shards (rclient s)) \<and>
     map_of (services (rclient s)) ''a'' = Some eps \<and> (route_endpoint_key (cached_route sh), ep) \<in> set eps \<and>
     serves example_inet ''get'' [] ep (route_address (cached_route sh))"
proof -
  obtain s where s: "reach route_start (route_step example_inet) s" "publishing s = None" "length (shards (rclient s)) = 1"
    "cache_hit (services_generation (rclient s)) ''a'' ''get'' [] (cached_route (shards (rclient s) ! 0))"
    using route_run_reach [OF example_routes_start one_call_run] by blast
  then have "shards (rclient s) ! 0 \<in> set (shards (rclient s))" by simp
  from cached_route_current [OF s(1,2) this s(4)] s(1) this show ?thesis by blast
qed

text \<open>
  C28. What a lookup through the table returns, for every order of the endpoints: a connection that
  is ready and is registered under an endpoint of the service that has the method and the schema
  and whose breaker admitted the call, which also fills the cache; or it has opened a socket to
  the address of such an endpoint and waits; or no connection, the cache left alone.
\<close>

theorem lookup_outcome:
  assumes "RouteLoop inet opened opts lk eps heap sh = Some (st, heap', sh')"
  shows "route_outcome inet lk eps (cached_route sh) st sh'"
  by (rule RouteLoop_outcome [OF assms])

theorem lookup_outcome_witness:
  "route_outcome example_inet (new_lookup ''a'' ''get'' [] 1 0 (\<lambda>_. None)) serverA empty_route
     (ConnectingSlow 0 ''10.0.0.1:80'' (1, 80) None (found_flags (new_lookup ''a'' ''get'' [] 1 0 (\<lambda>_. None))) [])
     ((new_shard default_client_options)\<lparr>conn_heap := [(connecting_conn, (1, 80))]\<rparr>)"
proof -
  have "RouteLoop example_inet (\<lambda>_. True) default_breaker_options (new_lookup ''a'' ''get'' [] 1 0 (\<lambda>_. None)) serverA []
      (new_shard default_client_options) =
    Some (ConnectingSlow 0 ''10.0.0.1:80'' (1, 80) None (found_flags (new_lookup ''a'' ''get'' [] 1 0 (\<lambda>_. None))) [], [],
      (new_shard default_client_options)\<lparr>conn_heap := [(connecting_conn, (1, 80))]\<rparr>)"
    by (simp add: run_simps found_flags_def)
  from lookup_outcome [OF this] show ?thesis by (simp add: example_client_simps)
qed



text \<open>
  C30. What publishing a service does: the table maps the service to the new endpoints and every
  other service as before; every endpoint published has a breaker, and a breaker that existed keeps
  its address and its state; the generation is raised; and the addresses handed to the shards for
  retirement are those the service had before that no service has now.
\<close>

theorem publish_effect:
  assumes "PublishStore svc eps cl = (Some previous, cl')" "distinct (map fst (services cl))"
  shows "map_of (services cl') = (map_of (services cl))(svc \<mapsto> eps) \<and>
    (\<forall>e \<in> set eps. breakers cl' (BreakerKey svc (fst e)) \<noteq> None) \<and>
    (\<forall>k p. breakers cl k = Some p \<longrightarrow> breakers cl' k = Some p) \<and>
    take (length (breaker_heap cl)) (breaker_heap cl') = breaker_heap cl \<and>
    services_generation (PublishBump throws eps previous cl') = Suc (services_generation cl) \<and>
    set (globally_retired previous eps (services cl')) =
      {k. (\<exists>old. map_of (services cl) svc = Some old \<and> k \<in> fst ` set old) \<and>
          (\<forall>s \<in> set (services cl'). k \<notin> fst ` set (snd s))}"
proof -
  note P = PublishStore_cases [OF assms(1)] and B = AddBreakers_result [OF PublishStore_cases(3) [OF assms(1)]]
  have table: "map_of (services cl') = (map_of (services cl))(svc \<mapsto> eps)" using P(2) by (simp add: update_conv')
  have "distinct (map fst (services cl'))" using P(2) distinct_services_update [OF assms(2)] by simp
  with table have "set (globally_retired previous eps (services cl')) =
      {k. (\<exists>old. map_of (services cl) svc = Some old \<and> k \<in> fst ` set old) \<and>
          (\<forall>s \<in> set (services cl'). k \<notin> fst ` set (snd s))}"
    using globally_retired_iff [of "services cl'" svc eps _ previous] P(1) by auto
  moreover have "breakers cl' (BreakerKey svc (fst e)) \<noteq> None" if "e \<in> set eps" for e
    using B that by (metis not_None_eq)
  moreover have "services_generation (PublishBump throws eps previous cl') = Suc (services_generation cl)"
    using PublishStore_shards [OF assms(1)] by (simp add: PublishBump_same)
  ultimately show ?thesis using table B by blast
qed

theorem publish_effect_witness:
  "\<exists>cl'. PublishStore ''a'' serverA example_client = (Some None, cl') \<and>
     services_generation (PublishBump (\<lambda>_. False) serverA None cl') = Suc (services_generation example_client)"
proof -
  obtain cl' where cl': "PublishStore ''a'' serverA example_client = (Some None, cl')"
    by (simp add: run_simps)
  have "distinct (map fst (services example_client))" by (simp add: example_client_simps)
  from publish_effect [OF cl' this] cl' show ?thesis by blast
qed

text \<open>
  C31. An address that a publication withdraws reaches every shard that takes work: the task posted
  last in its inbox, once it runs, leaves no connection registered under the address, so no later
  lookup is given the old one.
\<close>

theorem withdrawn_address_retired:
  assumes "PublishStore svc eps cl = (Some previous, cl')" "k \<in> set (globally_retired previous eps (services cl'))"
    and "dedicated cl" "i < length (shards cl)" "accepting (shards cl ! i)" "has_runtime (shards cl ! i)"
  shows "\<exists>keys. inbox (shards (PublishBump (\<lambda>_. False) eps previous cl') ! i) = inbox (shards cl ! i) @ [RetireTask keys] \<and>
    map_of (connections (RetireKeys keys sh)) k = None"
proof -
  note P = PublishStore_cases [OF assms(1)]
  let ?keys = "globally_retired previous eps (services cl')"
  have "?keys \<noteq> []" using assms(2) by auto
  then have "inbox (shards (PublishBump (\<lambda>_. False) eps previous cl') ! i) = inbox (shards cl ! i) @ [RetireTask ?keys]"
    using assms(3-6) P(5,6) by (simp add: PublishBump_def RetireAddresses_def Post_def)
  moreover have "map_of (connections (RetireKeys ?keys sh)) k = None" using assms(2) by (simp add: RetireKeys_connections)
  ultimately show ?thesis by blast
qed

lemma list_all_serverB: "list_all endpoint_entry_valid serverB"
  by (simp add: serverB_def example_endpoint_simps)

definition published_client :: RpcClient where
  "published_client = PublishService (\<lambda>_. False) ''a'' serverA example_client"

theorem withdrawn_address_retired_witness:
  "\<exists>cl' keys. PublishStore ''a'' serverB published_client = (Some (Some serverA), cl') \<and>
     inbox (shards (PublishBump (\<lambda>_. False) serverB (Some serverA) cl') ! 0) = [RetireTask keys] \<and>
     map_of (connections (RetireKeys keys (new_shard default_client_options))) ''10.0.0.1:80'' = None"
proof -
  have box: "inbox (new_shard default_client_options) = []" "accepting (new_shard default_client_options)"
    "has_runtime (new_shard default_client_options)" by (simp_all add: new_shard_def)
  have pub: "shards published_client = [new_shard default_client_options]" "dedicated published_client"
    "map_of (services published_client) ''a'' = Some serverA" "services published_client = [(''a'', serverA)]"
    "\<not> client_stopping published_client"
    by (simp_all add: published_client_def PublishService_def run_simps)
  obtain cl' where cl': "PublishStore ''a'' serverB published_client = (Some (Some serverA), cl')"
    "services cl' = [(''a'', serverB)]"
    using pub
    by (cases "AddBreakers ''a'' serverB (breakers published_client) (breakers published_client, breaker_heap published_client)")
      (simp add: PublishStore_def list_all_serverB)
  have "''10.0.0.1:80'' \<in> set (globally_retired (Some serverA) serverB (services cl'))"
    using cl'(2) by (simp add: globally_retired_def serverA_def serverB_def)
  from withdrawn_address_retired [OF cl'(1) this pub(2), of 0 "new_shard default_client_options"] cl'(1) pub(1) box
  show ?thesis by auto
qed

text \<open>
  C32. Two calls that connect to the same server at the same time leave a connection behind: there is
  a reachable state in which a lookup has been given a ready connection that its shard does not
  have in its table. The shard closes the connections of the table when it stops and waits for
  all coroutines, so the reader of this one keeps it from stopping.
\<close>

theorem concurrent_connects_orphan:
  "\<exists>s. reach route_start (route_step example_inet) s \<and>
     lookups s 2 = Some (0, LookupAt (LookupDone (Some 1) CALL_OK)) \<and> conn_ready (shards (rclient s) ! 0) 1 \<and>
     1 \<notin> snd ` set (connections (shards (rclient s) ! 0))"
  by (rule route_run_reach [OF example_routes_start two_connects_run])

text \<open>
  C33. The route cache can send calls to the wrong server: there is a reachable state, with no
  publication running, in which the cached route for method \<open>get\<close> of service \<open>b\<close>, whose only
  endpoint is the second server, is current and holds a ready connection to the first server.
\<close>

theorem cached_route_wrong_server:
  "\<exists>s. reach route_start (route_step example_inet) s \<and> publishing s = None \<and>
     map_of (services (rclient s)) ''b'' = Some serverB \<and>
     (let sh = shards (rclient s) ! 0; r = cached_route sh
      in cache_hit (services_generation (rclient s)) ''b'' ''get'' [] r \<and> route_address r = (2, 80) \<and>
         route_connection r = Some 1 \<and> conn_ready sh 1 \<and> snd (conn_heap sh ! 1) = (1, 80))"
  by (rule route_run_reach [OF example_routes_start cache_race_run])

text \<open>
  A current cached route can hold a connection that its shard has dropped: there is a reachable
  state in which the next lookup of the route reads the state of a connection that is no longer in
  the table of the shard, whose raw pointer the cache kept.
\<close>

theorem cached_connection_dropped:
  "\<exists>s. reach route_start (route_step example_inet) s \<and>
     (let sh = shards (rclient s) ! 0; r = cached_route sh
      in cache_hit (services_generation (rclient s)) ''a'' ''get'' [] r \<and> route_connection r = Some 0 \<and>
         0 \<notin> snd ` set (connections sh))"
  by (rule route_run_reach [OF example_routes_start lost_cache_run])

end
