(* ===== verification/HashTable.thy ===== *)
theory HashTable
  imports Main "HOL-Library.AList"
begin

text \<open>
  The interface of \<open>std::unordered_map\<close> the server uses: \<open>find\<close>, \<open>emplace\<close>, which keeps an entry that
  is there, \<open>erase\<close> and \<open>size\<close>. It is a locale, so that what the clients need (an entry is found after
  it was emplaced, the size counts the entries) is proved from the laws; the interpretation is
  the association list that all tables of the model are.
\<close>

definition emplace :: "'k \<Rightarrow> 'v \<Rightarrow> ('k \<times> 'v) list \<Rightarrow> bool \<times> ('k \<times> 'v) list" where
  "emplace k v t = (if map_of t k = None then (True, t @ [(k, v)]) else (False, t))"

locale hash_table =
  fixes table_ok :: "'t \<Rightarrow> bool"
    and find :: "'t \<Rightarrow> 'k \<Rightarrow> 'v option"
    and ins :: "'k \<Rightarrow> 'v \<Rightarrow> 't \<Rightarrow> bool \<times> 't"
    and erase :: "'k \<Rightarrow> 't \<Rightarrow> 't"
    and entries :: "'t \<Rightarrow> nat"
  assumes ins_present: "find t k = Some w \<Longrightarrow> ins k v t = (False, t)"
    and ins_absent: "find t k = None \<Longrightarrow> fst (ins k v t) \<and> find (snd (ins k v t)) = (find t)(k \<mapsto> v)"
    and find_erase: "find (erase k t) = (find t)(k := None)"
    and ins_ok: "table_ok t \<Longrightarrow> table_ok (snd (ins k v t))"
    and erase_ok: "table_ok t \<Longrightarrow> table_ok (erase k t)"
    and size_card: "table_ok t \<Longrightarrow> entries t = card (dom (find t)) \<and> finite (dom (find t))"
begin

lemma find_ins: "find (snd (ins k v t)) j = (if j = k \<and> find t k = None then Some v else find t j)"
  using ins_present ins_absent by (cases "find t k") (fastforce+)

lemma ins_once: "find (snd (ins k v (snd (ins k w t)))) k = (case find t k of None \<Rightarrow> Some w | r \<Rightarrow> r)"
  by (simp add: find_ins split: option.split)

lemma inserted_iff: "fst (ins k v t) \<longleftrightarrow> find t k = None"
  using ins_present ins_absent by (cases "find t k") (fastforce+)

lemma size_ins: "table_ok t \<Longrightarrow> entries (snd (ins k v t)) = entries t + (if find t k = None then 1 else 0)"
proof -
  assume t: "table_ok t"
  show ?thesis
  proof (cases "find t k")
    case None
    then have "dom (find (snd (ins k v t))) = insert k (dom (find t))" using ins_absent [OF None] by simp
    with None t show ?thesis using size_card [OF t] size_card [OF ins_ok [OF t, of k v]] by (simp add: domIff)
  next
    case (Some w)
    then show ?thesis using ins_present by simp
  qed
qed

lemma size_erase: "table_ok t \<Longrightarrow> entries (erase k t) = entries t - (if find t k = None then 0 else 1)"
proof -
  assume t: "table_ok t"
  have "dom (find (erase k t)) = dom (find t) - {k}" using find_erase by auto
  then have "entries (erase k t) = card (dom (find t) - {k})" using size_card [OF erase_ok [OF t]] by simp
  also have "\<dots> = entries t - (if find t k = None then 0 else 1)"
    using size_card [OF t] by (simp add: card_Diff_singleton_if domIff)
  finally show ?thesis .
qed

lemma size_erase_le: "table_ok t \<Longrightarrow> entries (erase k t) \<le> entries t"
  by (simp add: size_erase)

end

interpretation assoc: hash_table "\<lambda>t. distinct (map fst t)" map_of emplace AList.delete length
proof (unfold_locales, goal_cases)
  case (1 t k w v)
  then show ?case by (simp add: emplace_def)
next
  case (2 t k v)
  then show ?case by (auto simp: emplace_def map_add_def fun_eq_iff split: option.splits)
next
  case (3 k t)
  show ?case by (simp add: delete_conv fun_eq_iff)
next
  case (4 t k v)
  then show ?case by (auto simp: emplace_def map_of_eq_None_iff)
next
  case (5 t k)
  then show ?case by (rule distinct_delete)
next
  case (6 t)
  then have "card (set (map fst t)) = length (map fst t)" by (rule distinct_card)
  then show ?case by (simp add: dom_map_of_conv_image_fst)
qed

lemmas table_simps = assoc.find_ins assoc.find_erase assoc.size_ins assoc.size_erase

end
