(* ===== verification/Dispatcher.thy ===== *)
theory Dispatcher
  imports ServiceTypes HashTable
begin

text \<open>
  The method table of the server, \<open>transport/service_dispatcher.cpp\<close>, and the request types of
  \<open>transport/rpc_server.h\<close>. The table is copied on every change and published in two stores, the
  table and then its generation; a lookup goes through a cache of the calling thread that is keyed
  by the generation. \<open>RegisterStore\<close>, \<open>UnregisterStore\<close> and \<open>LookupCached\<close> are these atomic stretches and
  \<open>dispatch_step\<close> interleaves them for any number of threads.

  A handler is code of the application: a function from the request to the response, \<open>None\<close> when
  it throws. An empty \<open>std::function\<close> is \<open>None\<close> where the code tests for it.
\<close>

section \<open>Requests and handlers\<close>

datatype RpcExecutionMode = CPU_POOL | IO_COROUTINE | NETWORK_INLINE

record ServerRequest =
  sr_request_id :: u64
  sr_deadline_ms :: u64
  sr_metadata :: RequestMetadata
  sr_frame :: Frame

type_synonym RpcHandler = "ServerRequest \<Rightarrow> Frame option"

record Method =
  m_handler :: RpcHandler
  m_view_handler :: "RpcHandler option"
  m_mode :: RpcExecutionMode
  m_capability :: MethodCapability
  m_service :: string
  m_method :: string

record ServiceDispatcher =
  method_table :: "(string \<times> Method) list"
  generation :: nat

definition new_dispatcher :: ServiceDispatcher where
  "new_dispatcher = \<lparr>method_table = [], generation = 1\<rparr>"

definition Key :: "string \<Rightarrow> string \<Rightarrow> string" where
  "Key svc meth = svc @ [CHR 0x0A] @ meth"

section \<open>Registration\<close>

definition RegisterStore :: "string \<Rightarrow> string \<Rightarrow> RpcHandler option \<Rightarrow> RpcExecutionMode \<Rightarrow> MethodCapability \<Rightarrow>
    ServiceDispatcher \<Rightarrow> bool \<times> ServiceDispatcher" where
  "RegisterStore svc meth handler mode cap d =
     (case handler of
        None \<Rightarrow> (False, d)
      | Some h \<Rightarrow>
          if svc = [] \<or> meth = [] \<or> \<not> capability_valid cap then (False, d)
          else let entry = \<lparr>m_handler = h, m_view_handler = None, m_mode = mode, m_capability = cap,
                     m_service = svc, m_method = meth\<rparr>;
                   (inserted, next) = emplace (Key svc meth) entry (method_table d)
               in (inserted, if inserted then d\<lparr>method_table := next\<rparr> else d))"

definition RegisterInlineStore :: "string \<Rightarrow> string \<Rightarrow> RpcHandler option \<Rightarrow> RpcHandler option \<Rightarrow> MethodCapability \<Rightarrow>
    ServiceDispatcher \<Rightarrow> bool \<times> ServiceDispatcher" where
  "RegisterInlineStore svc meth handler view_handler cap d =
     (case handler of
        None \<Rightarrow> (False, d)
      | Some h \<Rightarrow>
          if svc = [] \<or> meth = [] \<or> view_handler = None \<or> \<not> capability_valid cap then (False, d)
          else let entry = \<lparr>m_handler = h, m_view_handler = view_handler, m_mode = NETWORK_INLINE, m_capability = cap,
                     m_service = svc, m_method = meth\<rparr>;
                   (inserted, next) = emplace (Key svc meth) entry (method_table d)
               in (inserted, if inserted then d\<lparr>method_table := next\<rparr> else d))"

definition UnregisterStore :: "string \<Rightarrow> string \<Rightarrow> ServiceDispatcher \<Rightarrow> bool \<times> ServiceDispatcher" where
  "UnregisterStore svc meth d =
     (if map_of (method_table d) (Key svc meth) = None then (False, d)
      else (True, d\<lparr>method_table := AList.delete (Key svc meth) (method_table d)\<rparr>))"

definition bump :: "bool \<times> ServiceDispatcher \<Rightarrow> bool \<times> ServiceDispatcher" where
  "bump r = (case r of (changed, d) \<Rightarrow> (changed, if changed then d\<lparr>generation := generation d + 1\<rparr> else d))"

definition Register :: "string \<Rightarrow> string \<Rightarrow> RpcHandler option \<Rightarrow> RpcExecutionMode \<Rightarrow> MethodCapability \<Rightarrow>
    ServiceDispatcher \<Rightarrow> bool \<times> ServiceDispatcher" where
  "Register svc meth handler mode cap d = bump (RegisterStore svc meth handler mode cap d)"

definition RegisterInline :: "string \<Rightarrow> string \<Rightarrow> RpcHandler option \<Rightarrow> RpcHandler option \<Rightarrow> MethodCapability \<Rightarrow>
    ServiceDispatcher \<Rightarrow> bool \<times> ServiceDispatcher" where
  "RegisterInline svc meth handler view_handler cap d = bump (RegisterInlineStore svc meth handler view_handler cap d)"

definition Unregister :: "string \<Rightarrow> string \<Rightarrow> ServiceDispatcher \<Rightarrow> bool \<times> ServiceDispatcher" where
  "Unregister svc meth d = bump (UnregisterStore svc meth d)"

definition Contains :: "string \<Rightarrow> string \<Rightarrow> ServiceDispatcher \<Rightarrow> bool" where
  "Contains svc meth d = (map_of (method_table d) (Key svc meth) \<noteq> None)"

section \<open>Lookup\<close>

text \<open>
  The cache of a thread. \<open>owned\<close> is whether it was filled for this dispatcher. The pointer to the
  method stays valid because the cache holds the snapshot it points into.
\<close>

record Cache =
  owned :: bool
  cache_generation :: nat
  cache_service :: string
  cache_method_name :: string
  cache_method :: "Method option"

definition new_cache :: Cache where
  "new_cache = \<lparr>owned = False, cache_generation = 0, cache_service = [], cache_method_name = [], cache_method = None\<rparr>"

text \<open>\<open>Lookup\<close> after its load of the generation \<open>g\<close>.\<close>

definition LookupCached :: "nat \<Rightarrow> string \<Rightarrow> string \<Rightarrow> Cache \<Rightarrow> ServiceDispatcher \<Rightarrow> Method option \<times> Cache" where
  "LookupCached g svc meth cache d =
     (if owned cache \<and> cache_generation cache = g \<and> cache_service cache = svc \<and> cache_method_name cache = meth
      then (cache_method cache, cache)
      else let found = map_of (method_table d) (Key svc meth)
           in (found, \<lparr>owned = True, cache_generation = g, cache_service = svc, cache_method_name = meth,
                 cache_method = found\<rparr>))"

definition DispatcherLookup :: "string \<Rightarrow> string \<Rightarrow> Cache \<Rightarrow> ServiceDispatcher \<Rightarrow> Method option \<times> Cache" where
  "DispatcherLookup svc meth cache d = LookupCached (generation d) svc meth cache d"

definition ExecutionMode :: "RequestMetadata \<Rightarrow> Cache \<Rightarrow> ServiceDispatcher \<Rightarrow> RpcExecutionMode \<times> Cache" where
  "ExecutionMode md cache d =
     (case DispatcherLookup (service md) (method_name md) cache d of
        (r, cache) \<Rightarrow> (case r of None \<Rightarrow> CPU_POOL | Some m \<Rightarrow> m_mode m, cache))"

definition unimplemented :: Frame where
  "unimplemented = SetResponseStatus RPC_UNIMPLEMENTED empty_frame"

definition Dispatch :: "ServerRequest \<Rightarrow> Cache \<Rightarrow> ServiceDispatcher \<Rightarrow> Frame option \<times> Cache" where
  "Dispatch request cache d =
     (case DispatcherLookup (service (sr_metadata request)) (method_name (sr_metadata request)) cache d of
        (r, cache) \<Rightarrow> (case r of None \<Rightarrow> Some unimplemented | Some m \<Rightarrow> m_handler m request, cache))"

definition DispatchInline :: "ServerRequest \<Rightarrow> Cache \<Rightarrow> ServiceDispatcher \<Rightarrow> Frame option \<times> Cache" where
  "DispatchInline request cache d =
     (case DispatcherLookup (service (sr_metadata request)) (method_name (sr_metadata request)) cache d of
        (r, cache) \<Rightarrow>
          (case r of
             None \<Rightarrow> Some unimplemented
           | Some m \<Rightarrow> (case m_view_handler m of None \<Rightarrow> Some unimplemented | Some h \<Rightarrow> h request), cache))"

text \<open>\<open>operator[]\<close> of the two maps of the result makes an entry when there is none.\<close>

fun add_capability :: "(string \<times> Method) list \<Rightarrow> (string \<times> (string \<times> MethodCapability) list) list \<Rightarrow>
    (string \<times> (string \<times> MethodCapability) list) list" where
  "add_capability [] result = result"
| "add_capability ((_, m) # entries) result =
     add_capability entries
       (let old = (case map_of result (m_service m) of None \<Rightarrow> [] | Some ms \<Rightarrow> ms)
        in AList.update (m_service m) (AList.update (m_method m) (m_capability m) old) result)"

definition Capabilities :: "ServiceDispatcher \<Rightarrow> (string \<times> (string \<times> MethodCapability) list) list" where
  "Capabilities d = add_capability (method_table d) []"

section \<open>Lookups and registrations together\<close>

text \<open>
  \<open>update_mutex_\<close> admits one change at a time: \<open>updating\<close> holds between its two stores. A thread is
  in a lookup while \<open>loaded\<close> has the generation it read.
\<close>

record DispatchSys =
  dispatcher :: ServiceDispatcher
  updating :: bool
  caches :: "nat \<Rightarrow> Cache"
  loaded :: "nat \<Rightarrow> nat option"

inductive dispatch_step :: "DispatchSys \<Rightarrow> DispatchSys \<Rightarrow> bool" where
  register_store: "\<not> updating s \<Longrightarrow> RegisterStore svc meth handler mode cap (dispatcher s) = (True, d) \<Longrightarrow>
    dispatch_step s (s\<lparr>dispatcher := d, updating := True\<rparr>)"
| register_inline_store: "\<not> updating s \<Longrightarrow> RegisterInlineStore svc meth handler view_handler cap (dispatcher s) = (True, d) \<Longrightarrow>
    dispatch_step s (s\<lparr>dispatcher := d, updating := True\<rparr>)"
| unregister_store: "\<not> updating s \<Longrightarrow> UnregisterStore svc meth (dispatcher s) = (True, d) \<Longrightarrow>
    dispatch_step s (s\<lparr>dispatcher := d, updating := True\<rparr>)"
| bump_generation: "updating s \<Longrightarrow> bump (True, dispatcher s) = (True, d) \<Longrightarrow>
    dispatch_step s (s\<lparr>dispatcher := d, updating := False\<rparr>)"
| lookup_load: "loaded s t = None \<Longrightarrow>
    dispatch_step s (s\<lparr>loaded := (loaded s)(t \<mapsto> generation (dispatcher s))\<rparr>)"
| lookup_find: "loaded s t = Some g \<Longrightarrow> LookupCached g svc meth (caches s t) (dispatcher s) = (r, cache) \<Longrightarrow>
    dispatch_step s (s\<lparr>caches := (caches s)(t := cache), loaded := (loaded s)(t := None)\<rparr>)"

definition dispatch_start :: "DispatchSys \<Rightarrow> bool" where
  "dispatch_start s \<longleftrightarrow> dispatcher s = new_dispatcher \<and> \<not> updating s \<and> caches s = (\<lambda>_. new_cache) \<and> loaded s = (\<lambda>_. None)"

text \<open>A cache line is right for the table it was filled from.\<close>

definition cache_right :: "ServiceDispatcher \<Rightarrow> Cache \<Rightarrow> bool" where
  "cache_right d c \<longleftrightarrow> cache_method c = map_of (method_table d) (Key (cache_service c) (cache_method_name c))"

definition dispatch_inv :: "DispatchSys \<Rightarrow> bool" where
  "dispatch_inv s \<longleftrightarrow> 0 < generation (dispatcher s) \<and>
     (\<forall>t. (owned (caches s t) \<longrightarrow> cache_generation (caches s t) \<le> generation (dispatcher s)) \<and>
        (owned (caches s t) \<and> \<not> updating s \<and> cache_generation (caches s t) = generation (dispatcher s) \<longrightarrow>
           cache_right (dispatcher s) (caches s t)) \<and>
        (\<forall>g. loaded s t = Some g \<longrightarrow> g \<le> generation (dispatcher s)))"

lemma store_generation:
  "RegisterStore svc meth handler mode cap d = (b, d') \<Longrightarrow> generation d' = generation d"
  "RegisterInlineStore svc meth handler view_handler cap d = (b, d') \<Longrightarrow> generation d' = generation d"
  "UnregisterStore svc meth d = (b, d') \<Longrightarrow> generation d' = generation d"
  by (auto simp: RegisterStore_def RegisterInlineStore_def UnregisterStore_def split: option.splits if_splits prod.splits)

lemma dispatch_step_inv:
  assumes "dispatch_step s s'" "dispatch_inv s"
  shows "dispatch_inv s'"
  using assms
proof (induction rule: dispatch_step.induct)
  case (register_store s svc meth handler mode cap d)
  then show ?case using store_generation(1) [OF register_store(2)] by (simp add: dispatch_inv_def)
next
  case (register_inline_store s svc meth handler view_handler cap d)
  then show ?case using store_generation(2) [OF register_inline_store(2)] by (simp add: dispatch_inv_def)
next
  case (unregister_store s svc meth d)
  then show ?case using store_generation(3) [OF unregister_store(2)] by (simp add: dispatch_inv_def)
next
  case (bump_generation s d)
  then have "generation d = Suc (generation (dispatcher s))" by (auto simp: bump_def)
  then show ?case using bump_generation(3) by (auto simp: dispatch_inv_def le_Suc_eq)
next
  case (lookup_load s t)
  then show ?case by (auto simp: dispatch_inv_def)
next
  case (lookup_find s t g svc meth r cache)
  then have g: "g \<le> generation (dispatcher s)" by (auto simp: dispatch_inv_def)
  have "cache = caches s t \<or>
      cache = \<lparr>owned = True, cache_generation = g, cache_service = svc, cache_method_name = meth,
        cache_method = map_of (method_table (dispatcher s)) (Key svc meth)\<rparr>"
    using lookup_find(2) by (auto simp: LookupCached_def Let_def split: if_splits)
  then show ?case using lookup_find(3) g by (auto simp: dispatch_inv_def cache_right_def)
qed

interpretation dispatch_system: invariant_system dispatch_start dispatch_step dispatch_inv
  by unfold_locales (auto simp: dispatch_start_def dispatch_inv_def new_dispatcher_def new_cache_def dest: dispatch_step_inv)

section \<open>Keys\<close>

lemma takeWhile_sep: "c \<notin> set x \<Longrightarrow> takeWhile (\<lambda>d. d \<noteq> c) (x @ c # y) = x"
  by (induction x) auto

lemma Key_inject:
  assumes "Key svc meth = Key svc' meth'" "CHR 0x0A \<notin> set svc" "CHR 0x0A \<notin> set svc'"
  shows "svc = svc' \<and> meth = meth'"
proof -
  from assms(1) have eq: "svc @ CHR 0x0A # meth = svc' @ CHR 0x0A # meth'" by (simp add: Key_def)
  then have "svc = svc'" using takeWhile_sep assms(2,3) by metis
  with eq show ?thesis by simp
qed

definition method_ok :: "string \<times> Method \<Rightarrow> bool" where
  "method_ok e \<longleftrightarrow> fst e = Key (m_service (snd e)) (m_method (snd e)) \<and> m_service (snd e) \<noteq> [] \<and>
     m_method (snd e) \<noteq> [] \<and> capability_valid (m_capability (snd e)) \<and>
     (m_view_handler (snd e) \<noteq> None \<longrightarrow> m_mode (snd e) = NETWORK_INLINE)"

definition dispatcher_wf :: "ServiceDispatcher \<Rightarrow> bool" where
  "dispatcher_wf d \<longleftrightarrow> distinct (map fst (method_table d)) \<and> list_all method_ok (method_table d) \<and> 0 < generation d"

lemma emplace_wf:
  assumes "dispatcher_wf d" "emplace k m (method_table d) = (b, t)" "method_ok (k, m)"
  shows "dispatcher_wf (d\<lparr>method_table := t\<rparr>)"
  using assms assoc.ins_ok [of "method_table d" k m]
  by (auto simp: dispatcher_wf_def emplace_def split: if_splits)

lemma delete_wf: "dispatcher_wf d \<Longrightarrow> dispatcher_wf (d\<lparr>method_table := AList.delete k (method_table d)\<rparr>)"
  using assoc.erase_ok [of "method_table d" k] by (auto simp: dispatcher_wf_def list_all_iff AList.delete_eq)

lemma RegisterStore_table:
  assumes "RegisterStore svc meth handler mode cap d = (True, d')"
  obtains h where "handler = Some h" "svc \<noteq> []" "meth \<noteq> []" "capability_valid cap"
    "map_of (method_table d) (Key svc meth) = None"
    "emplace (Key svc meth) \<lparr>m_handler = h, m_view_handler = None, m_mode = mode, m_capability = cap,
       m_service = svc, m_method = meth\<rparr> (method_table d) = (True, method_table d')"
    "d' = d\<lparr>method_table := method_table d'\<rparr>"
  using assms by (auto simp: RegisterStore_def emplace_def Let_def split: option.splits if_splits)

lemma RegisterInlineStore_table:
  assumes "RegisterInlineStore svc meth handler view_handler cap d = (True, d')"
  obtains h where "handler = Some h" "svc \<noteq> []" "meth \<noteq> []" "view_handler \<noteq> None" "capability_valid cap"
    "emplace (Key svc meth) \<lparr>m_handler = h, m_view_handler = view_handler, m_mode = NETWORK_INLINE, m_capability = cap,
       m_service = svc, m_method = meth\<rparr> (method_table d) = (True, method_table d')"
    "d' = d\<lparr>method_table := method_table d'\<rparr>"
  using assms by (auto simp: RegisterInlineStore_def emplace_def Let_def split: option.splits if_splits)

lemma store_refused:
  "RegisterStore svc meth handler mode cap d = (False, d') \<Longrightarrow> d' = d"
  "RegisterInlineStore svc meth handler view_handler cap d = (False, d') \<Longrightarrow> d' = d"
  "UnregisterStore svc meth d = (False, d') \<Longrightarrow> d' = d"
  by (auto simp: RegisterStore_def RegisterInlineStore_def UnregisterStore_def split: option.splits if_splits prod.splits)

lemma bump_wf: "dispatcher_wf d \<Longrightarrow> dispatcher_wf (snd (bump (b, d)))"
  by (simp add: bump_def dispatcher_wf_def)

lemma Register_wf: "dispatcher_wf d \<Longrightarrow> dispatcher_wf (snd (Register svc meth handler mode cap d))"
proof -
  assume d: "dispatcher_wf d"
  obtain b d' where st: "RegisterStore svc meth handler mode cap d = (b, d')" by fastforce
  have "dispatcher_wf d'"
  proof (cases b)
    case True
    with st have "RegisterStore svc meth handler mode cap d = (True, d')" by simp
    then show ?thesis
    proof (cases rule: RegisterStore_table)
      case (1 h)
      from 1 emplace_wf [OF d 1(6)] show ?thesis by (simp add: method_ok_def)
    qed
  next
    case False
    with st have "d' = d" using store_refused(1) by (metis (full_types))
    with d show ?thesis by simp
  qed
  then show ?thesis using st by (simp add: Register_def bump_wf)
qed

lemma RegisterInline_wf: "dispatcher_wf d \<Longrightarrow> dispatcher_wf (snd (RegisterInline svc meth handler view_handler cap d))"
proof -
  assume d: "dispatcher_wf d"
  obtain b d' where st: "RegisterInlineStore svc meth handler view_handler cap d = (b, d')" by fastforce
  have "dispatcher_wf d'"
  proof (cases b)
    case True
    with st have "RegisterInlineStore svc meth handler view_handler cap d = (True, d')" by simp
    then show ?thesis
    proof (cases rule: RegisterInlineStore_table)
      case (1 h)
      from 1 emplace_wf [OF d 1(6)] show ?thesis by (simp add: method_ok_def)
    qed
  next
    case False
    with st have "d' = d" using store_refused(2) by (metis (full_types))
    with d show ?thesis by simp
  qed
  then show ?thesis using st by (simp add: RegisterInline_def bump_wf)
qed

lemma Unregister_wf: "dispatcher_wf d \<Longrightarrow> dispatcher_wf (snd (Unregister svc meth d))"
  by (simp add: Unregister_def UnregisterStore_def bump_wf delete_wf)

section \<open>Properties\<close>

text \<open>
  C35. The method table stays well formed: it is at the start, and registering, registering inline
  and unregistering keep it so, whatever their arguments. Every key is made of the service and the
  method of its entry, names are not empty, the capability is valid, only inline methods have a view
  handler, and no key occurs twice.
\<close>

theorem dispatcher_well_formed:
  "dispatcher_wf new_dispatcher \<and>
   (\<forall>d svc meth handler view_handler mode cap. dispatcher_wf d \<longrightarrow>
      dispatcher_wf (snd (Register svc meth handler mode cap d)) \<and>
      dispatcher_wf (snd (RegisterInline svc meth handler view_handler cap d)) \<and>
      dispatcher_wf (snd (Unregister svc meth d)))"
  by (simp add: Register_wf RegisterInline_wf Unregister_wf) (simp add: dispatcher_wf_def new_dispatcher_def)

theorem dispatcher_well_formed_witness:
  "dispatcher_wf (snd (Register ''s'' ''m'' (Some (\<lambda>_. None)) CPU_POOL
     \<lparr>service_version = ''v1'', codec = ''raw'', request_schema = [], response_schema = []\<rparr> new_dispatcher)) \<and>
   fst (Register ''s'' ''m'' (Some (\<lambda>_. None)) CPU_POOL
     \<lparr>service_version = ''v1'', codec = ''raw'', request_schema = [], response_schema = []\<rparr> new_dispatcher)"
proof -
  let ?cap = "\<lparr>service_version = ''v1'', codec = ''raw'', request_schema = [], response_schema = []\<rparr>"
  have "fst (Register ''s'' ''m'' (Some (\<lambda>_. None)) CPU_POOL ?cap new_dispatcher)"
    by (simp add: Register_def RegisterStore_def bump_def emplace_def new_dispatcher_def capability_valid_def)
  then show ?thesis using dispatcher_well_formed by blast
qed

text \<open>
  C34. A lookup is never served from a stale cache: in every reachable state of any number of threads
  that look methods up while another registers and unregisters them, if no change is between its two
  stores, a lookup returns what the table has.
\<close>

theorem dispatch_lookup_current:
  assumes "reach dispatch_start dispatch_step s" "\<not> updating s"
  shows "fst (DispatcherLookup svc meth (caches s t) (dispatcher s)) = map_of (method_table (dispatcher s)) (Key svc meth)"
  using dispatch_system.reach_inv [OF assms(1)] assms(2)
  by (auto simp: DispatcherLookup_def LookupCached_def Let_def dispatch_inv_def cache_right_def)

theorem dispatch_lookup_current_witness:
  "\<exists>s. reach dispatch_start dispatch_step s \<and> method_table (dispatcher s) = [] \<and>
     fst (DispatcherLookup ''s'' ''m'' (caches s 0) (dispatcher s)) = None"
proof -
  define s where "s = \<lparr>dispatcher = new_dispatcher, updating = False, caches = (\<lambda>_. new_cache), loaded = (\<lambda>_. None)\<rparr>"
  have "reach dispatch_start dispatch_step s" by (rule reach.reach_init) (simp add: dispatch_start_def s_def)
  moreover from dispatch_lookup_current [OF this, of "''s''" "''m''" 0] have
    "fst (DispatcherLookup ''s'' ''m'' (caches s 0) (dispatcher s)) = None" by (simp add: s_def new_dispatcher_def)
  ultimately show ?thesis by (intro exI [of _ s]) (simp add: s_def new_dispatcher_def)
qed

text \<open>
  Registration decides dispatch. A successful registration makes requests for that service and
  method go to the handler and changes no other method; registering again is refused; and after
  \<open>Unregister\<close> the request is answered \<open>UNIMPLEMENTED\<close>.
\<close>

lemma register_dispatch_roundtrip:
  assumes "Register svc meth (Some h) mode cap d = (True, d')"
    and "service (sr_metadata request) = svc" "method_name (sr_metadata request) = meth"
  shows "fst (Dispatch request new_cache d') = h request \<and>
    fst (Register svc meth handler2 mode2 cap2 d') = False \<and>
    (\<forall>svc2 meth2. Key svc2 meth2 \<noteq> Key svc meth \<longrightarrow> fst (DispatcherLookup svc2 meth2 new_cache d') = fst (DispatcherLookup svc2 meth2 new_cache d)) \<and>
    fst (Dispatch request new_cache (snd (Unregister svc meth d'))) = Some unimplemented"
proof -
  obtain d1 where st: "RegisterStore svc meth (Some h) mode cap d = (True, d1)" "d' = d1\<lparr>generation := generation d1 + 1\<rparr>"
    using assms(1) by (cases "RegisterStore svc meth (Some h) mode cap d") (auto simp: Register_def bump_def split: if_splits)
  let ?m = "\<lparr>m_handler = h, m_view_handler = None, m_mode = mode, m_capability = cap, m_service = svc, m_method = meth\<rparr>"
  have look: "map_of (method_table d') = (map_of (method_table d))(Key svc meth \<mapsto> ?m)"
    using st assoc.ins_absent [of "method_table d" "Key svc meth" ?m] by (auto elim!: RegisterStore_table)
  have fresh: "fst (LookupCached g s2 m2 new_cache e) = map_of (method_table e) (Key s2 m2)" for g s2 m2 e
    by (simp add: LookupCached_def new_cache_def Let_def)
  have again: "fst (Register svc meth handler2 mode2 cap2 d') = False"
    using look by (auto simp: Register_def RegisterStore_def bump_def emplace_def Let_def split: option.splits if_splits)
  have "map_of (method_table (snd (Unregister svc meth d'))) (Key svc meth) = None"
    using look by (simp add: Unregister_def UnregisterStore_def bump_def table_simps)
  then have "fst (Dispatch request new_cache (snd (Unregister svc meth d'))) = Some unimplemented"
    using assms(2,3) fresh by (simp add: Dispatch_def DispatcherLookup_def case_prod_beta)
  then show ?thesis
    using again look fresh assms(2,3) by (simp add: Dispatch_def DispatcherLookup_def case_prod_beta)
qed

end
