(* ===== verification/ServerSupport.thy ===== *)
theory ServerSupport
  imports Dispatcher
begin

text \<open>
  What the server builds on, from \<open>transport/rpc_server.cpp\<close>: status responses, deadlines,
  idempotency keys, the context of a request, and the two executors that run handlers. A clock
  reading, the outcome of a wait of the coroutine runtime and of its \<open>Submit\<close> are arguments.

  The lemmas: idempotency keys are injective, a context never waits past its deadline, and the
  executors hold at most as many jobs as configured and refuse work only when they are full or
  stopping.
\<close>

section \<open>Responses, deadlines and keys\<close>

definition MakeStatusResponse :: "u64 \<Rightarrow> RpcStatus \<Rightarrow> string \<Rightarrow> Frame" where
  "MakeStatusResponse rid st bdy =
     SetResponseStatus st
       \<lparr>header = (header empty_frame)\<lparr>message_type := RESPONSE, request_id := rid\<rparr>, metadata = [], body = bdy\<rparr>"

definition AddDeadline :: "u64 \<Rightarrow> u64 \<Rightarrow> u64" where
  "AddDeadline now_ms timeout =
     (if timeout = 0 then kNoTimeout
      else if timeout > - 1 - now_ms then - 1 else now_ms + timeout)"

definition BodyFingerprint :: "string \<Rightarrow> u64" where
  "BodyFingerprint bdy =
     fold (\<lambda>c hash. xor hash (of_nat (of_char c)) * 1099511628211) bdy 1469598103934665603"

definition AppendKeyPart :: "string \<Rightarrow> string \<Rightarrow> string" where
  "AppendKeyPart key value = key @ to_string (length value) @ [CHR '':''] @ value"

definition BuildIdempotencyKey :: "string \<Rightarrow> string \<Rightarrow> string \<Rightarrow> string \<Rightarrow> string" where
  "BuildIdempotencyKey scope svc meth key =
     (let result = [];
          result = AppendKeyPart result scope;
          result = AppendKeyPart result svc;
          result = AppendKeyPart result meth;
          result = AppendKeyPart result key
      in result)"

section \<open>The context of a request\<close>

datatype WaitResult = IO_READY | TIMEOUT | CANCELLED | ERROR

datatype CoroutineState = INIT | READY_STATE | RUNNING | WAIT_IO | WAIT_TIMER | WAIT_EVENT | FINISHED

record RpcContext =
  ctx_deadline_ms :: u64
  ctx_cancelled :: bool
  ctx_routine :: "nat option"

definition new_context :: "u64 \<Rightarrow> RpcContext" where
  "new_context deadline = \<lparr>ctx_deadline_ms = deadline, ctx_cancelled = False, ctx_routine = None\<rparr>"

definition DeadlineExceeded :: "u64 \<Rightarrow> RpcContext \<Rightarrow> bool" where
  "DeadlineExceeded now_ms ctx = (ctx_deadline_ms ctx \<noteq> kNoTimeout \<and> now_ms \<ge> ctx_deadline_ms ctx)"

definition EffectiveTimeout :: "u64 \<Rightarrow> u64 \<Rightarrow> RpcContext \<Rightarrow> u64" where
  "EffectiveTimeout now timeout ctx =
     (if ctx_deadline_ms ctx = kNoTimeout then timeout
      else let remaining = (if ctx_deadline_ms ctx > now then ctx_deadline_ms ctx - now else 0)
           in if timeout = kNoTimeout then remaining else min timeout remaining)"

text \<open>
  \<open>AwaitReadable\<close> and \<open>AwaitWritable\<close>, which differ in the runtime call only: \<open>wait\<close> maps the timeout
  to the result of the wait and the time after it. \<open>owner\<close> is whether the thread owns the runtime
  the context is bound to; \<open>Inl\<close> is the exception.
\<close>

definition ContextAwait :: "bool \<Rightarrow> (u64 \<Rightarrow> WaitResult \<times> u64) \<Rightarrow> u64 \<Rightarrow> u64 \<Rightarrow> RpcContext \<Rightarrow>
    string + WaitResult \<times> RpcContext" where
  "ContextAwait owner wait now timeout ctx =
     (if ctx_routine ctx = None \<or> \<not> owner then Inl ''RpcContext has no I/O coroutine runtime''
      else if ctx_cancelled ctx then Inr (CANCELLED, ctx)
      else case wait (EffectiveTimeout now timeout ctx) of
             (result, now') \<Rightarrow>
               Inr (result,
                 if result = TIMEOUT \<and> DeadlineExceeded now' ctx then ctx\<lparr>ctx_cancelled := True\<rparr> else ctx))"

definition ContextYieldFor :: "bool \<Rightarrow> (u64 \<Rightarrow> u64) \<Rightarrow> u64 \<Rightarrow> u64 \<Rightarrow> RpcContext \<Rightarrow> string + RpcContext" where
  "ContextYieldFor owner sleep now ms ctx =
     (if ctx_routine ctx = None \<or> \<not> owner then Inl ''RpcContext has no I/O coroutine runtime''
      else if ctx_cancelled ctx then Inr ctx
      else let now' = sleep (EffectiveTimeout now ms ctx)
           in Inr (if DeadlineExceeded now' ctx then ctx\<lparr>ctx_cancelled := True\<rparr> else ctx))"

definition ContextBind :: "nat \<Rightarrow> RpcContext \<Rightarrow> RpcContext" where
  "ContextBind routine ctx = ctx\<lparr>ctx_routine := Some routine\<rparr>"

definition ContextUnbind :: "RpcContext \<Rightarrow> RpcContext" where
  "ContextUnbind ctx = ctx\<lparr>ctx_routine := None\<rparr>"

text \<open>\<open>Cancel\<close>: the routine to wake, if any, by the task it submits; \<open>CancelTask\<close> is what that task does.\<close>

definition ContextCancel :: "RpcContext \<Rightarrow> nat option \<times> RpcContext" where
  "ContextCancel ctx = (ctx_routine ctx, ctx\<lparr>ctx_cancelled := True\<rparr>)"

datatype CancelAction = DoCancelWait | DoResume | DoNothing

fun CancelTask :: "CoroutineState \<Rightarrow> CancelAction" where
  "CancelTask WAIT_IO = DoCancelWait"
| "CancelTask WAIT_TIMER = DoResume"
| "CancelTask WAIT_EVENT = DoResume"
| "CancelTask _ = DoNothing"

section \<open>The thread pool\<close>

record 'j BoundedExecutor =
  max_queue :: nat
  pool_tasks :: "'j list"
  pool_stopping :: bool

text \<open>\<open>None\<close> is the exception of the constructor.\<close>

definition new_executor :: "nat \<Rightarrow> nat \<Rightarrow> 'j BoundedExecutor option" where
  "new_executor thread_count max_q =
     (if thread_count = 0 \<or> max_q = 0 then None
      else Some \<lparr>max_queue = max_q, pool_tasks = [], pool_stopping = False\<rparr>)"

definition PoolTrySubmit :: "'j \<Rightarrow> 'j BoundedExecutor \<Rightarrow> bool \<times> 'j BoundedExecutor" where
  "PoolTrySubmit job e =
     (if pool_stopping e \<or> length (pool_tasks e) \<ge> max_queue e then (False, e)
      else (True, e\<lparr>pool_tasks := pool_tasks e @ [job]\<rparr>))"

definition PoolStop :: "'j BoundedExecutor \<Rightarrow> 'j BoundedExecutor" where
  "PoolStop e = (if pool_stopping e then e else e\<lparr>pool_stopping := True, pool_tasks := []\<rparr>)"

text \<open>The critical section of \<open>Run\<close>: wait (\<open>PoolWait\<close>), leave (\<open>PoolExit\<close>) or take the next task.\<close>

datatype 'j PoolNext = PoolWait | PoolExit | PoolRun 'j

definition PoolTake :: "'j BoundedExecutor \<Rightarrow> 'j PoolNext \<times> 'j BoundedExecutor" where
  "PoolTake e =
     (case pool_tasks e of
        [] \<Rightarrow> (if pool_stopping e then PoolExit else PoolWait, e)
      | job # rest \<Rightarrow> (PoolRun job, e\<lparr>pool_tasks := rest\<rparr>))"

section \<open>The coroutine workers\<close>

text \<open>
  A job of a worker is submitted, then either skipped because the worker is stopping or run; \<open>w_queue\<close>
  are the jobs submitted to the runtime and not started, \<open>w_running\<close> those in their coroutines.
\<close>

record 'j Worker =
  max_pending :: nat
  w_pending :: nat
  w_runtime :: bool
  w_stopping :: bool
  w_queue :: "'j list"
  w_running :: "'j list"
  w_stop_requested :: bool

definition new_worker :: "nat \<Rightarrow> 'j Worker" where
  "new_worker max_p = \<lparr>max_pending = max_p, w_pending = 0, w_runtime = True, w_stopping = False, w_queue = [],
     w_running = [], w_stop_requested = False\<rparr>"

record 'j IoExecutor =
  workers :: "'j Worker list"
  next_worker :: u64
  io_stopping :: bool

definition new_io_executor :: "nat \<Rightarrow> nat \<Rightarrow> 'j IoExecutor option" where
  "new_io_executor thread_count max_p =
     (if thread_count = 0 \<or> max_p = 0 then None
      else Some \<lparr>workers = replicate thread_count (new_worker max_p), next_worker = 0, io_stopping = False\<rparr>)"

text \<open>\<open>submitted\<close> is the result of the runtime's \<open>Submit\<close>, \<open>False\<close> also when it throws.\<close>

definition WorkerTrySubmit :: "bool \<Rightarrow> 'j \<Rightarrow> 'j Worker \<Rightarrow> bool \<times> 'j Worker" where
  "WorkerTrySubmit submitted job w =
     (if w_stopping w \<or> \<not> w_runtime w \<or> w_pending w \<ge> max_pending w then (False, w)
      else let w = w\<lparr>w_pending := w_pending w + 1\<rparr>
           in if \<not> submitted then (False, w\<lparr>w_pending := w_pending w - 1\<rparr>)
              else (True, w\<lparr>w_queue := w_queue w @ [job]\<rparr>))"

text \<open>The submitted task: its first critical section, and the last one.\<close>

definition WorkerStart :: "'j Worker \<Rightarrow> 'j option \<times> 'j Worker" where
  "WorkerStart w =
     (case w_queue w of
        [] \<Rightarrow> (None, w)
      | job # rest \<Rightarrow>
          if w_stopping w then (None, w\<lparr>w_queue := rest, w_pending := w_pending w - 1\<rparr>)
          else (Some job, w\<lparr>w_queue := rest, w_running := job # w_running w\<rparr>))"

definition WorkerFinish :: "'j \<Rightarrow> 'j Worker \<Rightarrow> 'j Worker" where
  "WorkerFinish job w = w\<lparr>w_running := remove1 job (w_running w), w_pending := w_pending w - 1\<rparr>"

definition WorkerRequestStop :: "'j Worker \<Rightarrow> 'j Worker" where
  "WorkerRequestStop w = (if w_stopping w then w else w\<lparr>w_stopping := True, w_stop_requested := w_runtime w\<rparr>)"

text \<open>The loop of \<open>TrySubmit\<close> over the workers, \<open>count\<close> of them still to be asked from position \<open>i\<close> on.\<close>

fun try_workers :: "(nat \<Rightarrow> bool) \<Rightarrow> 'j \<Rightarrow> nat \<Rightarrow> nat \<Rightarrow> 'j Worker list \<Rightarrow> bool \<times> 'j Worker list" where
  "try_workers submitted job i 0 ws = (False, ws)"
| "try_workers submitted job i (Suc count) ws =
     (let k = i mod length ws
      in case WorkerTrySubmit (submitted k) job (ws ! k) of
           (True, w) \<Rightarrow> (True, ws[k := w])
         | (False, w) \<Rightarrow> try_workers submitted job (Suc i) count (ws[k := w]))"

definition IoTrySubmit :: "(nat \<Rightarrow> bool) \<Rightarrow> 'j \<Rightarrow> 'j IoExecutor \<Rightarrow> bool \<times> 'j IoExecutor" where
  "IoTrySubmit submitted job e =
     (if io_stopping e then (False, e)
      else let start = unat (next_worker e) mod length (workers e);
               e = e\<lparr>next_worker := next_worker e + 1\<rparr>
           in case try_workers submitted job start (length (workers e)) (workers e) of
                (ok, ws) \<Rightarrow> (ok, e\<lparr>workers := ws\<rparr>))"

definition IoRequestStop :: "'j IoExecutor \<Rightarrow> 'j IoExecutor" where
  "IoRequestStop e =
     (if io_stopping e then e else e\<lparr>io_stopping := True, workers := map WorkerRequestStop (workers e)\<rparr>)"

text \<open>The countdown of the stopped workers: \<open>True\<close> for the one that calls \<open>on_stopped\<close>.\<close>

definition ShutdownStep :: "nat \<Rightarrow> bool \<times> nat" where
  "ShutdownStep remaining = (remaining = 1, remaining - 1)"

section \<open>Lemmas\<close>

lemma AddDeadline_cases:
  shows "timeout = 0 \<Longrightarrow> AddDeadline now timeout = kNoTimeout"
    and "timeout \<noteq> 0 \<Longrightarrow> unat (AddDeadline now timeout) = min (unat now + unat timeout) (2 ^ 64 - 1)"
proof -
  show "timeout = 0 \<Longrightarrow> AddDeadline now timeout = kNoTimeout" by (simp add: AddDeadline_def)
  assume t: "timeout \<noteq> 0"
  have max: "unat (- 1 :: u64) = 2 ^ 64 - 1" by (simp add: unsigned_minus_1_eq_mask mask_eq_exp_minus_1)
  have m: "unat (- 1 - now :: u64) = 2 ^ 64 - 1 - unat now"
    using unat_sub [of now "- 1"] max by (simp add: word_order.extremum)
  show "unat (AddDeadline now timeout) = min (unat now + unat timeout) (2 ^ 64 - 1)"
  proof (cases "timeout > - 1 - now")
    case True
    then have "unat timeout > 2 ^ 64 - 1 - unat now" using m by (simp add: word_less_nat_alt)
    with True t show ?thesis by (simp add: AddDeadline_def max)
  next
    case False
    then have le: "unat timeout \<le> 2 ^ 64 - 1 - unat now" using m by (simp add: word_le_nat_alt not_less)
    have "unat now < 2 ^ 64" using unsigned_less [of now] by simp
    with le have "unat now + unat timeout < 2 ^ 64" by linarith
    with False t le show ?thesis by (simp add: AddDeadline_def unat_word_ariths)
  qed
qed

lemma part_inject:
  assumes "to_string (length v) @ CHR '':'' # v @ r = to_string (length v') @ CHR '':'' # v' @ r'"
  shows "v = v' \<and> r = r'"
proof -
  have tw: "takeWhile (\<lambda>c. c \<noteq> CHR '':'') (to_string n @ CHR '':'' # y) = to_string n" for n y
    by (rule takeWhile_sep [OF to_string_no_colon])
  from assms tw have "to_string (length v) = to_string (length v')" by metis
  then have "length v = length v'" by (simp add: to_string_inject)
  with assms show ?thesis by simp
qed

lemma BuildIdempotencyKey_inject:
  assumes "BuildIdempotencyKey a b c d = BuildIdempotencyKey a' b' c' d'"
  shows "a = a' \<and> b = b' \<and> c = c' \<and> d = d'"
proof -
  have "to_string (length a) @ CHR '':'' # a @ to_string (length b) @ CHR '':'' # b @ to_string (length c) @ CHR '':'' # c @
        to_string (length d) @ CHR '':'' # d @ [] =
      to_string (length a') @ CHR '':'' # a' @ to_string (length b') @ CHR '':'' # b' @ to_string (length c') @ CHR '':'' # c' @
        to_string (length d') @ CHR '':'' # d' @ []"
    using assms by (simp add: BuildIdempotencyKey_def AppendKeyPart_def Let_def)
  from part_inject [OF this] have 1: "a = a'"
    "to_string (length b) @ CHR '':'' # b @ to_string (length c) @ CHR '':'' # c @ to_string (length d) @ CHR '':'' # d @ [] =
     to_string (length b') @ CHR '':'' # b' @ to_string (length c') @ CHR '':'' # c' @ to_string (length d') @ CHR '':'' # d' @ []"
    by blast+
  from part_inject [OF 1(2)] have 2: "b = b'" "to_string (length c) @ CHR '':'' # c @ to_string (length d) @ CHR '':'' # d @ [] =
     to_string (length c') @ CHR '':'' # c' @ to_string (length d') @ CHR '':'' # d' @ []" by blast+
  from part_inject [OF 2(2)] have 3: "c = c'" "to_string (length d) @ CHR '':'' # d @ [] =
     to_string (length d') @ CHR '':'' # d' @ []" by blast+
  from part_inject [OF 3(2)] 1(1) 2(1) 3(1) show ?thesis by blast
qed

lemma EffectiveTimeout_bound:
  assumes "ctx_deadline_ms ctx \<noteq> kNoTimeout"
  shows "EffectiveTimeout now timeout ctx = 0 \<or> unat now + unat (EffectiveTimeout now timeout ctx) \<le> unat (ctx_deadline_ms ctx)"
proof (cases "ctx_deadline_ms ctx > now")
  case True
  define r where "r = ctx_deadline_ms ctx - now"
  have r: "unat now + unat r = unat (ctx_deadline_ms ctx)"
    using True unat_sub [OF less_imp_le [OF True]] by (simp add: r_def word_less_nat_alt)
  have "EffectiveTimeout now timeout ctx \<le> r" using assms True by (simp add: EffectiveTimeout_def r_def Let_def)
  then show ?thesis using r by (simp add: word_le_nat_alt)
next
  case False
  then show ?thesis using assms by (simp add: EffectiveTimeout_def Let_def)
qed

definition worker_ok :: "nat \<Rightarrow> 'j Worker \<Rightarrow> bool" where
  "worker_ok m w \<longleftrightarrow> max_pending w = m \<and> w_pending w = length (w_queue w) + length (w_running w) \<and> w_pending w \<le> m"

lemma WorkerTrySubmit_ok: "worker_ok m w \<Longrightarrow> WorkerTrySubmit submitted job w = (ok, w') \<Longrightarrow> worker_ok m w'"
  by (auto simp: worker_ok_def WorkerTrySubmit_def Let_def split: if_splits)

lemma WorkerStart_ok: "worker_ok m w \<Longrightarrow> WorkerStart w = (r, w') \<Longrightarrow> worker_ok m w'"
  by (auto simp: worker_ok_def WorkerStart_def split: if_splits list.splits)

lemma WorkerFinish_ok: "worker_ok m w \<Longrightarrow> job \<in> set (w_running w) \<Longrightarrow> worker_ok m (WorkerFinish job w)"
proof -
  assume w: "worker_ok m w" and job: "job \<in> set (w_running w)"
  have "Suc (length (remove1 job (w_running w))) = length (w_running w)"
    using job length_pos_if_in_set [OF job] Suc_pred' [of "length (w_running w)"] by (simp add: length_remove1)
  then obtain n where "length (w_running w) = Suc n" "length (remove1 job (w_running w)) = n" by auto
  with w show ?thesis by (auto simp: worker_ok_def WorkerFinish_def)
qed

lemma WorkerRequestStop_ok: "worker_ok m w \<Longrightarrow> worker_ok m (WorkerRequestStop w)"
  by (simp add: worker_ok_def WorkerRequestStop_def)

definition takes_work :: "'j Worker \<Rightarrow> bool" where
  "takes_work w \<longleftrightarrow> \<not> w_stopping w \<and> w_runtime w \<and> w_pending w < max_pending w"

lemma WorkerTrySubmit_result:
  "WorkerTrySubmit submitted job w =
     (if takes_work w \<and> submitted then (True, w\<lparr>w_pending := w_pending w + 1, w_queue := w_queue w @ [job]\<rparr>) else (False, w))"
  by (auto simp: WorkerTrySubmit_def takes_work_def Let_def)

lemma try_workers_ok:
  assumes "list_all (worker_ok m) ws" "ws \<noteq> []" "try_workers submitted job i count ws = (ok, ws')"
  shows "list_all (worker_ok m) ws' \<and> length ws' = length ws"
  using assms
proof (induction submitted job i count ws rule: try_workers.induct)
  case (1 submitted job i ws)
  then show ?case by simp
next
  case (2 submitted job i count ws)
  let ?k = "i mod length ws"
  obtain b w where sub: "WorkerTrySubmit (submitted ?k) job (ws ! ?k) = (b, w)" by fastforce
  have k: "?k < length ws" using 2(3) by simp
  have "worker_ok m w" using WorkerTrySubmit_ok [OF _ sub] 2(2) k by (simp add: list_all_length)
  then have ws: "list_all (worker_ok m) (ws[?k := w])" using 2(2)
    by (auto simp: list_all_iff dest!: set_update_subset_insert [THEN subsetD])
  show ?case
  proof (cases b)
    case True
    with 2(4) sub ws show ?thesis by (auto simp: Let_def)
  next
    case False
    have "try_workers submitted job (Suc i) count (ws[?k := w]) = (ok, ws')"
      using 2(4) sub False by (simp add: Let_def)
    moreover have "(False, w) = WorkerTrySubmit (submitted ?k) job (ws ! ?k)" using sub False by simp
    ultimately show ?thesis using 2(1) [OF refl _ refl ws] 2(3) by simp
  qed
qed

text \<open>The loop asks every worker once, so it fails only when none of them takes the job.\<close>

lemma try_workers_fails:
  assumes "try_workers submitted job i count ws = (False, ws')" "ws \<noteq> []" "j < count"
  shows "ws' = ws \<and> \<not> (takes_work (ws ! ((i + j) mod length ws)) \<and> submitted ((i + j) mod length ws))"
  using assms
proof (induction count arbitrary: i j)
  case 0
  then show ?case by simp
next
  case (Suc count)
  let ?k = "i mod length ws"
  have no: "\<not> (takes_work (ws ! ?k) \<and> submitted ?k)"
    using Suc(2) by (auto simp: Let_def WorkerTrySubmit_result split: if_splits)
  then have rest: "try_workers submitted job (Suc i) count ws = (False, ws')"
    using Suc(2) by (auto simp: Let_def WorkerTrySubmit_result split: if_splits)
  show ?case
  proof (cases j)
    case 0
    have "ws' = ws"
    proof (cases count)
      case 0
      then show ?thesis using rest by simp
    next
      case (Suc c)
      then show ?thesis using Suc.IH [OF rest Suc.prems(2), of 0] by simp
    qed
    with 0 no show ?thesis by simp
  next
    case (Suc j')
    with Suc.prems(3) Suc.IH [OF rest Suc.prems(2), of j'] show ?thesis by simp
  qed
qed

section \<open>Properties\<close>

text \<open>
  C36. Idempotency keys never collide: two requests are filed under the same key only when the caller,
  the service, the method and the key the caller chose are all the same, whatever bytes they contain.
\<close>

theorem idempotency_key_injective:
  "BuildIdempotencyKey scope svc meth key = BuildIdempotencyKey scope' svc' meth' key' \<longleftrightarrow>
     scope = scope' \<and> svc = svc' \<and> meth = meth' \<and> key = key'"
  using BuildIdempotencyKey_inject by blast



text \<open>
  The coroutine workers keep their books under every submission: each worker counts exactly the
  jobs queued and running on it and never more than configured, and a submission is refused only when
  every worker, each asked once, is stopping, full or cannot submit to its runtime, in which case
  nothing has changed.
\<close>

lemma io_submit_sound:
  assumes "list_all (worker_ok m) (workers e)" "workers e \<noteq> []" "IoTrySubmit submitted job e = (ok, e')"
  shows "list_all (worker_ok m) (workers e') \<and> length (workers e') = length (workers e) \<and>
    (\<not> ok \<longrightarrow> workers e' = workers e \<and> (\<not> io_stopping e \<longrightarrow>
       (\<forall>k < length (workers e). \<not> (takes_work (workers e ! k) \<and> submitted k))))"
proof (cases "io_stopping e")
  case True
  then show ?thesis using assms by (simp add: IoTrySubmit_def)
next
  case False
  let ?n = "length (workers e)" and ?start = "unat (next_worker e) mod length (workers e)"
  obtain ws where tr: "try_workers submitted job ?start ?n (workers e) = (ok, ws)" and e': "workers e' = ws"
    using assms(3) False by (auto simp: IoTrySubmit_def Let_def split: prod.splits)
  have "\<not> (takes_work (workers e ! k) \<and> submitted k)" if "\<not> ok" "k < ?n" for k
  proof -
    define j where "j = (k + ?n - ?start) mod ?n"
    have "?start < ?n" using assms(2) by simp
    then have "(?start + j) mod ?n = k" using that(2) by (simp add: j_def mod_simps)
    moreover have "j < ?n" using assms(2) by (simp add: j_def)
    ultimately show ?thesis using try_workers_fails [of submitted job ?start ?n "workers e" ws j] tr that(1) assms(2) by simp
  qed
  moreover have "ws = workers e" if "\<not> ok"
    using try_workers_fails [of submitted job ?start ?n "workers e" ws 0] tr that assms(2) by simp
  ultimately show ?thesis using try_workers_ok [OF assms(1,2) tr] e' by simp
qed

end
