(* ===== verification/Server.thy ===== *)
theory Server
  imports ServerSupport
begin

text \<open>
  The server, \<open>transport/rpc_server.cpp\<close>: its connections, the requests in flight, the table of
  idempotent requests, and draining. The whole of \<open>ServerConnection\<close> and \<open>RpcServer\<close> runs in reactions
  of a network shard to a frame, to a completion that a worker posted, to a task another shard
  posted, or to the end of a connection; each is one definition here, and the step relation
  \<open>server_step\<close> lets them happen in any order. Shards share only the atomic counters and the
  table under \<open>idempotency_mutex_\<close>, and a request and its connection are touched by the shard that
  owns the connection alone.

  Connections and requests are objects: they live at addresses, and \<open>sv_conns\<close> and \<open>sv_requests\<close> are
  total, a connection that was never attached counting as closed and a request that was never
  accepted as completed. A weak pointer to a request that is gone behaves like one to a completed
  request, since a request is dropped only after it is completed.

  What the application supplies (handlers, selectors) is the record \<open>ServerCode\<close>. The pool of
  encode buffers only recycles memory and is left out; so are the sockets, whose outcomes are
  arguments, and threads.
\<close>

section \<open>State\<close>

record RpcServerOptions =
  max_connections :: nat
  max_inflight_per_connection :: nat
  max_inflight_requests :: nat
  max_outbound_bytes_per_connection :: nat
  network_threads :: nat
  io_worker_threads :: nat
  worker_threads :: nat
  max_worker_queue :: nat
  max_idempotency_entries :: nat
  execution_mode :: RpcExecutionMode

definition default_server_options :: RpcServerOptions where
  "default_server_options = \<lparr>max_connections = 1024, max_inflight_per_connection = 256, max_inflight_requests = 8192,
     max_outbound_bytes_per_connection = 16 * 1024 * 1024, network_threads = 1, io_worker_threads = 1,
     worker_threads = 4, max_worker_queue = 4096, max_idempotency_entries = 8192, execution_mode = CPU_POOL\<rparr>"

record ServerCode =
  handler :: RpcHandler
  execution_mode_selector :: "(RequestMetadata \<Rightarrow> RpcExecutionMode) option"
  execution_mode_view_selector :: "(RequestMetadata \<Rightarrow> RpcExecutionMode) option"
  inline_view_handler :: "RpcHandler option"

text \<open>Managed mode: the dispatcher supplies the code.\<close>

definition managed_code :: "Cache \<Rightarrow> ServiceDispatcher \<Rightarrow> ServerCode" where
  "managed_code cache d =
     \<lparr>handler = (\<lambda>request. fst (Dispatch request cache d)),
      execution_mode_selector = Some (\<lambda>md. fst (ExecutionMode md cache d)),
      execution_mode_view_selector = Some (\<lambda>md. fst (ExecutionMode md cache d)),
      inline_view_handler = Some (\<lambda>request. fst (DispatchInline request cache d))\<rparr>"

record RequestState =
  rq_conn :: nat
  rq_request_id :: u64
  rq_deadline_ms :: u64
  rq_idempotency_key :: string
  rq_fingerprint :: u64
  rq_context :: RpcContext
  rq_completed :: bool

datatype ServerWriterPc = SW_None | SW_Running | SW_Waiting | SW_Writing string

record ServerConnection =
  sc_shard :: nat
  caller_scope :: string
  sc_decoder :: FrameDecoder
  sc_requests :: "(u64 \<times> nat) list"
  sc_outbound :: "string list"
  sc_outbound_bytes :: nat
  sc_writer :: ServerWriterPc
  draining :: bool
  closed :: bool

record IdempotencyRecord =
  pending :: bool
  body_fingerprint :: u64
  rec_body :: string
  rec_response :: Frame
  waiters :: "nat list"

record RpcServerMetrics =
  accepted_connections :: u64
  rejected_connections :: u64
  requests_received :: u64
  requests_rejected :: u64
  requests_completed :: u64
  requests_timed_out :: u64
  duplicate_requests :: u64
  cancellations :: u64

type_synonym ServerJob = "nat \<times> ServerRequest"

record RpcServer =
  sv_options :: RpcServerOptions
  started :: bool
  sv_accepting :: bool
  stopped :: bool
  listening :: bool
  inflight_count :: nat
  active_connections :: nat
  sv_conns :: "nat \<Rightarrow> ServerConnection"
  sv_requests :: "nat \<Rightarrow> RequestState"
  next_conn :: nat
  next_request :: nat
  attached :: "nat list"
  idempotency :: "(string \<times> IdempotencyRecord) list"
  completed_idempotency_keys :: "string list"
  executor :: "ServerJob BoundedExecutor option"
  io_executor :: "ServerJob IoExecutor option"
  sv_metrics :: RpcServerMetrics
  next_network_shard :: u64
  posted_finishes :: "(nat \<times> Frame) list"
  posted_closes :: "nat list"
  submitted_checks :: nat
  crashed :: bool

definition dead_conn :: ServerConnection where
  "dead_conn = \<lparr>sc_shard = 0, caller_scope = [], sc_decoder = new_decoder default_limits, sc_requests = [], sc_outbound = [],
     sc_outbound_bytes = 0, sc_writer = SW_None, draining = False, closed = True\<rparr>"

definition dead_request :: RequestState where
  "dead_request = \<lparr>rq_conn = 0, rq_request_id = 0, rq_deadline_ms = kNoTimeout, rq_idempotency_key = [], rq_fingerprint = 0,
     rq_context = new_context kNoTimeout, rq_completed = True\<rparr>"

text \<open>\<open>Initialize\<close>; \<open>None\<close> is the exception it throws, also from the constructors of the executors.\<close>

definition Initialize :: "RpcServerOptions \<Rightarrow> ServerCode \<Rightarrow> RpcServer option" where
  "Initialize opts code =
     (if max_connections opts = 0 \<or> max_inflight_per_connection opts = 0 \<or> max_inflight_requests opts = 0 \<or>
         max_outbound_bytes_per_connection opts = 0 \<or> max_idempotency_entries opts = 0 \<or> network_threads opts = 0 \<or>
         io_worker_threads opts = 0 then None
      else let pool = execution_mode_selector code \<noteq> None \<or> execution_mode opts = CPU_POOL;
               io = execution_mode_selector code \<noteq> None \<or> execution_mode opts = IO_COROUTINE;
               e = new_executor (worker_threads opts) (max_worker_queue opts);
               w = new_io_executor (io_worker_threads opts) (max_worker_queue opts)
           in if (pool \<and> e = None) \<or> (io \<and> w = None) then None
              else Some \<lparr>sv_options = opts, started = False, sv_accepting = True, stopped = False, listening = False,
                inflight_count = 0, active_connections = 0, sv_conns = (\<lambda>_. dead_conn), sv_requests = (\<lambda>_. dead_request),
                next_conn = 0, next_request = 0, attached = [], idempotency = [], completed_idempotency_keys = [],
                executor = (if pool then e else None), io_executor = (if io then w else None),
                sv_metrics = \<lparr>accepted_connections = 0, rejected_connections = 0, requests_received = 0, requests_rejected = 0,
                  requests_completed = 0, requests_timed_out = 0, duplicate_requests = 0, cancellations = 0\<rparr>,
                next_network_shard = 0, posted_finishes = [], posted_closes = [], submitted_checks = 0, crashed = False\<rparr>)"

abbreviation conn_at :: "RpcServer \<Rightarrow> nat \<Rightarrow> ServerConnection" where
  "conn_at sv c \<equiv> sv_conns sv c"

abbreviation request_at :: "RpcServer \<Rightarrow> nat \<Rightarrow> RequestState" where
  "request_at sv a \<equiv> sv_requests sv a"

definition upd_conn :: "nat \<Rightarrow> ServerConnection \<Rightarrow> RpcServer \<Rightarrow> RpcServer" where
  "upd_conn c cn sv = sv\<lparr>sv_conns := (sv_conns sv)(c := cn)\<rparr>"

definition upd_request :: "nat \<Rightarrow> RequestState \<Rightarrow> RpcServer \<Rightarrow> RpcServer" where
  "upd_request a rq sv = sv\<lparr>sv_requests := (sv_requests sv)(a := rq)\<rparr>"

definition shard_of :: "RpcServer \<Rightarrow> nat \<Rightarrow> nat" where
  "shard_of sv a = sc_shard (conn_at sv (rq_conn (request_at sv a)))"

definition count_metric :: "(RpcServerMetrics \<Rightarrow> RpcServerMetrics) \<Rightarrow> RpcServer \<Rightarrow> RpcServer" where
  "count_metric f sv = sv\<lparr>sv_metrics := f (sv_metrics sv)\<rparr>"

section \<open>The end of a connection\<close>

text \<open>What \<open>Cancel\<close> and \<open>Abandon\<close> do in the table of idempotent requests.\<close>

definition RemoveWaiter :: "nat \<Rightarrow> string \<Rightarrow> RpcServer \<Rightarrow> RpcServer" where
  "RemoveWaiter a key sv =
     (case map_of (idempotency sv) key of
        None \<Rightarrow> sv
      | Some r \<Rightarrow>
          if \<not> pending r then sv
          else let ws = removeAll a (waiters r)
               in if ws = [] then sv\<lparr>idempotency := AList.delete key (idempotency sv)\<rparr>
                  else sv\<lparr>idempotency := AList.update key (r\<lparr>waiters := ws\<rparr>) (idempotency sv)\<rparr>)"

definition CancelContext :: "nat \<Rightarrow> RpcServer \<Rightarrow> RpcServer" where
  "CancelContext a sv =
     upd_request a ((request_at sv a)\<lparr>rq_context := snd (ContextCancel (rq_context (request_at sv a)))\<rparr>) sv"

definition Abandon :: "nat \<Rightarrow> RpcServer \<Rightarrow> RpcServer" where
  "Abandon a sv =
     (if rq_completed (request_at sv a) then sv
      else let sv = upd_request a ((request_at sv a)\<lparr>rq_completed := True\<rparr>) sv;
               sv = CancelContext a sv;
               sv = sv\<lparr>inflight_count := inflight_count sv - 1\<rparr>
           in if rq_idempotency_key (request_at sv a) = [] then sv
              else RemoveWaiter a (rq_idempotency_key (request_at sv a)) sv)"

text \<open>
  \<open>Close\<close> and \<open>OnConnectionClosed\<close> up to its last call. The socket is closed, which ends the waits
  of the reader and the writer; a writer that waits for frames is resumed and leaves its loop.
\<close>

definition CloseCore :: "nat \<Rightarrow> RpcServer \<Rightarrow> RpcServer" where
  "CloseCore c sv =
     (let cn = conn_at sv c
      in if closed cn then sv
         else let detached = map snd (sc_requests cn);
                  sv = upd_conn c (cn\<lparr>closed := True, sc_outbound := [], sc_outbound_bytes := 0, sc_requests := [],
                         sc_writer := (case sc_writer cn of SW_Waiting \<Rightarrow> SW_Running | w \<Rightarrow> w)\<rparr>) sv;
                  sv = sv\<lparr>attached := remove1 c (attached sv), active_connections := active_connections sv - 1\<rparr>
              in fold Abandon detached sv)"

text \<open>
  \<open>StopNow\<close> on its owner thread. \<open>stopped\<close> is set first, so the closing connections do not come back
  to it. The other shards close their connections in a posted task.
\<close>

definition StopNow :: "RpcServer \<Rightarrow> RpcServer" where
  "StopNow sv =
     (if stopped sv then sv
      else let sv = sv\<lparr>stopped := True, sv_accepting := False, listening := False\<rparr>;
               sv = fold CloseCore (filter (\<lambda>c. sc_shard (conn_at sv c) = 0) (attached sv)) sv;
               sv = sv\<lparr>posted_closes := posted_closes sv @ [1..<network_threads (sv_options sv)]\<rparr>
           in sv\<lparr>executor := map_option PoolStop (executor sv), io_executor := map_option IoRequestStop (io_executor sv)\<rparr>)"

text \<open>The task that closes the connections of shard \<open>k\<close>.\<close>

definition CloseShard :: "nat \<Rightarrow> RpcServer \<Rightarrow> RpcServer" where
  "CloseShard k sv = fold CloseCore (filter (\<lambda>c. sc_shard (conn_at sv c) = k) (attached sv)) sv"

text \<open>\<open>MaybeFinishDrain\<close> on the thread of shard \<open>k\<close>; shard 0 runs on the runtime of the server.\<close>

definition ServerMaybeFinishDrain :: "nat \<Rightarrow> RpcServer \<Rightarrow> RpcServer" where
  "ServerMaybeFinishDrain k sv =
     (if sv_accepting sv \<or> stopped sv \<or> inflight_count sv \<noteq> 0 \<or> active_connections sv \<noteq> 0 then sv
      else if k = 0 then StopNow sv
      else sv\<lparr>submitted_checks := submitted_checks sv + 1\<rparr>)"

definition ServerClose :: "nat \<Rightarrow> RpcServer \<Rightarrow> RpcServer" where
  "ServerClose c sv =
     (if closed (conn_at sv c) then sv else ServerMaybeFinishDrain (sc_shard (conn_at sv c)) (CloseCore c sv))"

section \<open>Responses\<close>

definition QueueEncoded :: "nat \<Rightarrow> string \<Rightarrow> RpcServer \<Rightarrow> bool \<times> RpcServer" where
  "QueueEncoded c bytes sv =
     (let cn = conn_at sv c; lim = max_outbound_bytes_per_connection (sv_options sv)
      in if length bytes > lim \<or> sc_outbound_bytes cn > lim - length bytes then (False, ServerClose c sv)
         else (True, upd_conn c (cn\<lparr>sc_outbound_bytes := sc_outbound_bytes cn + length bytes, sc_outbound := sc_outbound cn @ [bytes],
                sc_writer := (case sc_writer cn of SW_Waiting \<Rightarrow> SW_Running | w \<Rightarrow> w)\<rparr>) sv))"

definition QueueFrame :: "nat \<Rightarrow> Frame \<Rightarrow> RpcServer \<Rightarrow> bool \<times> RpcServer" where
  "QueueFrame c frame sv =
     (if closed (conn_at sv c) then (False, sv)
      else case Encode frame of
             Inl _ \<Rightarrow> (False, ServerClose c sv)
           | Inr bytes \<Rightarrow> QueueEncoded c bytes sv)"

definition MaybeCloseAfterDrain :: "nat \<Rightarrow> RpcServer \<Rightarrow> RpcServer" where
  "MaybeCloseAfterDrain c sv =
     (let cn = conn_at sv c
      in if draining cn \<and> sc_requests cn = [] \<and> sc_outbound cn = [] \<and> \<not> closed cn then ServerClose c sv else sv)"

definition CompleteRequest :: "nat \<Rightarrow> u64 \<Rightarrow> Frame \<Rightarrow> RpcServer \<Rightarrow> RpcServer" where
  "CompleteRequest c rid resp sv =
     (let sv = upd_conn c ((conn_at sv c)\<lparr>sc_requests := AList.delete rid (sc_requests (conn_at sv c))\<rparr>) sv;
          sv = snd (QueueFrame c resp sv)
      in MaybeCloseAfterDrain c sv)"

definition ConnBeginDrain :: "nat \<Rightarrow> RpcServer \<Rightarrow> RpcServer" where
  "ConnBeginDrain c sv = MaybeCloseAfterDrain c (upd_conn c ((conn_at sv c)\<lparr>draining := True\<rparr>) sv)"

text \<open>\<open>stamp\<close> sets the two header fields every response gets.\<close>

definition stamp :: "u64 \<Rightarrow> Frame \<Rightarrow> Frame" where
  "stamp rid resp = resp\<lparr>header := (header resp)\<lparr>message_type := RESPONSE, request_id := rid\<rparr>\<rparr>"

definition Finish :: "nat \<Rightarrow> u64 \<Rightarrow> Frame \<Rightarrow> RpcServer \<Rightarrow> RpcServer" where
  "Finish a now resp sv =
     (let rq = request_at sv a
      in if rq_completed rq then sv
         else let late = rq_deadline_ms rq \<noteq> kNoTimeout \<and> now \<ge> rq_deadline_ms rq;
                  sv = upd_request a (rq\<lparr>rq_completed := True\<rparr>) sv;
                  sv = (if late then count_metric (\<lambda>m. m\<lparr>requests_timed_out := requests_timed_out m + 1\<rparr>) (CancelContext a sv)
                        else sv);
                  resp = (if late then MakeStatusResponse (rq_request_id rq) RPC_DEADLINE_EXCEEDED [] else resp);
                  sv = sv\<lparr>inflight_count := inflight_count sv - 1\<rparr>;
                  sv = count_metric (\<lambda>m. m\<lparr>requests_completed := requests_completed m + 1\<rparr>) sv;
                  sv = CompleteRequest (rq_conn rq) (rq_request_id rq) (stamp (rq_request_id rq) resp) sv
              in ServerMaybeFinishDrain (shard_of sv a) sv)"

section \<open>Idempotent requests\<close>

fun PruneIdempotencyCache :: "nat \<Rightarrow> (string \<times> IdempotencyRecord) list \<Rightarrow> string list \<Rightarrow>
    (string \<times> IdempotencyRecord) list \<times> string list" where
  "PruneIdempotencyCache lim table [] = (table, [])"
| "PruneIdempotencyCache lim table (key # keys) =
     (if length table \<ge> lim
      then PruneIdempotencyCache lim
             (case map_of table key of
                None \<Rightarrow> table
              | Some r \<Rightarrow> if pending r then table else AList.delete key table) keys
      else (table, key # keys))"

definition Prune :: "RpcServer \<Rightarrow> RpcServer" where
  "Prune sv =
     (case PruneIdempotencyCache (max_idempotency_entries (sv_options sv)) (idempotency sv) (completed_idempotency_keys sv) of
        (table, keys) \<Rightarrow> sv\<lparr>idempotency := table, completed_idempotency_keys := keys\<rparr>)"

text \<open>
  \<open>FinishOnOwner\<close> for the waiters in turn, on the thread of shard \<open>k\<close>: a waiter of this shard is finished at once, for
  another one a task is posted to its shard. \<open>now a\<close> is the clock when \<open>a\<close> is finished.
\<close>

fun FinishOnOwner :: "nat \<Rightarrow> (nat \<Rightarrow> u64) \<Rightarrow> Frame \<Rightarrow> nat list \<Rightarrow> RpcServer \<Rightarrow> RpcServer" where
  "FinishOnOwner k now resp [] sv = sv"
| "FinishOnOwner k now resp (a # as) sv =
     FinishOnOwner k now resp as
       (if shard_of sv a = k then Finish a (now a) resp sv
        else sv\<lparr>posted_finishes := posted_finishes sv @ [(a, resp)]\<rparr>)"

definition FinishIdempotent :: "nat \<Rightarrow> (nat \<Rightarrow> u64) \<Rightarrow> string \<Rightarrow> Frame \<Rightarrow> bool \<Rightarrow> RpcServer \<Rightarrow> RpcServer" where
  "FinishIdempotent k now key resp cache_response sv =
     (case map_of (idempotency sv) key of
        None \<Rightarrow> sv
      | Some r \<Rightarrow>
          let sv = (if cache_response
                    then Prune (sv\<lparr>idempotency := AList.update key (r\<lparr>waiters := [], pending := False, rec_response := resp\<rparr>)
                             (idempotency sv),
                           completed_idempotency_keys := completed_idempotency_keys sv @ [key]\<rparr>)
                    else sv\<lparr>idempotency := AList.delete key (idempotency sv)\<rparr>)
          in FinishOnOwner k now resp (waiters r) sv)"

definition ServerCancel :: "u64 \<Rightarrow> nat \<Rightarrow> u64 \<Rightarrow> RpcServer \<Rightarrow> RpcServer" where
  "ServerCancel now c rid sv =
     (case map_of (sc_requests (conn_at sv c)) rid of
        None \<Rightarrow> sv
      | Some a \<Rightarrow>
          let sv = count_metric (\<lambda>m. m\<lparr>cancellations := cancellations m + 1\<rparr>) sv;
              sv = CancelContext a sv;
              sv = (if rq_idempotency_key (request_at sv a) = [] then sv
                    else RemoveWaiter a (rq_idempotency_key (request_at sv a)) sv)
          in Finish a now (MakeStatusResponse rid RPC_CANCELLED []) sv)"

definition OnWorkerCompletion :: "(nat \<Rightarrow> u64) \<Rightarrow> nat \<Rightarrow> Frame \<Rightarrow> bool \<Rightarrow> RpcServer \<Rightarrow> RpcServer" where
  "OnWorkerCompletion now a resp cache_response sv =
     (if rq_idempotency_key (request_at sv a) = []
      then (if rq_completed (request_at sv a) then sv else Finish a (now a) resp sv)
      else FinishIdempotent (shard_of sv a) now (rq_idempotency_key (request_at sv a)) resp cache_response sv)"

section \<open>Requests\<close>

definition AcquireInflight :: "RpcServer \<Rightarrow> bool \<times> RpcServer" where
  "AcquireInflight sv =
     (if inflight_count sv \<ge> max_inflight_requests (sv_options sv) then (False, sv)
      else (True, sv\<lparr>inflight_count := inflight_count sv + 1\<rparr>))"

text \<open>\<open>AddRequest\<close>: the request becomes an object at address \<open>next_request\<close> when it is added.\<close>

definition AddRequest :: "RequestState \<Rightarrow> RpcServer \<Rightarrow> bool \<times> RpcServer" where
  "AddRequest rq sv =
     (let cn = conn_at sv (rq_conn rq)
      in if closed cn \<or> length (sc_requests cn) \<ge> max_inflight_per_connection (sv_options sv) \<or>
            map_of (sc_requests cn) (rq_request_id rq) \<noteq> None then (False, sv)
         else (True, (upd_request (next_request sv) rq
                  (upd_conn (rq_conn rq) (cn\<lparr>sc_requests := snd (emplace (rq_request_id rq) (next_request sv) (sc_requests cn))\<rparr>) sv))
                    \<lparr>next_request := next_request sv + 1\<rparr>))"

definition reject_with :: "nat \<Rightarrow> u64 \<Rightarrow> RpcStatus \<Rightarrow> RpcServer \<Rightarrow> RpcServer" where
  "reject_with c rid st sv =
     snd (QueueFrame c (MakeStatusResponse rid st [])
       (count_metric (\<lambda>m. m\<lparr>requests_rejected := requests_rejected m + 1\<rparr>) sv))"

text \<open>The critical section of \<open>OnFrame\<close> under \<open>idempotency_mutex_\<close>, and what it decides.\<close>

datatype Admission = Run | Wait | UseCached Frame | Conflict | NoCapacity

definition AdmitIdempotent :: "nat \<Rightarrow> string \<Rightarrow> RpcServer \<Rightarrow> Admission \<times> RpcServer" where
  "AdmitIdempotent a bdy sv =
     (let rq = request_at sv a; key = rq_idempotency_key rq
      in case map_of (idempotency sv) key of
           Some r \<Rightarrow>
             let sv = count_metric (\<lambda>m. m\<lparr>duplicate_requests := duplicate_requests m + 1\<rparr>) sv
             in if body_fingerprint r \<noteq> rq_fingerprint rq \<or> rec_body r \<noteq> bdy then (Conflict, sv)
                else if pending r
                then (Wait, sv\<lparr>idempotency := AList.update key (r\<lparr>waiters := waiters r @ [a]\<rparr>) (idempotency sv)\<rparr>)
                else (UseCached (rec_response r), sv)
         | None \<Rightarrow>
             let sv = Prune sv
             in if length (idempotency sv) \<ge> max_idempotency_entries (sv_options sv) then (NoCapacity, sv)
                else (Run, sv\<lparr>idempotency := snd (emplace key
                       \<lparr>pending = True, body_fingerprint = rq_fingerprint rq, rec_body = bdy, rec_response = empty_frame,
                        waiters = [a]\<rparr> (idempotency sv))\<rparr>))"

text \<open>A handler run, on whatever thread: the response and whether it may be cached.\<close>

definition RunHandler :: "ServerCode \<Rightarrow> bool \<Rightarrow> ServerRequest \<Rightarrow> Frame \<times> bool" where
  "RunHandler code is_cancelled request =
     (if is_cancelled then (MakeStatusResponse (sr_request_id request) RPC_CANCELLED [], False)
      else case handler code request of
             Some resp \<Rightarrow> (stamp (sr_request_id request) resp, True)
           | None \<Rightarrow> (MakeStatusResponse (sr_request_id request) RPC_INTERNAL [], False))"

text \<open>How a request that was run, or that no worker takes, is finished on the thread of its shard.\<close>

definition FinishRun :: "(nat \<Rightarrow> u64) \<Rightarrow> nat \<Rightarrow> Frame \<Rightarrow> bool \<Rightarrow> RpcServer \<Rightarrow> RpcServer" where
  "FinishRun now a resp cache_response sv =
     (if rq_idempotency_key (request_at sv a) = [] then Finish a (now a) resp sv
      else FinishIdempotent (shard_of sv a) now (rq_idempotency_key (request_at sv a)) resp cache_response sv)"

definition RefuseRun :: "(nat \<Rightarrow> u64) \<Rightarrow> nat \<Rightarrow> RpcServer \<Rightarrow> RpcServer" where
  "RefuseRun now a sv =
     FinishRun now a (MakeStatusResponse (rq_request_id (request_at sv a)) RPC_RESOURCE_EXHAUSTED []) False
       (count_metric (\<lambda>m. m\<lparr>requests_rejected := requests_rejected m + 1\<rparr>) sv)"

text \<open>The last part of \<open>OnFrame\<close>: run the request inline or hand it to an executor. \<open>submitted\<close> is
  what the runtimes of the coroutine workers answer. An executor that was not created is a null pointer.\<close>

definition RunRequest :: "ServerCode \<Rightarrow> (nat \<Rightarrow> u64) \<Rightarrow> (nat \<Rightarrow> bool) \<Rightarrow> RpcExecutionMode \<Rightarrow> nat \<Rightarrow> ServerRequest \<Rightarrow>
    RpcServer \<Rightarrow> RpcServer" where
  "RunRequest code now submitted mode a request sv =
     (case mode of
        NETWORK_INLINE \<Rightarrow>
          (case RunHandler code (ctx_cancelled (rq_context (request_at sv a))) request of
             (resp, cache_response) \<Rightarrow> FinishRun now a resp cache_response sv)
      | IO_COROUTINE \<Rightarrow>
          (case io_executor sv of
             None \<Rightarrow> sv\<lparr>crashed := True\<rparr>
           | Some e \<Rightarrow>
               (case IoTrySubmit submitted (a, request) e of
                  (True, e) \<Rightarrow> sv\<lparr>io_executor := Some e\<rparr>
                | (False, e) \<Rightarrow> RefuseRun now a (sv\<lparr>io_executor := Some e\<rparr>)))
      | CPU_POOL \<Rightarrow>
          (case executor sv of
             None \<Rightarrow> sv\<lparr>crashed := True\<rparr>
           | Some e \<Rightarrow>
               (case PoolTrySubmit (a, request) e of
                  (True, e) \<Rightarrow> sv\<lparr>executor := Some e\<rparr>
                | (False, e) \<Rightarrow> RefuseRun now a (sv\<lparr>executor := Some e\<rparr>))))"

definition mode_of :: "ServerCode \<Rightarrow> RequestMetadata \<Rightarrow> RpcServer \<Rightarrow> RpcExecutionMode" where
  "mode_of code md sv =
     (case execution_mode_view_selector code of
        Some f \<Rightarrow> f md
      | None \<Rightarrow> (case execution_mode_selector code of Some f \<Rightarrow> f md | None \<Rightarrow> execution_mode (sv_options sv)))"

text \<open>An inline request without an idempotency key is answered from views, with no request object.\<close>

definition OnInlineView :: "RpcHandler \<Rightarrow> u64 \<Rightarrow> nat \<Rightarrow> ServerRequest \<Rightarrow> RpcServer \<Rightarrow> RpcServer" where
  "OnInlineView h after c request sv =
     (case AcquireInflight sv of
        (False, sv) \<Rightarrow> reject_with c (sr_request_id request) RPC_RESOURCE_EXHAUSTED sv
      | (True, sv) \<Rightarrow>
          let resp = (case h request of
                Some resp \<Rightarrow> stamp (sr_request_id request) resp
              | None \<Rightarrow> MakeStatusResponse (sr_request_id request) RPC_INTERNAL []);
              late = sr_deadline_ms request \<noteq> kNoTimeout \<and> after \<ge> sr_deadline_ms request;
              resp = (if late then (SetResponseStatus RPC_DEADLINE_EXCEEDED resp)\<lparr>metadata := [], body := []\<rparr> else resp);
              sv = (if late then count_metric (\<lambda>m. m\<lparr>requests_timed_out := requests_timed_out m + 1\<rparr>) sv else sv);
              sv = sv\<lparr>inflight_count := inflight_count sv - 1\<rparr>;
              sv = count_metric (\<lambda>m. m\<lparr>requests_completed := requests_completed m + 1\<rparr>) sv;
              sv = snd (QueueFrame c resp sv)
          in ServerMaybeFinishDrain (sc_shard (conn_at sv c)) sv)"

definition new_request :: "nat \<Rightarrow> string \<Rightarrow> ServerRequest \<Rightarrow> RequestState" where
  "new_request c scope request =
     (let md = sr_metadata request
      in \<lparr>rq_conn = c, rq_request_id = sr_request_id request, rq_deadline_ms = sr_deadline_ms request,
          rq_idempotency_key = (if idempotency_key md = [] then []
            else BuildIdempotencyKey scope (service md) (method_name md) (idempotency_key md)),
          rq_fingerprint = BodyFingerprint (body (sr_frame request)),
          rq_context = new_context (sr_deadline_ms request), rq_completed = False\<rparr>)"

text \<open>\<open>OnFrame\<close> from the creation of the request object on.\<close>

definition OnRequest :: "ServerCode \<Rightarrow> (nat \<Rightarrow> u64) \<Rightarrow> (nat \<Rightarrow> bool) \<Rightarrow> RpcExecutionMode \<Rightarrow> nat \<Rightarrow> ServerRequest \<Rightarrow>
    RpcServer \<Rightarrow> RpcServer" where
  "OnRequest code now submitted mode c request sv =
     (let rq = new_request c (caller_scope (conn_at sv c)) request; rid = sr_request_id request
      in case AcquireInflight sv of
           (False, sv) \<Rightarrow> reject_with c rid RPC_RESOURCE_EXHAUSTED sv
         | (True, sv) \<Rightarrow>
             (case AddRequest rq sv of
                (False, sv) \<Rightarrow>
                  reject_with c rid RPC_RESOURCE_EXHAUSTED (sv\<lparr>inflight_count := inflight_count sv - 1\<rparr>)
              | (True, sv) \<Rightarrow>
                  let a = next_request sv - 1
                  in if rq_idempotency_key rq = [] then RunRequest code now submitted mode a request sv
                     else (case AdmitIdempotent a (body (sr_frame request)) sv of
                             (Run, sv) \<Rightarrow> RunRequest code now submitted mode a request sv
                           | (Wait, sv) \<Rightarrow> sv
                           | (UseCached resp, sv) \<Rightarrow> Finish a (now a) resp sv
                           | (Conflict, sv) \<Rightarrow> Finish a (now a) (MakeStatusResponse rid RPC_ALREADY_EXISTS []) sv
                           | (NoCapacity, sv) \<Rightarrow>
                               Finish a (now a) (MakeStatusResponse rid RPC_RESOURCE_EXHAUSTED [])
                                 (count_metric (\<lambda>m. m\<lparr>requests_rejected := requests_rejected m + 1\<rparr>) sv))))"

definition OnFrame :: "ServerCode \<Rightarrow> u64 \<Rightarrow> (nat \<Rightarrow> u64) \<Rightarrow> (nat \<Rightarrow> bool) \<Rightarrow> nat \<Rightarrow> Frame \<Rightarrow> RpcServer \<Rightarrow> RpcServer" where
  "OnFrame code arrival now submitted c f sv =
     (let rid = request_id (header f)
      in if message_type (header f) = CANCEL then ServerCancel arrival c rid sv
         else if message_type (header f) \<noteq> REQUEST then ServerClose c sv
         else let sv = count_metric (\<lambda>m. m\<lparr>requests_received := requests_received m + 1\<rparr>) sv
              in if \<not> sv_accepting sv then reject_with c rid RPC_RESOURCE_EXHAUSTED sv
                 else (case DecodeRequestMetadataView (metadata f) of
                         Inl _ \<Rightarrow> reject_with c rid RPC_INVALID_ARGUMENT sv
                       | Inr md \<Rightarrow>
                           let deadline = AddDeadline arrival (timeout_ms md);
                               request = \<lparr>sr_request_id = rid, sr_deadline_ms = deadline, sr_metadata = md, sr_frame = f\<rparr>
                           in if deadline \<noteq> kNoTimeout \<and> deadline \<le> arrival
                              then snd (QueueFrame c (MakeStatusResponse rid RPC_DEADLINE_EXCEEDED [])
                                     (count_metric (\<lambda>m. m\<lparr>requests_timed_out := requests_timed_out m + 1\<rparr>) sv))
                              else let mode = mode_of code md sv
                                   in case (mode, idempotency_key md, inline_view_handler code) of
                                        (NETWORK_INLINE, [], Some h) \<Rightarrow> OnInlineView h (now (next_request sv)) c request sv
                                      | _ \<Rightarrow> OnRequest code now submitted mode c request sv))"

section \<open>Connections\<close>

text \<open>\<open>AttachConnection\<close> on a shard; \<open>configured\<close> is whether the socket options could be set, \<open>scope\<close> what
  \<open>PeerScope\<close> gives, \<open>created\<close> whether its coroutines could be created.\<close>

definition AttachConnection :: "bool \<Rightarrow> string \<Rightarrow> bool \<Rightarrow> nat \<Rightarrow> RpcServer \<Rightarrow> bool \<times> RpcServer" where
  "AttachConnection configured scope created k sv =
     (if stopped sv \<or> \<not> configured then (False, sv)
      else if active_connections sv \<ge> max_connections (sv_options sv) then (False, sv)
      else let c = next_conn sv;
               cn = dead_conn\<lparr>sc_shard := k, caller_scope := scope, closed := False\<rparr>;
               sv = (upd_conn c cn sv)\<lparr>next_conn := c + 1, active_connections := active_connections sv + 1,
                       attached := attached sv @ [c]\<rparr>;
               sv = count_metric (\<lambda>m. m\<lparr>accepted_connections := accepted_connections m + 1\<rparr>) sv
           in if \<not> started sv then (True, sv)
              else if created then (True, upd_conn c (cn\<lparr>sc_writer := SW_Running\<rparr>) sv)
              else (False, ServerClose c sv))"

definition ConnectionCount :: "nat \<Rightarrow> RpcServer \<Rightarrow> nat" where
  "ConnectionCount k sv = length (filter (\<lambda>c. sc_shard (conn_at sv c) = k) (attached sv))"

text \<open>The loop of \<open>SelectNetworkShard\<close> over the shards after the first one.\<close>

fun select_shard :: "(nat \<Rightarrow> nat) \<Rightarrow> nat \<Rightarrow> nat list \<Rightarrow> nat" where
  "select_shard load selected [] = selected"
| "select_shard load selected (k # ks) = select_shard load (if load k < load selected then k else selected) ks"

definition SelectNetworkShard :: "RpcServer \<Rightarrow> nat \<times> RpcServer" where
  "SelectNetworkShard sv =
     (let n = network_threads (sv_options sv); start = unat (next_network_shard sv) mod n
      in (select_shard (\<lambda>k. ConnectionCount k sv) start (map (\<lambda>count. (start + count) mod n) [1..<n]),
          sv\<lparr>next_network_shard := next_network_shard sv + 1\<rparr>))"

text \<open>A connection \<open>AcceptLoop\<close> has accepted, attached on the shard that was selected.\<close>

definition AttachAccepted :: "bool \<Rightarrow> string \<Rightarrow> bool \<Rightarrow> nat \<Rightarrow> RpcServer \<Rightarrow> RpcServer" where
  "AttachAccepted configured scope created k sv =
     (case AttachConnection configured scope created k sv of
        (True, sv) \<Rightarrow> sv
      | (False, sv) \<Rightarrow> count_metric (\<lambda>m. m\<lparr>rejected_connections := rejected_connections m + 1\<rparr>) sv)"

text \<open>The batch of \<open>WriterLoop\<close>, and a round of it up to its yield or its write.\<close>

definition kServerWriteBatchBytes :: nat where "kServerWriteBatchBytes = 64 * 1024"

fun ServerBatch :: "string list \<Rightarrow> string \<Rightarrow> nat \<Rightarrow> string \<times> string list \<times> nat" where
  "ServerBatch [] batch n = (batch, [], n)"
| "ServerBatch (b # bs) batch n =
     (if batch = [] \<or> length batch + length b \<le> kServerWriteBatchBytes
      then ServerBatch bs (batch @ b) (n - length b)
      else (batch, b # bs, n))"

definition ServerWriterRound :: "nat \<Rightarrow> RpcServer \<Rightarrow> RpcServer" where
  "ServerWriterRound c sv =
     (let cn = conn_at sv c
      in if closed cn then upd_conn c (cn\<lparr>sc_writer := SW_None\<rparr>) sv
         else if sc_outbound cn = [] then upd_conn c (cn\<lparr>sc_writer := SW_Waiting\<rparr>) sv
         else case ServerBatch (sc_outbound cn) [] (sc_outbound_bytes cn) of
                (batch, rest, n) \<Rightarrow>
                  upd_conn c (cn\<lparr>sc_outbound := rest, sc_outbound_bytes := n, sc_writer := SW_Writing batch\<rparr>) sv)"

text \<open>The end of \<open>WriteAll\<close>: \<open>ok\<close> when everything was written.\<close>

definition ServerWritten :: "bool \<Rightarrow> nat \<Rightarrow> RpcServer \<Rightarrow> RpcServer" where
  "ServerWritten ok c sv =
     (if ok then MaybeCloseAfterDrain c (upd_conn c ((conn_at sv c)\<lparr>sc_writer := SW_Running\<rparr>) sv)
      else upd_conn c ((conn_at (ServerClose c sv) c)\<lparr>sc_writer := SW_None\<rparr>) (ServerClose c sv))"

text \<open>\<open>ReaderLoop\<close>: the buffer for the next read, \<open>None\<close> when the connection is closed instead; the bytes of a
  read, \<open>None\<close> for the end of the stream or an error; and the next frame.\<close>

definition kServerReadSize :: nat where "kServerReadSize = 16 * 1024"

definition ServerReadPrepare :: "nat \<Rightarrow> RpcServer \<Rightarrow> nat option \<times> RpcServer" where
  "ServerReadPrepare c sv =
     (case PrepareWritable kServerReadSize (sc_decoder (conn_at sv c)) of
        (off, d) \<Rightarrow>
          let sv = upd_conn c ((conn_at sv c)\<lparr>sc_decoder := d\<rparr>) sv
          in (off, if off = None then ServerClose c sv else sv))"

definition ServerReadDone :: "nat \<Rightarrow> nat \<Rightarrow> string option \<Rightarrow> RpcServer \<Rightarrow> RpcServer" where
  "ServerReadDone off c received sv =
     (let d = sc_decoder (conn_at sv c)
      in case received of
           None \<Rightarrow> ServerClose c (upd_conn c ((conn_at sv c)\<lparr>sc_decoder := snd (CommitWritable 0 d)\<rparr>) sv)
         | Some data \<Rightarrow>
             (case CommitWritable (length data) (d\<lparr>buffer := memcpy_at off data (buffer d)\<rparr>) of
                (st, d) \<Rightarrow>
                  let sv = upd_conn c ((conn_at sv c)\<lparr>sc_decoder := d\<rparr>) sv
                  in if st = PROTOCOL_ERROR then ServerClose c sv else sv))"

text \<open>One round of the inner loop: \<open>True\<close> when there may be another frame.\<close>

definition ServerReadFrame :: "ServerCode \<Rightarrow> u64 \<Rightarrow> (nat \<Rightarrow> u64) \<Rightarrow> (nat \<Rightarrow> bool) \<Rightarrow> nat \<Rightarrow> RpcServer \<Rightarrow> bool \<times> RpcServer" where
  "ServerReadFrame code arrival now submitted c sv =
     (case NextView (sc_decoder (conn_at sv c)) of
        (st, f, d) \<Rightarrow>
          let sv = upd_conn c ((conn_at sv c)\<lparr>sc_decoder := d\<rparr>) sv
          in case (st, f) of
               (NEED_MORE, _) \<Rightarrow> (False, sv)
             | (FRAME_READY, Some f) \<Rightarrow>
                 let sv = OnFrame code arrival now submitted c f sv in (\<not> closed (conn_at sv c), sv)
             | _ \<Rightarrow> (False, ServerClose c sv))"

section \<open>Lifecycle\<close>

text \<open>
  \<open>StartConnections\<close> of shard 0: \<open>created c\<close> is whether the coroutines of \<open>c\<close> could be created; the first
  failure ends the loop.
\<close>

fun StartConnections :: "(nat \<Rightarrow> bool) \<Rightarrow> nat list \<Rightarrow> RpcServer \<Rightarrow> bool \<times> RpcServer" where
  "StartConnections created [] sv = (True, sv)"
| "StartConnections created (c # cs) sv =
     (if created c then StartConnections created cs (upd_conn c ((conn_at sv c)\<lparr>sc_writer := SW_Running\<rparr>) sv)
      else (False, ServerClose c sv))"

text \<open>\<open>Start\<close>: \<open>shards_ok\<close> and \<open>registered\<close> are the outcomes of starting the other shards and the registry.\<close>

definition ServerStart :: "bool \<Rightarrow> (nat \<Rightarrow> bool) \<Rightarrow> bool \<Rightarrow> RpcServer \<Rightarrow> bool \<times> RpcServer" where
  "ServerStart shards_ok created registered sv =
     (if started sv \<or> stopped sv then (False, sv)
      else if \<not> shards_ok then (False, StopNow sv)
      else let sv = sv\<lparr>started := True\<rparr>
           in case StartConnections created (filter (\<lambda>c. sc_shard (conn_at sv c) = 0) (attached sv)) sv of
                (False, sv) \<Rightarrow> (False, StopNow sv)
              | (True, sv) \<Rightarrow> if \<not> registered then (False, StopNow sv) else (True, sv))"

definition ServerRegister :: "string \<Rightarrow> string \<Rightarrow> RpcHandler option \<Rightarrow> RpcExecutionMode \<Rightarrow> MethodCapability \<Rightarrow>
    RpcServer \<times> ServiceDispatcher \<Rightarrow> bool \<times> ServiceDispatcher" where
  "ServerRegister svc meth h mode cap s =
     (case s of (sv, d) \<Rightarrow> if started sv \<or> stopped sv then (False, d) else Register svc meth h mode cap d)"

text \<open>\<open>BeginDrain\<close> on the owner thread; the other shards drain in a posted task (\<open>DrainShard\<close>).\<close>

definition DrainShard :: "nat \<Rightarrow> RpcServer \<Rightarrow> RpcServer" where
  "DrainShard k sv = fold ConnBeginDrain (filter (\<lambda>c. sc_shard (conn_at sv c) = k) (attached sv)) sv"

definition ServerBeginDrain :: "u64 \<Rightarrow> RpcServer \<Rightarrow> RpcServer" where
  "ServerBeginDrain timeout sv =
     (if stopped sv \<or> \<not> sv_accepting sv then sv
      else let sv = sv\<lparr>sv_accepting := False, listening := False\<rparr>
           in if timeout = 0 then StopNow sv
              else let sv = DrainShard 0 sv in if stopped sv then sv else ServerMaybeFinishDrain 0 sv)"

section \<open>All threads together\<close>

text \<open>
  Besides the server, \<open>running\<close> are the handlers that run on the thread pool and \<open>completions\<close> the
  results posted to the shards. \<open>s_frame\<close> is the arrival of any frame: it takes the rounds of the reader
  that decode the frame together, so a run can be written without its bytes.
\<close>

record ServerSys =
  server :: RpcServer
  running :: "ServerJob list"
  completions :: "(nat \<times> Frame \<times> bool) list"

definition is_cancelled :: "nat \<Rightarrow> RpcServer \<Rightarrow> bool" where
  "is_cancelled a sv = ctx_cancelled (rq_context (request_at sv a))"

definition set_worker :: "nat \<Rightarrow> ServerJob Worker \<Rightarrow> ServerJob IoExecutor \<Rightarrow> ServerJob IoExecutor" where
  "set_worker k w e = e\<lparr>workers := (workers e)[k := w]\<rparr>"

inductive server_step :: "ServerCode \<Rightarrow> ServerSys \<Rightarrow> ServerSys \<Rightarrow> bool" for code where
  s_attach: "k < network_threads (sv_options (server s)) \<Longrightarrow> (started (server s) \<or> k = 0) \<Longrightarrow>
    server_step code s (s\<lparr>server := AttachAccepted configured scope created k (server s)\<rparr>)"
| s_read_prepare: "\<not> closed (conn_at (server s) c) \<Longrightarrow> ServerReadPrepare c (server s) = (off, sv) \<Longrightarrow>
    server_step code s (s\<lparr>server := sv\<rparr>)"
| s_read_done: "\<not> closed (conn_at (server s) c) \<Longrightarrow>
    server_step code s (s\<lparr>server := ServerReadDone off c received (server s)\<rparr>)"
| s_read_frame: "\<not> closed (conn_at (server s) c) \<Longrightarrow> ServerReadFrame code arrival now submitted c (server s) = (again, sv) \<Longrightarrow>
    server_step code s (s\<lparr>server := sv\<rparr>)"
| s_frame: "\<not> closed (conn_at (server s) c) \<Longrightarrow>
    server_step code s (s\<lparr>server := OnFrame code arrival now submitted c f (server s)\<rparr>)"
| s_writer: "sc_writer (conn_at (server s) c) = SW_Running \<Longrightarrow>
    server_step code s (s\<lparr>server := ServerWriterRound c (server s)\<rparr>)"
| s_written: "sc_writer (conn_at (server s) c) = SW_Writing batch \<Longrightarrow>
    server_step code s (s\<lparr>server := ServerWritten ok c (server s)\<rparr>)"
| s_pool_start: "executor (server s) = Some e \<Longrightarrow> PoolTake e = (PoolRun (a, request), e') \<Longrightarrow> \<not> is_cancelled a (server s) \<Longrightarrow>
    server_step code s (s\<lparr>server := (server s)\<lparr>executor := Some e'\<rparr>, running := (a, request) # running s\<rparr>)"
| s_pool_cancelled: "executor (server s) = Some e \<Longrightarrow> PoolTake e = (PoolRun (a, request), e') \<Longrightarrow> is_cancelled a (server s) \<Longrightarrow>
    RunHandler code True request = (resp, cache) \<Longrightarrow>
    server_step code s (s\<lparr>server := (server s)\<lparr>executor := Some e'\<rparr>, completions := completions s @ [(a, resp, cache)]\<rparr>)"
| s_pool_done: "(a, request) \<in> set (running s) \<Longrightarrow> RunHandler code False request = (resp, cache) \<Longrightarrow>
    server_step code s (s\<lparr>running := remove1 (a, request) (running s), completions := completions s @ [(a, resp, cache)]\<rparr>)"
| s_io_start: "io_executor (server s) = Some e \<Longrightarrow> k < length (workers e) \<Longrightarrow> WorkerStart (workers e ! k) = (job, w) \<Longrightarrow>
    server_step code s (s\<lparr>server := (server s)\<lparr>io_executor := Some (set_worker k w e)\<rparr>\<rparr>)"
| s_io_done: "io_executor (server s) = Some e \<Longrightarrow> k < length (workers e) \<Longrightarrow> (a, request) \<in> set (w_running (workers e ! k)) \<Longrightarrow>
    RunHandler code was_cancelled request = (resp, cache) \<Longrightarrow> (was_cancelled \<longrightarrow> is_cancelled a (server s)) \<Longrightarrow>
    server_step code s (s\<lparr>server := (server s)\<lparr>io_executor := Some (set_worker k (WorkerFinish (a, request) (workers e ! k)) e)\<rparr>,
      completions := completions s @ [(a, resp, cache)]\<rparr>)"
| s_completion: "completions s = xs @ (a, resp, cache) # ys \<Longrightarrow>
    server_step code s (s\<lparr>server := OnWorkerCompletion now a resp cache (server s), completions := xs @ ys\<rparr>)"
| s_posted_finish: "posted_finishes (server s) = xs @ (a, resp) # ys \<Longrightarrow>
    server_step code s (s\<lparr>server := Finish a now resp ((server s)\<lparr>posted_finishes := xs @ ys\<rparr>)\<rparr>)"
| s_posted_close: "posted_closes (server s) = xs @ k # ys \<Longrightarrow>
    server_step code s (s\<lparr>server := CloseShard k ((server s)\<lparr>posted_closes := xs @ ys\<rparr>)\<rparr>)"
| s_check: "0 < submitted_checks (server s) \<Longrightarrow>
    server_step code s (s\<lparr>server := ServerMaybeFinishDrain 0 ((server s)\<lparr>submitted_checks := submitted_checks (server s) - 1\<rparr>)\<rparr>)"
| s_drain: "server_step code s (s\<lparr>server := ServerBeginDrain timeout (server s)\<rparr>)"
| s_drain_shard: "\<not> sv_accepting (server s) \<Longrightarrow> server_step code s (s\<lparr>server := DrainShard k (server s)\<rparr>)"
| s_stop: "server_step code s (s\<lparr>server := StopNow (server s)\<rparr>)"
| s_start: "ServerStart shards_ok created registered (server s) = (ok, sv) \<Longrightarrow>
    server_step code s (s\<lparr>server := sv\<rparr>)"

definition server_start :: "RpcServerOptions \<Rightarrow> ServerCode \<Rightarrow> ServerSys \<Rightarrow> bool" where
  "server_start opts code s \<longleftrightarrow> Initialize opts code = Some (server s) \<and> running s = [] \<and> completions s = []"

end
