(* ===== verification/ServerInvariant.thy ===== *)
theory ServerInvariant
  imports Server
begin

text \<open>
  The invariant of the server and that every step keeps it. \<open>live\<close> are the requests that are
  accepted and not completed. The invariant is in three parts: \<open>inv_A\<close> says that the counter of
  requests in flight and the tables of the connections agree with \<open>live\<close>, \<open>inv_B\<close> that the counter of
  connections agrees with the open ones, \<open>inv_C\<close> that the waiters of the idempotency table are the
  live requests with that key. Inside an operation a request may be out of the table of its
  connection (it is in \<open>E\<close>) or out of the waiters (it is in \<open>W\<close>) until it is completed.
\<close>

section \<open>The invariant\<close>

declare map_of_eq_Some_iff [simp del]

definition live :: "RpcServer \<Rightarrow> nat set" where
  "live sv = {a. \<not> rq_completed (request_at sv a)}"

definition conn_ok :: "nat set \<Rightarrow> RpcServer \<Rightarrow> nat \<Rightarrow> ServerConnection \<Rightarrow> bool" where
  "conn_ok E sv c cn \<longleftrightarrow>
     distinct (map fst (sc_requests cn)) \<and>
     length (sc_requests cn) \<le> max_inflight_per_connection (sv_options sv) \<and>
     (closed cn \<longrightarrow> sc_requests cn = [] \<and> sc_outbound cn = []) \<and>
     (\<forall>rid a. (rid, a) \<in> set (sc_requests cn) \<longrightarrow>
        a \<in> live sv \<and> a \<notin> E \<and> rq_conn (request_at sv a) = c \<and> rq_request_id (request_at sv a) = rid) \<and>
     sc_outbound_bytes cn = sum_list (map length (sc_outbound cn)) \<and>
     sc_outbound_bytes cn \<le> max_outbound_bytes_per_connection (sv_options sv) \<and>
     (sc_outbound cn \<noteq> [] \<longrightarrow> sc_writer cn \<noteq> SW_Waiting)"

definition inv_A :: "nat set \<Rightarrow> RpcServer \<Rightarrow> bool" where
  "inv_A E sv \<longleftrightarrow> finite (live sv) \<and> inflight_count sv = card (live sv) \<and>
     inflight_count sv \<le> max_inflight_requests (sv_options sv) \<and>
     (\<forall>c. conn_ok E sv c (conn_at sv c)) \<and>
     (\<forall>a \<in> live sv. a \<in> E \<or>
        (rq_request_id (request_at sv a), a) \<in> set (sc_requests (conn_at sv (rq_conn (request_at sv a))))) \<and>
     (\<forall>a. next_request sv \<le> a \<longrightarrow> a \<notin> live sv)"

definition inv_B :: "RpcServer \<Rightarrow> bool" where
  "inv_B sv \<longleftrightarrow> distinct (attached sv) \<and> set (attached sv) = {c. \<not> closed (conn_at sv c)} \<and>
     active_connections sv = length (attached sv) \<and> active_connections sv \<le> max_connections (sv_options sv) \<and>
     (\<forall>c. next_conn sv \<le> c \<longrightarrow> closed (conn_at sv c))"

definition record_ok :: "nat set \<Rightarrow> RpcServer \<Rightarrow> string \<Rightarrow> IdempotencyRecord \<Rightarrow> bool" where
  "record_ok W sv k r \<longleftrightarrow> k \<noteq> [] \<and> (pending r \<longleftrightarrow> waiters r \<noteq> []) \<and> distinct (waiters r) \<and>
     (\<forall>a \<in> set (waiters r). a \<in> live sv \<and> rq_idempotency_key (request_at sv a) = k \<and> a \<notin> W \<and>
        a \<notin> fst ` set (posted_finishes sv))"

definition inv_C :: "nat set \<Rightarrow> RpcServer \<Rightarrow> bool" where
  "inv_C W sv \<longleftrightarrow> distinct (map fst (idempotency sv)) \<and>
     length (idempotency sv) \<le> max_idempotency_entries (sv_options sv) \<and>
     (\<forall>k r. map_of (idempotency sv) k = Some r \<longrightarrow> record_ok W sv k r) \<and>
     (\<forall>a \<in> live sv. rq_idempotency_key (request_at sv a) \<noteq> [] \<longrightarrow> a \<in> W \<or> a \<in> fst ` set (posted_finishes sv) \<or>
        (\<exists>r. map_of (idempotency sv) (rq_idempotency_key (request_at sv a)) = Some r \<and> a \<in> set (waiters r)))"

definition sv_inv :: "nat set \<Rightarrow> nat set \<Rightarrow> RpcServer \<Rightarrow> bool" where
  "sv_inv E W sv \<longleftrightarrow> inv_A E sv \<and> inv_B sv \<and> inv_C W sv"

lemma conn_okI:
  assumes "distinct (map fst (sc_requests cn))" "length (sc_requests cn) \<le> max_inflight_per_connection (sv_options sv)"
    and "closed cn \<Longrightarrow> sc_requests cn = [] \<and> sc_outbound cn = []"
    and "\<And>rid a. (rid, a) \<in> set (sc_requests cn) \<Longrightarrow>
        a \<in> live sv \<and> a \<notin> E \<and> rq_conn (request_at sv a) = c \<and> rq_request_id (request_at sv a) = rid"
    and "sc_outbound_bytes cn = sum_list (map length (sc_outbound cn))"
    and "sc_outbound_bytes cn \<le> max_outbound_bytes_per_connection (sv_options sv)"
    and "sc_outbound cn \<noteq> [] \<Longrightarrow> sc_writer cn \<noteq> SW_Waiting"
  shows "conn_ok E sv c cn"
  using assms by (simp add: conn_ok_def)

lemma conn_okD:
  assumes "conn_ok E sv c cn"
  shows "distinct (map fst (sc_requests cn))" "length (sc_requests cn) \<le> max_inflight_per_connection (sv_options sv)"
    and "closed cn \<Longrightarrow> sc_requests cn = [] \<and> sc_outbound cn = []"
    and "(rid, a) \<in> set (sc_requests cn) \<Longrightarrow>
        a \<in> live sv \<and> a \<notin> E \<and> rq_conn (request_at sv a) = c \<and> rq_request_id (request_at sv a) = rid"
    and "sc_outbound_bytes cn = sum_list (map length (sc_outbound cn))"
    and "sc_outbound_bytes cn \<le> max_outbound_bytes_per_connection (sv_options sv)"
    and "sc_outbound cn \<noteq> [] \<Longrightarrow> sc_writer cn \<noteq> SW_Waiting"
  using assms unfolding conn_ok_def by blast+

text \<open>The parts of a connection that do not change carry over.\<close>

lemma conn_ok_cong:
  assumes "conn_ok E sv c cn" "sv_options sv' = sv_options sv"
    and "\<And>rid a. (rid, a) \<in> set (sc_requests cn) \<Longrightarrow> a \<in> live sv' \<and> a \<notin> E' \<and>
      rq_conn (request_at sv' a) = rq_conn (request_at sv a) \<and> rq_request_id (request_at sv' a) = rq_request_id (request_at sv a)"
  shows "conn_ok E' sv' c cn"
  by (rule conn_okI) (use conn_okD [OF assms(1)] assms(2,3) in \<open>auto\<close>)

lemma inv_CI:
  assumes "distinct (map fst (idempotency sv))" "length (idempotency sv) \<le> max_idempotency_entries (sv_options sv)"
    and "\<And>k r. map_of (idempotency sv) k = Some r \<Longrightarrow> record_ok W sv k r"
    and "\<And>a. a \<in> live sv \<Longrightarrow> rq_idempotency_key (request_at sv a) \<noteq> [] \<Longrightarrow> a \<in> W \<or> a \<in> fst ` set (posted_finishes sv) \<or>
        (\<exists>r. map_of (idempotency sv) (rq_idempotency_key (request_at sv a)) = Some r \<and> a \<in> set (waiters r))"
  shows "inv_C W sv"
  using assms by (simp add: inv_C_def)

lemma inv_CD:
  assumes "inv_C W sv"
  shows "distinct (map fst (idempotency sv))" "length (idempotency sv) \<le> max_idempotency_entries (sv_options sv)"
    and "map_of (idempotency sv) k = Some r \<Longrightarrow> record_ok W sv k r"
    and "a \<in> live sv \<Longrightarrow> rq_idempotency_key (request_at sv a) \<noteq> [] \<Longrightarrow> a \<in> W \<or> a \<in> fst ` set (posted_finishes sv) \<or>
        (\<exists>r. map_of (idempotency sv) (rq_idempotency_key (request_at sv a)) = Some r \<and> a \<in> set (waiters r))"
  using assms unfolding inv_C_def by blast+

lemma inv_C_cong:
  assumes "sv_options sv' = sv_options sv" "idempotency sv' = idempotency sv" "live sv' = live sv"
    "sv_requests sv' = sv_requests sv" "posted_finishes sv' = posted_finishes sv"
  shows "inv_C W sv' = inv_C W sv"
  using assms by (simp only: inv_C_def record_ok_def)

lemma inv_AI:
  assumes "finite (live sv)" "inflight_count sv = card (live sv)" "card (live sv) \<le> max_inflight_requests (sv_options sv)"
    and "\<And>c. conn_ok E sv c (conn_at sv c)"
    and "\<And>a. a \<in> live sv \<Longrightarrow> a \<notin> E \<Longrightarrow>
        (rq_request_id (request_at sv a), a) \<in> set (sc_requests (conn_at sv (rq_conn (request_at sv a))))"
    and "\<And>a. next_request sv \<le> a \<Longrightarrow> a \<notin> live sv"
  shows "inv_A E sv"
  using assms by (simp add: inv_A_def) blast

lemma inv_AD:
  assumes "inv_A E sv"
  shows "finite (live sv)" "inflight_count sv = card (live sv)" "card (live sv) \<le> max_inflight_requests (sv_options sv)"
    and "conn_ok E sv c (conn_at sv c)"
    and "a \<in> live sv \<Longrightarrow> a \<notin> E \<Longrightarrow>
        (rq_request_id (request_at sv a), a) \<in> set (sc_requests (conn_at sv (rq_conn (request_at sv a))))"
    and "next_request sv \<le> a \<Longrightarrow> a \<notin> live sv"
  using assms unfolding inv_A_def by auto

lemma inv_AB_cong:
  assumes "sv_options sv' = sv_options sv" "inflight_count sv' = inflight_count sv" "sv_conns sv' = sv_conns sv"
    "sv_requests sv' = sv_requests sv" "next_request sv' = next_request sv" "attached sv' = attached sv"
    "active_connections sv' = active_connections sv" "next_conn sv' = next_conn sv"
  shows "inv_A E sv' = inv_A E sv" "inv_B sv' = inv_B sv"
  using assms by (simp_all only: inv_A_def inv_B_def conn_ok_def live_def)

section \<open>Projections\<close>

text \<open>The invariant reads only some fields.\<close>

definition same_view :: "RpcServer \<Rightarrow> RpcServer \<Rightarrow> bool" where
  "same_view sv sv' \<longleftrightarrow> sv_options sv' = sv_options sv \<and> inflight_count sv' = inflight_count sv \<and>
     active_connections sv' = active_connections sv \<and> sv_conns sv' = sv_conns sv \<and> sv_requests sv' = sv_requests sv \<and>
     next_conn sv' = next_conn sv \<and> next_request sv' = next_request sv \<and> attached sv' = attached sv \<and>
     idempotency sv' = idempotency sv \<and> posted_finishes sv' = posted_finishes sv"

lemma same_view_inv: "same_view sv sv' \<Longrightarrow> sv_inv E W sv' = sv_inv E W sv"
  by (simp add: same_view_def sv_inv_def inv_A_def inv_B_def inv_C_def conn_ok_def record_ok_def live_def)

lemma same_view_simps:
  "same_view sv (count_metric f sv)" "same_view sv (sv\<lparr>crashed := x1\<rparr>)" "same_view sv (sv\<lparr>executor := x2\<rparr>)"
  "same_view sv (sv\<lparr>io_executor := x3\<rparr>)" "same_view sv (sv\<lparr>submitted_checks := x4\<rparr>)" "same_view sv (sv\<lparr>posted_closes := x5\<rparr>)"
  "same_view sv (sv\<lparr>next_network_shard := x6\<rparr>)" "same_view sv (sv\<lparr>started := x7\<rparr>)"
  "same_view sv (sv\<lparr>completed_idempotency_keys := x8\<rparr>)" "same_view sv (sv\<lparr>stopped := x9\<rparr>)"
  "same_view sv (sv\<lparr>sv_accepting := x10\<rparr>)" "same_view sv (sv\<lparr>listening := x11\<rparr>)"
  by (simp_all add: same_view_def count_metric_def)

lemmas view_inv [simp] = same_view_simps [THEN same_view_inv]

text \<open>Marking a context as cancelled concerns no part of the invariant.\<close>

lemma CancelContext_proj [simp]:
  "sv_options (CancelContext a sv) = sv_options sv" "inflight_count (CancelContext a sv) = inflight_count sv"
  "active_connections (CancelContext a sv) = active_connections sv" "sv_conns (CancelContext a sv) = sv_conns sv"
  "next_conn (CancelContext a sv) = next_conn sv" "next_request (CancelContext a sv) = next_request sv"
  "attached (CancelContext a sv) = attached sv" "idempotency (CancelContext a sv) = idempotency sv"
  "posted_finishes (CancelContext a sv) = posted_finishes sv"
  "rq_completed (request_at (CancelContext a sv) b) = rq_completed (request_at sv b)"
  "rq_conn (request_at (CancelContext a sv) b) = rq_conn (request_at sv b)"
  "rq_request_id (request_at (CancelContext a sv) b) = rq_request_id (request_at sv b)"
  "rq_idempotency_key (request_at (CancelContext a sv) b) = rq_idempotency_key (request_at sv b)"
  by (simp_all add: CancelContext_def upd_request_def)

lemma CancelContext_inv [simp]: "sv_inv E W (CancelContext a sv) = sv_inv E W sv"
  by (simp add: sv_inv_def inv_A_def inv_B_def inv_C_def conn_ok_def record_ok_def live_def)

section \<open>Completing a request\<close>

text \<open>What \<open>Finish\<close> and \<open>Abandon\<close> do to the request itself and to the counter.\<close>

definition complete :: "nat \<Rightarrow> RpcServer \<Rightarrow> RpcServer" where
  "complete a sv = (upd_request a ((request_at sv a)\<lparr>rq_completed := True\<rparr>) sv)\<lparr>inflight_count := inflight_count sv - 1\<rparr>"

lemma complete_proj [simp]:
  "sv_options (complete a sv) = sv_options sv" "inflight_count (complete a sv) = inflight_count sv - 1"
  "active_connections (complete a sv) = active_connections sv" "sv_conns (complete a sv) = sv_conns sv"
  "next_conn (complete a sv) = next_conn sv" "next_request (complete a sv) = next_request sv"
  "attached (complete a sv) = attached sv" "idempotency (complete a sv) = idempotency sv"
  "posted_finishes (complete a sv) = posted_finishes sv"
  "rq_conn (request_at (complete a sv) b) = rq_conn (request_at sv b)"
  "rq_request_id (request_at (complete a sv) b) = rq_request_id (request_at sv b)"
  "rq_idempotency_key (request_at (complete a sv) b) = rq_idempotency_key (request_at sv b)"
  "live (complete a sv) = live sv - {a}"
  by (auto simp: complete_def upd_request_def live_def)

lemma complete_B: "inv_B (complete a sv) = inv_B sv"
  by (simp add: inv_B_def)

lemma complete_C:
  assumes "inv_C W sv" "\<And>k r. map_of (idempotency sv) k = Some r \<Longrightarrow> a \<notin> set (waiters r)"
    and "W - {a} \<subseteq> W'" "W' \<subseteq> insert a W"
  shows "inv_C W' (complete a sv)"
proof (rule inv_CI)
  fix k r assume r: "map_of (idempotency (complete a sv)) k = Some r"
  have "record_ok W sv k r" using inv_CD(3) [OF assms(1)] r by simp
  moreover have "a \<notin> set (waiters r)" using assms(2) r by simp
  ultimately show "record_ok W' (complete a sv) k r" using assms(4) by (auto simp: record_ok_def)
next
  fix b assume "b \<in> live (complete a sv)" "rq_idempotency_key (request_at (complete a sv) b) \<noteq> []"
  then show "b \<in> W' \<or> b \<in> fst ` set (posted_finishes (complete a sv)) \<or>
      (\<exists>r. map_of (idempotency (complete a sv)) (rq_idempotency_key (request_at (complete a sv) b)) = Some r \<and> b \<in> set (waiters r))"
    using inv_CD(4) [OF assms(1), of b] assms(3) by auto
qed (use inv_CD(1,2) [OF assms(1)] in simp_all)

lemma card_live_minus:
  assumes "inv_A E sv" "a \<in> live sv"
  shows "card (live sv - {a}) = inflight_count sv - 1" "card (live sv - {a}) \<le> max_inflight_requests (sv_options sv)"
  using inv_AD(2,3) [OF assms(1)] assms(2) by auto

lemma complete_A_out:
  assumes "inv_A E sv" "a \<in> E" "a \<in> live sv"
  shows "inv_A (E - {a}) (complete a sv)"
proof (rule inv_AI)
  fix c
  have "conn_ok E sv c (conn_at sv c)" by (rule inv_AD(4) [OF assms(1)])
  then show "conn_ok (E - {a}) (complete a sv) c (conn_at (complete a sv) c)"
    using assms(2) by (auto simp: conn_ok_def)
next
  fix b assume "b \<in> live (complete a sv)" "b \<notin> E - {a}"
  then show "(rq_request_id (request_at (complete a sv) b), b) \<in>
      set (sc_requests (conn_at (complete a sv) (rq_conn (request_at (complete a sv) b))))"
    using inv_AD(5) [OF assms(1), of b] by simp
qed (use inv_AD(1,6) [OF assms(1)] card_live_minus [OF assms(1,3)] in simp_all)

text \<open>A request leaves the table of its connection as it is completed.\<close>

definition drop_request :: "nat \<Rightarrow> u64 \<Rightarrow> RpcServer \<Rightarrow> RpcServer" where
  "drop_request c rid sv =
     upd_conn c ((conn_at sv c)\<lparr>sc_requests := AList.delete rid (sc_requests (conn_at sv c))\<rparr>) sv"

lemma drop_request_proj [simp]:
  "sv_options (drop_request c rid sv) = sv_options sv" "inflight_count (drop_request c rid sv) = inflight_count sv"
  "active_connections (drop_request c rid sv) = active_connections sv" "sv_requests (drop_request c rid sv) = sv_requests sv"
  "next_conn (drop_request c rid sv) = next_conn sv" "next_request (drop_request c rid sv) = next_request sv"
  "attached (drop_request c rid sv) = attached sv" "idempotency (drop_request c rid sv) = idempotency sv"
  "posted_finishes (drop_request c rid sv) = posted_finishes sv" "live (drop_request c rid sv) = live sv"
  "closed (conn_at (drop_request c rid sv) b) = closed (conn_at sv b)"
  by (simp_all add: drop_request_def upd_conn_def live_def)

lemma drop_request_conns:
  "sv_conns (drop_request c rid sv) = (sv_conns sv)(c := (conn_at sv c)\<lparr>sc_requests := AList.delete rid (sc_requests (conn_at sv c))\<rparr>)"
  by (simp add: drop_request_def upd_conn_def)

lemma drop_request_BC: "inv_B (drop_request c rid sv) = inv_B sv" "inv_C W (drop_request c rid sv) = inv_C W sv"
  by (simp_all add: inv_B_def inv_C_def record_ok_def)

lemma set_delete: "(r, b) \<in> set (AList.delete k xs) \<longleftrightarrow> (r, b) \<in> set xs \<and> r \<noteq> k"
  by (auto simp: AList.delete_eq)

lemma length_delete: "length (AList.delete k xs) \<le> length xs"
  by (simp add: AList.delete_eq)

lemma drop_complete_A:
  assumes inv: "inv_A E sv" and a: "a \<in> live sv" "a \<notin> E"
    and c: "c0 = rq_conn (request_at sv a)" and rid: "rid0 = rq_request_id (request_at sv a)"
  shows "inv_A E (drop_request c0 rid0 (complete a sv))"
proof -
  note ok = inv_AD(4) [OF inv]
  define xs where "xs = sc_requests (conn_at sv c0)"
  have mem: "(rid0, a) \<in> set xs" using inv_AD(5) [OF inv a] by (simp add: xs_def c rid)
  have dist: "distinct (map fst xs)" using conn_okD(1) [OF ok] by (simp add: xs_def)
  have uniq: "b = a" if "(rid0, b) \<in> set xs" for b using eq_key_imp_eq_value [OF dist that mem] .
  let ?sv = "drop_request c0 rid0 (complete a sv)"
  have conn: "conn_ok E ?sv d (conn_at ?sv d)" for d
  proof (cases "d = c0")
    case True
    have d: "conn_at ?sv c0 = (conn_at sv c0)\<lparr>sc_requests := AList.delete rid0 xs\<rparr>" by (simp add: drop_request_conns xs_def)
    have "conn_ok E ?sv c0 ((conn_at sv c0)\<lparr>sc_requests := AList.delete rid0 xs\<rparr>)"
    proof (rule conn_okI, goal_cases)
      case 1
      then show ?case using distinct_delete [OF dist] by simp
    next
      case 2
      then show ?case using conn_okD(2) [OF ok [of c0]] length_delete [of rid0 xs] by (simp add: xs_def)
    next
      case 3
      then show ?case using conn_okD(3) [OF ok [of c0]] by (simp add: xs_def)
    next
      case (4 r b)
      then have b: "(r, b) \<in> set (sc_requests (conn_at sv c0))" "r \<noteq> rid0" by (simp_all add: set_delete xs_def)
      from conn_okD(4) [OF ok b(1)] have "b \<noteq> a" using b(2) rid by auto
      with conn_okD(4) [OF ok b(1)] show ?case by simp
    qed (use conn_okD(5-7) [OF ok [of c0]] in simp_all)
    then show ?thesis using True d by simp
  next
    case False
    then have d: "conn_at ?sv d = conn_at sv d" by (simp add: drop_request_conns)
    have "conn_ok E ?sv d (conn_at sv d)"
    proof (rule conn_ok_cong [OF ok])
      fix r b assume b: "(r, b) \<in> set (sc_requests (conn_at sv d))"
      from conn_okD(4) [OF ok b] have "b \<noteq> a" using False c by auto
      with conn_okD(4) [OF ok b] show "b \<in> live ?sv \<and> b \<notin> E \<and> rq_conn (request_at ?sv b) = rq_conn (request_at sv b) \<and>
          rq_request_id (request_at ?sv b) = rq_request_id (request_at sv b)" by simp
    qed simp
    then show ?thesis using d by simp
  qed
  have rest: "(rq_request_id (request_at sv b), b) \<in> set (sc_requests (conn_at ?sv (rq_conn (request_at sv b))))"
    if "b \<in> live sv" "b \<noteq> a" "b \<notin> E" for b
    using inv_AD(5) [OF inv that(1,3)] uniq that(2) by (auto simp: drop_request_conns set_delete xs_def)
  show ?thesis
    by (rule inv_AI) (use inv_AD(1,6) [OF inv] card_live_minus [OF inv a(1)] conn rest in simp_all)
qed

section \<open>Waiters\<close>

definition no_waiter :: "nat \<Rightarrow> RpcServer \<Rightarrow> bool" where
  "no_waiter a sv \<longleftrightarrow> (\<forall>k r. map_of (idempotency sv) k = Some r \<longrightarrow> a \<notin> set (waiters r))"

lemma no_waiterI:
  assumes "inv_C W sv" "a \<in> W \<or> a \<in> fst ` set (posted_finishes sv) \<or> a \<notin> live sv \<or> rq_idempotency_key (request_at sv a) = []"
  shows "no_waiter a sv"
  unfolding no_waiter_def using inv_CD(3) [OF assms(1)] assms(2) by (auto simp: record_ok_def)

lemma RemoveWaiter_proj [simp]:
  "sv_options (RemoveWaiter a k sv) = sv_options sv" "inflight_count (RemoveWaiter a k sv) = inflight_count sv"
  "active_connections (RemoveWaiter a k sv) = active_connections sv" "sv_conns (RemoveWaiter a k sv) = sv_conns sv"
  "sv_requests (RemoveWaiter a k sv) = sv_requests sv"
  "next_conn (RemoveWaiter a k sv) = next_conn sv" "next_request (RemoveWaiter a k sv) = next_request sv"
  "attached (RemoveWaiter a k sv) = attached sv" "posted_finishes (RemoveWaiter a k sv) = posted_finishes sv"
  "live (RemoveWaiter a k sv) = live sv"
  by (simp_all add: RemoveWaiter_def live_def Let_def split: option.split)

lemma RemoveWaiter_AB: "inv_A E (RemoveWaiter a k sv) = inv_A E sv" "inv_B (RemoveWaiter a k sv) = inv_B sv"
  by (simp_all add: inv_A_def inv_B_def conn_ok_def)

lemma update_table:
  "distinct (map fst xs) \<Longrightarrow> map_of xs k = Some r \<Longrightarrow> length (AList.update k v xs) = length xs"
  by (induction xs) auto

lemma RemoveWaiter_C:
  assumes inv: "inv_C W sv" and key: "rq_idempotency_key (request_at sv a) = k"
  shows "inv_C (insert a W) (RemoveWaiter a k sv) \<and> no_waiter a (RemoveWaiter a k sv)"
proof (cases "\<exists>r. map_of (idempotency sv) k = Some r \<and> pending r")
  case False
  then have same: "RemoveWaiter a k sv = sv" by (auto simp: RemoveWaiter_def split: option.split)
  have nw: "no_waiter a sv"
    unfolding no_waiter_def
  proof (intro allI impI)
    fix k' r assume r: "map_of (idempotency sv) k' = Some r"
    have ok: "record_ok W sv k' r" by (rule inv_CD(3) [OF inv r])
    show "a \<notin> set (waiters r)"
    proof
      assume a: "a \<in> set (waiters r)"
      with ok key have "k' = k" by (auto simp: record_ok_def)
      with False r have "\<not> pending r" by auto
      with ok a show False by (auto simp: record_ok_def)
    qed
  qed
  have "inv_C (insert a W) sv"
  proof (rule inv_CI)
    fix k r assume r: "map_of (idempotency sv) k = Some r"
    then show "record_ok (insert a W) sv k r"
      using inv_CD(3) [OF inv r] nw by (auto simp: record_ok_def no_waiter_def)
  next
    fix b assume "b \<in> live sv" "rq_idempotency_key (request_at sv b) \<noteq> []"
    from inv_CD(4) [OF inv this] show "b \<in> insert a W \<or> b \<in> fst ` set (posted_finishes sv) \<or>
        (\<exists>r. map_of (idempotency sv) (rq_idempotency_key (request_at sv b)) = Some r \<and> b \<in> set (waiters r))" by blast
  qed (use inv_CD(1,2) [OF inv] in simp_all)
  with nw same show ?thesis by simp
next
  case True
  then obtain r where r: "map_of (idempotency sv) k = Some r" "pending r" by auto
  define ws where "ws = removeAll a (waiters r)"
  have ok: "record_ok W sv k r" by (rule inv_CD(3) [OF inv r(1)])
  define sv' where "sv' = RemoveWaiter a k sv"
  have look: "map_of (idempotency sv') = (map_of (idempotency sv))(k := if ws = [] then None else Some (r\<lparr>waiters := ws\<rparr>))"
    using r by (simp add: sv'_def RemoveWaiter_def ws_def [symmetric] delete_conv' update_conv' Let_def)
  have proj [simp]: "posted_finishes sv' = posted_finishes sv" "live sv' = live sv" "sv_requests sv' = sv_requests sv"
    "sv_options sv' = sv_options sv"
    by (simp_all add: sv'_def)
  have tab: "distinct (map fst (idempotency sv'))" "length (idempotency sv') \<le> length (idempotency sv)"
    using r inv_CD(1) [OF inv] update_table [OF inv_CD(1) [OF inv] r(1)] length_delete [of k "idempotency sv"]
    by (simp_all add: sv'_def RemoveWaiter_def ws_def [symmetric] Let_def distinct_delete distinct_update)
  have rec: "record_ok (insert a W) sv' k' r' \<and> a \<notin> set (waiters r')" if r': "map_of (idempotency sv') k' = Some r'" for k' r'
  proof (cases "k' = k")
    case True
    with r' look have "r' = r\<lparr>waiters := ws\<rparr>" "ws \<noteq> []" by (auto split: if_splits)
    with True ok r(2) show ?thesis by (auto simp: record_ok_def ws_def distinct_removeAll)
  next
    case False
    with r' look have "map_of (idempotency sv) k' = Some r'" by simp
    from inv_CD(3) [OF inv this] False key show ?thesis by (auto simp: record_ok_def)
  qed
  have "inv_C (insert a W) sv'"
  proof (rule inv_CI)
    fix b assume b: "b \<in> live sv'" "rq_idempotency_key (request_at sv' b) \<noteq> []"
    show "b \<in> insert a W \<or> b \<in> fst ` set (posted_finishes sv') \<or>
        (\<exists>r. map_of (idempotency sv') (rq_idempotency_key (request_at sv' b)) = Some r \<and> b \<in> set (waiters r))"
    proof (cases "b = a")
      case False
      from inv_CD(4) [OF inv, of b] b consider "b \<in> W \<or> b \<in> fst ` set (posted_finishes sv)"
        | r' where "map_of (idempotency sv) (rq_idempotency_key (request_at sv b)) = Some r'" "b \<in> set (waiters r')"
        by auto
      then show ?thesis
      proof cases
        case (2 r')
        show ?thesis
        proof (cases "rq_idempotency_key (request_at sv b) = k")
          case True
          with 2 r have "b \<in> set ws" using False by (simp add: ws_def)
          moreover from this have "map_of (idempotency sv') k = Some (r\<lparr>waiters := ws\<rparr>)" using look by auto
          ultimately show ?thesis using True by simp
        next
          case False
          then show ?thesis using 2 look by simp
        qed
      qed auto
    qed simp
  qed (use tab inv_CD(2) [OF inv] rec in auto)
  moreover have "no_waiter a sv'" using rec by (auto simp: no_waiter_def)
  ultimately show ?thesis by (simp add: sv'_def)
qed

section \<open>Closing\<close>

lemma Abandon_live:
  assumes "\<not> rq_completed (request_at sv a)"
  shows "Abandon a sv = CancelContext a (complete a
    (if rq_idempotency_key (request_at sv a) = [] then sv else RemoveWaiter a (rq_idempotency_key (request_at sv a)) sv))"
proof -
  have "(CancelContext a (upd_request a ((request_at sv a)\<lparr>rq_completed := True\<rparr>) sv))\<lparr>inflight_count := inflight_count sv - 1\<rparr> =
      CancelContext a (complete a sv)" for sv
    by (simp add: CancelContext_def complete_def upd_request_def)
  moreover have "RemoveWaiter a k (CancelContext a (complete a sv)) = CancelContext a (complete a (RemoveWaiter a k sv))" for k sv
    by (simp add: RemoveWaiter_def CancelContext_def complete_def upd_request_def Let_def split: option.split)
  moreover have "inflight_count (CancelContext a (upd_request a rq sv)) = inflight_count sv" for rq sv
    by (simp add: upd_request_def)
  moreover have "rq_idempotency_key (request_at (upd_request a ((request_at sv a)\<lparr>rq_completed := True\<rparr>) sv) a) =
      rq_idempotency_key (request_at sv a)"
    by (simp add: upd_request_def)
  ultimately show ?thesis using assms by (simp add: Abandon_def Let_def)
qed

lemma inv_A_skip:
  assumes "inv_A E sv" "a \<notin> live sv"
  shows "inv_A (E - {a}) sv"
proof (rule inv_AI)
  fix c
  show "conn_ok (E - {a}) sv c (conn_at sv c)"
    by (rule conn_ok_cong [OF inv_AD(4) [OF assms(1)]]) (use conn_okD(4) [OF inv_AD(4) [OF assms(1)]] in simp_all)
next
  fix b assume "b \<in> live sv" "b \<notin> E - {a}"
  then show "(rq_request_id (request_at sv b), b) \<in> set (sc_requests (conn_at sv (rq_conn (request_at sv b))))"
    using inv_AD(5) [OF assms(1), of b] assms(2) by auto
qed (use inv_AD(1-3,6) [OF assms(1)] in simp_all)

lemma Abandon_inv:
  assumes inv: "sv_inv E W sv" and a: "a \<in> E"
  shows "sv_inv (E - {a}) W (Abandon a sv)"
proof (cases "rq_completed (request_at sv a)")
  case True
  then have "a \<notin> live sv" by (simp add: live_def)
  then show ?thesis using True inv inv_A_skip by (simp add: Abandon_def sv_inv_def)
next
  case False
  then have live: "a \<in> live sv" by (simp add: live_def)
  let ?k = "rq_idempotency_key (request_at sv a)"
  define sv1 where "sv1 = (if ?k = [] then sv else RemoveWaiter a ?k sv)"
  have A: "inv_A E sv1" "inv_B sv1" using inv by (simp_all add: sv1_def sv_inv_def RemoveWaiter_AB)
  have C: "inv_C (insert a W) sv1 \<and> no_waiter a sv1 \<or> inv_C W sv1 \<and> no_waiter a sv1"
    using inv RemoveWaiter_C [of W sv a ?k] no_waiterI [of W sv a] by (auto simp: sv1_def sv_inv_def)
  have "live sv1 = live sv" by (simp add: sv1_def)
  then have "inv_A (E - {a}) (complete a sv1)" using complete_A_out A(1) a live by simp
  moreover have "inv_C W (complete a sv1)"
    using C complete_C [of "insert a W" sv1 a W] complete_C [of W sv1 a W] by (auto simp: no_waiter_def)
  ultimately show ?thesis
    using A(2) Abandon_live [OF False] by (simp add: sv1_def [symmetric]) (simp add: sv_inv_def complete_B)
qed

lemma fold_Abandon_inv:
  assumes "sv_inv (E \<union> set xs) W sv" "E \<inter> set xs = {}" "distinct xs"
  shows "sv_inv E W (fold Abandon xs sv)"
  using assms
proof (induction xs arbitrary: sv)
  case (Cons a xs)
  have "sv_inv (E \<union> set (a # xs) - {a}) W (Abandon a sv)" by (rule Abandon_inv [OF Cons(2)]) simp
  moreover have "E \<union> set (a # xs) - {a} = E \<union> set xs" using Cons(3,4) by auto
  ultimately show ?case using Cons by simp
qed simp

text \<open>The connection is closed and its requests are taken out of its table.\<close>

definition detach :: "nat \<Rightarrow> RpcServer \<Rightarrow> RpcServer" where
  "detach c sv =
     (upd_conn c ((conn_at sv c)\<lparr>closed := True, sc_outbound := [], sc_outbound_bytes := 0, sc_requests := [],
        sc_writer := (case sc_writer (conn_at sv c) of SW_Waiting \<Rightarrow> SW_Running | w \<Rightarrow> w)\<rparr>) sv)
       \<lparr>attached := remove1 c (attached sv), active_connections := active_connections sv - 1\<rparr>"

lemma CloseCore_eq:
  "CloseCore c sv = (if closed (conn_at sv c) then sv else fold Abandon (map snd (sc_requests (conn_at sv c))) (detach c sv))"
  by (simp add: CloseCore_def detach_def Let_def upd_conn_def)

lemma detach_proj [simp]:
  "sv_options (detach c sv) = sv_options sv" "inflight_count (detach c sv) = inflight_count sv"
  "sv_requests (detach c sv) = sv_requests sv" "next_conn (detach c sv) = next_conn sv"
  "next_request (detach c sv) = next_request sv" "idempotency (detach c sv) = idempotency sv"
  "posted_finishes (detach c sv) = posted_finishes sv" "live (detach c sv) = live sv"
  "attached (detach c sv) = remove1 c (attached sv)" "active_connections (detach c sv) = active_connections sv - 1"
  by (simp_all add: detach_def upd_conn_def live_def)

lemma detach_conns:
  "b \<noteq> c \<Longrightarrow> conn_at (detach c sv) b = conn_at sv b" "closed (conn_at (detach c sv) c)"
  "sc_requests (conn_at (detach c sv) c) = []" "sc_outbound (conn_at (detach c sv) c) = []"
  "sc_outbound_bytes (conn_at (detach c sv) c) = 0"
  by (simp_all add: detach_def upd_conn_def)

lemma detach_inv:
  assumes inv: "sv_inv E W sv" and c: "\<not> closed (conn_at sv c)"
    and ds: "ds = map snd (sc_requests (conn_at sv c))"
  shows "sv_inv (E \<union> set ds) W (detach c sv)" "E \<inter> set ds = {}" "distinct ds"
proof -
  have A: "inv_A E sv" and B: "inv_B sv" and C: "inv_C W sv" using inv by (simp_all add: sv_inv_def)
  note ok = inv_AD(4) [OF A]
  have mem: "a \<notin> E \<and> rq_conn (request_at sv a) = c" if "a \<in> set ds" for a
  proof -
    from that ds obtain rid where "(rid, a) \<in> set (sc_requests (conn_at sv c))" by auto
    from conn_okD(4) [OF ok this] show ?thesis by simp
  qed
  then show "E \<inter> set ds = {}" by blast
  have "inj_on snd (set (sc_requests (conn_at sv c)))"
  proof (rule inj_onI)
    fix x y assume x: "x \<in> set (sc_requests (conn_at sv c))" and y: "y \<in> set (sc_requests (conn_at sv c))" and eq: "snd x = snd y"
    have id: "fst z = rq_request_id (request_at sv (snd z))" if "z \<in> set (sc_requests (conn_at sv c))" for z
      using that conn_okD(4) [OF ok, of "fst z" "snd z"] by simp
    from id [OF x] id [OF y] eq show "x = y" by (simp add: prod_eq_iff)
  qed
  moreover have "distinct (sc_requests (conn_at sv c))" using conn_okD(1) [OF ok] by (simp add: distinct_map)
  ultimately show "distinct ds" by (simp add: ds distinct_map)
  have "inv_A (E \<union> set ds) (detach c sv)"
  proof (rule inv_AI)
    fix d
    show "conn_ok (E \<union> set ds) (detach c sv) d (conn_at (detach c sv) d)"
    proof (cases "d = c")
      case True
      then show ?thesis by (intro conn_okI) (simp_all add: detach_conns)
    next
      case False
      have "conn_ok (E \<union> set ds) (detach c sv) d (conn_at sv d)"
      proof (rule conn_ok_cong [OF ok])
        fix rid a assume "(rid, a) \<in> set (sc_requests (conn_at sv d))"
        from conn_okD(4) [OF ok this] have a: "a \<in> live sv" "a \<notin> E" "rq_conn (request_at sv a) = d" by simp_all
        then have "a \<notin> set ds" using mem False by auto
        with a show "a \<in> live (detach c sv) \<and> a \<notin> E \<union> set ds \<and> rq_conn (request_at (detach c sv) a) = rq_conn (request_at sv a) \<and>
            rq_request_id (request_at (detach c sv) a) = rq_request_id (request_at sv a)" by simp
      qed simp
      then show ?thesis using False by (simp add: detach_conns)
    qed
  next
    fix a assume "a \<in> live (detach c sv)" "a \<notin> E \<union> set ds"
    then have a: "(rq_request_id (request_at sv a), a) \<in> set (sc_requests (conn_at sv (rq_conn (request_at sv a))))" "a \<notin> set ds"
      using inv_AD(5) [OF A] by simp_all
    then have "rq_conn (request_at sv a) \<noteq> c" using ds by force
    with a show "(rq_request_id (request_at (detach c sv) a), a) \<in>
        set (sc_requests (conn_at (detach c sv) (rq_conn (request_at (detach c sv) a))))" by (simp add: detach_conns)
  qed (use inv_AD(1-3,6) [OF A] in simp_all)
  moreover have "inv_B (detach c sv)"
  proof -
    have at: "distinct (attached sv)" "set (attached sv) = {c. \<not> closed (conn_at sv c)}"
      "active_connections sv = length (attached sv)" "length (attached sv) \<le> max_connections (sv_options sv)"
      "\<And>d. next_conn sv \<le> d \<Longrightarrow> closed (conn_at sv d)"
      using B by (auto simp: inv_B_def)
    have "c \<in> set (attached sv)" using at(2) c by simp
    then have "length (remove1 c (attached sv)) = length (attached sv) - 1" by (simp add: length_remove1)
    moreover have "closed (conn_at (detach c sv) d) \<longleftrightarrow> d = c \<or> closed (conn_at sv d)" for d
      using detach_conns(1) [of d c sv] detach_conns(2) [of c sv] by (cases "d = c") auto
    ultimately show ?thesis using at by (auto simp: inv_B_def set_remove1_eq)
  qed
  moreover have "inv_C W (detach c sv)" using C inv_C_cong [of "detach c sv" sv W] by simp
  ultimately show "sv_inv (E \<union> set ds) W (detach c sv)" by (simp add: sv_inv_def)
qed

lemma CloseCore_inv:
  assumes "sv_inv E W sv"
  shows "sv_inv E W (CloseCore c sv)"
proof (cases "closed (conn_at sv c)")
  case False
  note d = detach_inv [OF assms False refl]
  from fold_Abandon_inv [OF d] show ?thesis using False by (simp add: CloseCore_eq)
qed (use assms in \<open>simp add: CloseCore_eq\<close>)

lemma fold_inv: "(\<And>x sv. P sv \<Longrightarrow> P (f x sv)) \<Longrightarrow> P sv \<Longrightarrow> P (fold f xs sv)"
  by (induction xs arbitrary: sv) auto

lemma CloseShard_inv: "sv_inv E W sv \<Longrightarrow> sv_inv E W (CloseShard k sv)"
  unfolding CloseShard_def by (rule fold_inv) (auto intro: CloseCore_inv)

lemma StopNow_inv: "sv_inv E W sv \<Longrightarrow> sv_inv E W (StopNow sv)"
proof -
  assume inv: "sv_inv E W sv"
  have "sv_inv E W (fold CloseCore xs (sv\<lparr>stopped := True, sv_accepting := False, listening := False\<rparr>))" for xs
    by (rule fold_inv [of "sv_inv E W"]) (use inv in \<open>auto intro: CloseCore_inv\<close>)
  then show ?thesis using inv by (simp add: StopNow_def Let_def)
qed

lemma ServerMaybeFinishDrain_inv: "sv_inv E W sv \<Longrightarrow> sv_inv E W (ServerMaybeFinishDrain k sv)"
  by (simp add: ServerMaybeFinishDrain_def StopNow_inv)

lemma ServerClose_inv: "sv_inv E W sv \<Longrightarrow> sv_inv E W (ServerClose c sv)"
  by (simp add: ServerClose_def ServerMaybeFinishDrain_inv CloseCore_inv)

section \<open>Responses\<close>

text \<open>A change of the outbound queue, the writer, the decoder or the draining flag of an open connection.\<close>

lemma upd_conn_inv:
  assumes inv: "sv_inv E W sv" and reqs: "sc_requests cn = sc_requests (conn_at sv c)" and cl: "closed cn = closed (conn_at sv c)"
    and out: "closed cn \<Longrightarrow> sc_outbound cn = []"
    and bytes: "sc_outbound_bytes cn = sum_list (map length (sc_outbound cn))"
      "sc_outbound_bytes cn \<le> max_outbound_bytes_per_connection (sv_options sv)"
    and wr: "sc_outbound cn \<noteq> [] \<Longrightarrow> sc_writer cn \<noteq> SW_Waiting"
  shows "sv_inv E W (upd_conn c cn sv)"
proof -
  have A: "inv_A E sv" and B: "inv_B sv" and C: "inv_C W sv" using inv by (simp_all add: sv_inv_def)
  have proj: "sv_options (upd_conn c cn sv) = sv_options sv" "live (upd_conn c cn sv) = live sv"
    "sv_requests (upd_conn c cn sv) = sv_requests sv" "inflight_count (upd_conn c cn sv) = inflight_count sv"
    "next_request (upd_conn c cn sv) = next_request sv" "sv_conns (upd_conn c cn sv) = (sv_conns sv)(c := cn)"
    "attached (upd_conn c cn sv) = attached sv" "active_connections (upd_conn c cn sv) = active_connections sv"
    "next_conn (upd_conn c cn sv) = next_conn sv" "idempotency (upd_conn c cn sv) = idempotency sv"
    "posted_finishes (upd_conn c cn sv) = posted_finishes sv"
    by (simp_all add: upd_conn_def live_def)
  note ok = inv_AD(4) [OF A]
  have "inv_A E (upd_conn c cn sv)"
  proof (rule inv_AI)
    fix d
    show "conn_ok E (upd_conn c cn sv) d (conn_at (upd_conn c cn sv) d)"
    proof (cases "d = c")
      case True
      have "conn_ok E (upd_conn c cn sv) c cn"
        by (rule conn_okI)
          (use conn_okD(1-4) [OF ok [of c]] reqs cl out bytes wr in \<open>simp_all add: proj\<close>)
      then show ?thesis using True by (simp add: proj)
    next
      case False
      have "conn_ok E (upd_conn c cn sv) d (conn_at sv d)"
        by (rule conn_ok_cong [OF ok]) (use conn_okD(4) [OF ok [of d]] in \<open>simp_all add: proj\<close>)
      then show ?thesis using False by (simp add: proj)
    qed
  next
    fix a assume "a \<in> live (upd_conn c cn sv)" "a \<notin> E"
    then have "(rq_request_id (request_at sv a), a) \<in> set (sc_requests (conn_at sv (rq_conn (request_at sv a))))"
      using inv_AD(5) [OF A] by (simp add: proj)
    then show "(rq_request_id (request_at (upd_conn c cn sv) a), a) \<in>
        set (sc_requests (conn_at (upd_conn c cn sv) (rq_conn (request_at (upd_conn c cn sv) a))))"
      using reqs by (cases "rq_conn (request_at sv a) = c") (simp_all add: proj)
  qed (use inv_AD(1-3,6) [OF A] in \<open>simp_all add: proj\<close>)
  moreover have "inv_B (upd_conn c cn sv)"
  proof -
    have "closed (((sv_conns sv)(c := cn)) d) = closed (conn_at sv d)" for d using cl by simp
    then show ?thesis using B by (simp add: inv_B_def proj)
  qed
  moreover have "inv_C W (upd_conn c cn sv)" using C inv_C_cong [of "upd_conn c cn sv" sv W] by (simp add: proj)
  ultimately show ?thesis by (simp add: sv_inv_def)
qed

lemma sv_inv_conn: "sv_inv E W sv \<Longrightarrow> conn_ok E sv c (conn_at sv c)"
  using inv_AD(4) by (simp add: sv_inv_def)

text \<open>The fields \<open>upd_conn_inv\<close> asks for, for a change that leaves the outbound queue alone.\<close>

lemma upd_conn_same_out:
  assumes inv: "sv_inv E W sv" and "sc_requests cn = sc_requests (conn_at sv c)" "closed cn = closed (conn_at sv c)"
    and "sc_outbound cn = sc_outbound (conn_at sv c)" "sc_outbound_bytes cn = sc_outbound_bytes (conn_at sv c)"
    and "sc_writer cn = SW_Waiting \<Longrightarrow> sc_outbound cn = [] \<or> sc_writer (conn_at sv c) = SW_Waiting"
  shows "sv_inv E W (upd_conn c cn sv)"
  by (rule upd_conn_inv [OF inv assms(2,3)]) (use conn_okD [OF sv_inv_conn [OF inv, of c]] assms in auto)

lemma QueueEncoded_inv:
  assumes inv: "sv_inv E W sv" and open_c: "\<not> closed (conn_at sv c)"
  shows "sv_inv E W (snd (QueueEncoded c bytes sv))"
proof -
  note ok = conn_okD [OF sv_inv_conn [OF inv, of c]]
  show ?thesis
    unfolding QueueEncoded_def Let_def
    by (auto intro!: ServerClose_inv [OF inv] upd_conn_inv [OF inv] simp: open_c ok(5) split: ServerWriterPc.splits)
qed

lemma QueueFrame_inv: "sv_inv E W sv \<Longrightarrow> sv_inv E W (snd (QueueFrame c f sv))"
  by (auto simp: QueueFrame_def ServerClose_inv QueueEncoded_inv split: sum.split)

lemma MaybeCloseAfterDrain_inv: "sv_inv E W sv \<Longrightarrow> sv_inv E W (MaybeCloseAfterDrain c sv)"
  by (simp add: MaybeCloseAfterDrain_def ServerClose_inv Let_def)

lemma Finish_live:
  assumes "\<not> rq_completed (request_at sv a)"
  obtains resp' sv1 where
    "sv_inv E W sv1 = sv_inv E W (drop_request (rq_conn (request_at sv a)) (rq_request_id (request_at sv a)) (complete a sv))"
    "Finish a now resp sv = (let sv2 = MaybeCloseAfterDrain (rq_conn (request_at sv a))
       (snd (QueueFrame (rq_conn (request_at sv a)) resp' sv1)) in ServerMaybeFinishDrain (shard_of sv2 a) sv2)"
proof -
  let ?rq = "request_at sv a"
  let ?late = "rq_deadline_ms ?rq \<noteq> kNoTimeout \<and> now \<ge> rq_deadline_ms ?rq"
  define f where "f = (\<lambda>sv. if ?late then count_metric (\<lambda>m. m\<lparr>requests_timed_out := requests_timed_out m + 1\<rparr>) (CancelContext a sv) else sv)"
  define g where "g = (\<lambda>sv. count_metric (\<lambda>m. m\<lparr>requests_completed := requests_completed m + 1\<rparr>) sv)"
  define sv0 where "sv0 = upd_request a (?rq\<lparr>rq_completed := True\<rparr>) sv"
  define sv1 where "sv1 = drop_request (rq_conn ?rq) (rq_request_id ?rq) (g ((f sv0)\<lparr>inflight_count := inflight_count (f sv0) - 1\<rparr>))"
  have "drop_request c r ((f sv0)\<lparr>inflight_count := inflight_count (f sv0) - 1\<rparr>) = f (drop_request c r (complete a sv))" for c r
    by (simp add: f_def sv0_def complete_def drop_request_def upd_conn_def upd_request_def CancelContext_def count_metric_def)
  moreover have "drop_request c r (g x) = g (drop_request c r x)" for c r x
    by (simp add: g_def drop_request_def upd_conn_def count_metric_def)
  ultimately have "sv1 = g (f (drop_request (rq_conn ?rq) (rq_request_id ?rq) (complete a sv)))" by (simp add: sv1_def)
  then have "sv_inv E W sv1 = sv_inv E W (drop_request (rq_conn ?rq) (rq_request_id ?rq) (complete a sv))"
    by (simp add: g_def f_def)
  moreover have "Finish a now resp sv = (let sv2 = MaybeCloseAfterDrain (rq_conn ?rq) (snd (QueueFrame (rq_conn ?rq)
      (stamp (rq_request_id ?rq) (if ?late then MakeStatusResponse (rq_request_id ?rq) RPC_DEADLINE_EXCEEDED [] else resp)) sv1))
      in ServerMaybeFinishDrain (shard_of sv2 a) sv2)"
    using assms by (simp add: Finish_def CompleteRequest_def Let_def sv1_def f_def g_def sv0_def drop_request_def)
  ultimately show ?thesis by (rule that)
qed

lemma inv_C_skip:
  assumes "inv_C W sv" "no_waiter a sv" "a \<notin> live sv \<or> rq_idempotency_key (request_at sv a) = []"
    and "W - {a} \<subseteq> W'" "W' \<subseteq> insert a W"
  shows "inv_C W' sv"
proof (rule inv_CI)
  fix k r assume r: "map_of (idempotency sv) k = Some r"
  have "a \<notin> set (waiters r)" using assms(2) r by (simp add: no_waiter_def)
  then show "record_ok W' sv k r" using inv_CD(3) [OF assms(1) r] assms(5) by (auto simp: record_ok_def)
next
  fix b assume "b \<in> live sv" "rq_idempotency_key (request_at sv b) \<noteq> []"
  then show "b \<in> W' \<or> b \<in> fst ` set (posted_finishes sv) \<or>
      (\<exists>r. map_of (idempotency sv) (rq_idempotency_key (request_at sv b)) = Some r \<and> b \<in> set (waiters r))"
    using inv_CD(4) [OF assms(1), of b] assms(3,4) by blast
qed (use inv_CD(1,2) [OF assms(1)] in simp_all)

lemma Finish_inv:
  assumes inv: "sv_inv E W sv" and a: "a \<notin> E" and nw: "no_waiter a sv" and W: "W - {a} \<subseteq> W'" "W' \<subseteq> insert a W"
  shows "sv_inv E W' (Finish a now resp sv)"
proof (cases "rq_completed (request_at sv a)")
  case True
  then have "a \<notin> live sv" by (simp add: live_def)
  with inv_C_skip [OF _ nw _ W] inv True show ?thesis by (simp add: Finish_def sv_inv_def)
next
  case False
  then have live: "a \<in> live sv" by (simp add: live_def)
  have A: "inv_A E sv" "inv_B sv" "inv_C W sv" using inv by (simp_all add: sv_inv_def)
  have "inv_A E (drop_request (rq_conn (request_at sv a)) (rq_request_id (request_at sv a)) (complete a sv))"
    by (rule drop_complete_A [OF A(1) live a]) simp_all
  moreover have "inv_C W' (complete a sv)"
    by (rule complete_C [OF A(3) _ W]) (use nw in \<open>auto simp: no_waiter_def\<close>)
  ultimately have base: "sv_inv E W' (drop_request (rq_conn (request_at sv a)) (rq_request_id (request_at sv a)) (complete a sv))"
    using A(2) by (simp add: sv_inv_def drop_request_BC complete_B)
  from Finish_live [OF False, of E W' now resp] obtain resp' sv1 where
    1: "sv_inv E W' sv1 = sv_inv E W' (drop_request (rq_conn (request_at sv a)) (rq_request_id (request_at sv a)) (complete a sv))" and
    2: "Finish a now resp sv = (let sv2 = MaybeCloseAfterDrain (rq_conn (request_at sv a))
       (snd (QueueFrame (rq_conn (request_at sv a)) resp' sv1)) in ServerMaybeFinishDrain (shard_of sv2 a) sv2)" by blast
  from 1 base have "sv_inv E W' sv1" by simp
  then show ?thesis unfolding 2 Let_def
    by (intro ServerMaybeFinishDrain_inv MaybeCloseAfterDrain_inv QueueFrame_inv)
qed

section \<open>The table of idempotent requests\<close>

text \<open>A change of the table alone.\<close>

lemma idem_inv:
  assumes inv: "sv_inv E W sv" and t: "distinct (map fst t)" "length t \<le> max_idempotency_entries (sv_options sv)"
    and rec: "\<And>k r. map_of t k = Some r \<Longrightarrow> record_ok W' sv k r"
    and live: "\<And>a. a \<in> live sv \<Longrightarrow> rq_idempotency_key (request_at sv a) \<noteq> [] \<Longrightarrow> a \<in> W' \<or> a \<in> fst ` set (posted_finishes sv) \<or>
        (\<exists>r. map_of t (rq_idempotency_key (request_at sv a)) = Some r \<and> a \<in> set (waiters r))"
  shows "sv_inv E W' (sv\<lparr>idempotency := t, completed_idempotency_keys := ks\<rparr>)"
proof -
  let ?sv = "sv\<lparr>idempotency := t, completed_idempotency_keys := ks\<rparr>"
  have lv: "live ?sv = live sv" by (simp add: live_def)
  have "inv_A E ?sv" "inv_B ?sv" using inv inv_AB_cong(1) [of ?sv sv E] inv_AB_cong(2) [of ?sv sv] by (simp_all add: sv_inv_def)
  moreover have "inv_C W' ?sv"
    by (rule inv_CI) (use t rec live lv in \<open>simp_all add: record_ok_def\<close>)
  ultimately show ?thesis by (simp add: sv_inv_def)
qed

lemma Prune_table:
  assumes "PruneIdempotencyCache lim t keys = (t', keys')" "distinct (map fst t)"
  shows "distinct (map fst t') \<and> length t' \<le> length t \<and>
    (\<forall>k r. map_of t' k = Some r \<longrightarrow> map_of t k = Some r) \<and>
    (\<forall>k r. map_of t k = Some r \<and> pending r \<longrightarrow> map_of t' k = Some r)"
  using assms
proof (induction lim t keys rule: PruneIdempotencyCache.induct)
  case (1 lim t)
  then show ?case by simp
next
  case (2 lim t key keys)
  define t1 where "t1 = (case map_of t key of None \<Rightarrow> t | Some r \<Rightarrow> if pending r then t else AList.delete key t)"
  show ?case
  proof (cases "length t \<ge> lim")
    case True
    then have eq: "PruneIdempotencyCache lim t1 keys = (t', keys')" using 2(2) by (simp add: t1_def)
    have t1: "distinct (map fst t1)" "length t1 \<le> length t"
      "\<And>k r. map_of t1 k = Some r \<Longrightarrow> map_of t k = Some r"
      "\<And>k r. map_of t k = Some r \<Longrightarrow> pending r \<Longrightarrow> map_of t1 k = Some r"
      using 2(3) length_delete [of key t]
      by (auto simp: t1_def distinct_delete delete_conv' simp del: map_of_eq_Some_iff split: option.splits if_splits)
    from 2(1) [OF True, folded t1_def, OF eq t1(1)] t1 show ?thesis by (meson le_trans)
  next
    case False
    then show ?thesis using 2(2,3) by simp
  qed
qed

lemma Prune_inv:
  assumes inv: "sv_inv E W sv"
  shows "sv_inv E W (Prune sv)"
proof -
  obtain t ks where p: "PruneIdempotencyCache (max_idempotency_entries (sv_options sv)) (idempotency sv) (completed_idempotency_keys sv)
      = (t, ks)" by fastforce
  have C: "inv_C W sv" using inv by (simp add: sv_inv_def)
  note T = Prune_table [OF p inv_CD(1) [OF C]]
  have T1: "distinct (map fst t)" "length t \<le> length (idempotency sv)" using T by simp_all
  have T2: "map_of (idempotency sv) k = Some r" if "map_of t k = Some r" for k r 
    using T [THEN conjunct2, THEN conjunct2, THEN conjunct1, rule_format, OF that] .
  have T3: "map_of t k = Some r" if "map_of (idempotency sv) k = Some r" "pending r" for k r
    using T [THEN conjunct2, THEN conjunct2, THEN conjunct2, rule_format, OF conjI, OF that] .
  have "sv_inv E W (sv\<lparr>idempotency := t, completed_idempotency_keys := ks\<rparr>)"
  proof (rule idem_inv [OF inv])
    fix k r assume "map_of t k = Some r"
    then show "record_ok W sv k r" by (rule inv_CD(3) [OF C T2])
  next
    fix a assume a: "a \<in> live sv" "rq_idempotency_key (request_at sv a) \<noteq> []"
    from inv_CD(4) [OF C a] consider "a \<in> W \<or> a \<in> fst ` set (posted_finishes sv)"
      | r where "map_of (idempotency sv) (rq_idempotency_key (request_at sv a)) = Some r" "a \<in> set (waiters r)" by blast
    then show "a \<in> W \<or> a \<in> fst ` set (posted_finishes sv) \<or>
        (\<exists>r. map_of t (rq_idempotency_key (request_at sv a)) = Some r \<and> a \<in> set (waiters r))"
    proof cases
      case (2 r)
      have "pending r" using inv_CD(3) [OF C 2(1)] 2(2) by (auto simp: record_ok_def)
      from T3 [OF 2(1) this] 2(2) show ?thesis by blast
    qed blast
  next
    show "length t \<le> max_idempotency_entries (sv_options sv)" using T1(2) inv_CD(2) [OF C] by (rule le_trans)
  qed (rule T1(1))
  then show ?thesis using p by (simp add: Prune_def)
qed

lemma posted_inv:
  assumes inv: "sv_inv E W sv" and a: "a \<in> W" and W: "W - {a} \<subseteq> W'" "W' \<subseteq> W"
  shows "sv_inv E W' (sv\<lparr>posted_finishes := posted_finishes sv @ [(a, resp)]\<rparr>)"
proof -
  let ?sv = "sv\<lparr>posted_finishes := posted_finishes sv @ [(a, resp)]\<rparr>"
  have lv: "live ?sv = live sv" by (simp add: live_def)
  have C: "inv_C W sv" using inv by (simp add: sv_inv_def)
  have "inv_A E ?sv" "inv_B ?sv" using inv inv_AB_cong(1) [of ?sv sv E] inv_AB_cong(2) [of ?sv sv] by (simp_all add: sv_inv_def)
  moreover have "inv_C W' ?sv"
  proof (rule inv_CI)
    fix k r assume "map_of (idempotency ?sv) k = Some r"
    then have "record_ok W sv k r" using inv_CD(3) [OF C] by simp
    then show "record_ok W' ?sv k r" using a W(2) by (auto simp: record_ok_def lv)
  next
    fix b assume "b \<in> live ?sv" "rq_idempotency_key (request_at ?sv b) \<noteq> []"
    then have "b \<in> W \<or> b \<in> fst ` set (posted_finishes sv) \<or>
      (\<exists>r. map_of (idempotency sv) (rq_idempotency_key (request_at sv b)) = Some r \<and> b \<in> set (waiters r))"
      using inv_CD(4) [OF C, of b] by (simp only: lv RpcServer.simps RpcServer.surjective) simp
    then show "b \<in> W' \<or> b \<in> fst ` set (posted_finishes ?sv) \<or>
      (\<exists>r. map_of (idempotency ?sv) (rq_idempotency_key (request_at ?sv b)) = Some r \<and> b \<in> set (waiters r))"
      using W(1) by (cases "b = a") (simp_all, blast)
  qed (use inv_CD(1,2) [OF C] in simp_all)
  ultimately show ?thesis by (simp add: sv_inv_def)
qed

lemma unpost_inv:
  assumes inv: "sv_inv E W sv" and post: "posted_finishes sv = xs @ (a, resp) # ys"
  shows "sv_inv E (insert a W) (sv\<lparr>posted_finishes := xs @ ys\<rparr>)"
proof -
  let ?sv = "sv\<lparr>posted_finishes := xs @ ys\<rparr>"
  have lv: "live ?sv = live sv" by (simp add: live_def)
  have C: "inv_C W sv" using inv by (simp add: sv_inv_def)
  have "inv_A E ?sv" "inv_B ?sv" using inv inv_AB_cong(1) [of ?sv sv E] inv_AB_cong(2) [of ?sv sv] by (simp_all add: sv_inv_def)
  moreover have "inv_C (insert a W) ?sv"
  proof (rule inv_CI)
    fix k r assume "map_of (idempotency ?sv) k = Some r"
    then have "record_ok W sv k r" using inv_CD(3) [OF C] by simp
    then show "record_ok (insert a W) ?sv k r" using post by (auto simp: record_ok_def lv)
  next
    fix b assume "b \<in> live ?sv" "rq_idempotency_key (request_at ?sv b) \<noteq> []"
    then have "b \<in> W \<or> b \<in> fst ` set (posted_finishes sv) \<or>
      (\<exists>r. map_of (idempotency sv) (rq_idempotency_key (request_at sv b)) = Some r \<and> b \<in> set (waiters r))"
      using inv_CD(4) [OF C, of b] by (simp only: lv RpcServer.simps RpcServer.surjective) simp
    then show "b \<in> insert a W \<or> b \<in> fst ` set (posted_finishes ?sv) \<or>
      (\<exists>r. map_of (idempotency ?sv) (rq_idempotency_key (request_at ?sv b)) = Some r \<and> b \<in> set (waiters r))"
      by (cases "b = a") (simp_all add: post, blast?)
  qed (use inv_CD(1,2) [OF C] in simp_all)
  ultimately show ?thesis by (simp add: sv_inv_def)
qed

lemma FinishOnOwner_inv:
  assumes "sv_inv {} (W \<union> set ws) sv" "distinct ws" "W \<inter> set ws = {}"
  shows "sv_inv {} W (FinishOnOwner k now resp ws sv)"
  using assms
proof (induction k now resp ws sv rule: FinishOnOwner.induct)
  case (1 k now resp sv)
  then show ?case by simp
next
  case (2 k now resp a ws sv)
  have inv: "sv_inv {} (W \<union> set (a # ws)) sv" by (rule 2(2))
  have W: "W \<union> set (a # ws) - {a} \<subseteq> W \<union> set ws" "W \<union> set ws \<subseteq> insert a (W \<union> set (a # ws))" "W \<union> set ws \<subseteq> W \<union> set (a # ws)"
    using 2(3,4) by auto
  have "no_waiter a sv" by (rule no_waiterI [of "W \<union> set (a # ws)"]) (use inv in \<open>simp_all add: sv_inv_def\<close>)
  then have "sv_inv {} (W \<union> set ws) (if shard_of sv a = k then Finish a (now a) resp sv
      else sv\<lparr>posted_finishes := posted_finishes sv @ [(a, resp)]\<rparr>)"
    using Finish_inv [OF inv _ _ W(1,2)] posted_inv [OF inv _ W(1,3)] by simp
  from 2(1) [OF this] 2(3,4) show ?case by simp
qed

lemma FinishIdempotent_inv:
  assumes inv: "sv_inv {} {} sv"
  shows "sv_inv {} {} (FinishIdempotent k now key resp cache sv)"
proof (cases "map_of (idempotency sv) key")
  case None
  then show ?thesis using inv by (simp add: FinishIdempotent_def)
next
  case (Some r)
  have C: "inv_C {} sv" using inv by (simp add: sv_inv_def)
  have ok: "record_ok {} sv key r" by (rule inv_CD(3) [OF C Some])
  define t where "t = (if cache then AList.update key (r\<lparr>waiters := [], pending := False, rec_response := resp\<rparr>) (idempotency sv)
    else AList.delete key (idempotency sv))"
  have look: "map_of t = (map_of (idempotency sv))(key := if cache then Some (r\<lparr>waiters := [], pending := False, rec_response := resp\<rparr>) else None)"
    by (simp add: t_def update_conv' delete_conv')
  have table: "sv_inv {} (set (waiters r)) (sv\<lparr>idempotency := t, completed_idempotency_keys := ks\<rparr>)" for ks
  proof (rule idem_inv [OF inv])
    show "distinct (map fst t)" using inv_CD(1) [OF C] by (simp add: t_def distinct_update distinct_delete)
    show "length t \<le> max_idempotency_entries (sv_options sv)"
      using inv_CD(2) [OF C] update_table [OF inv_CD(1) [OF C] Some] length_delete [of key "idempotency sv"] by (simp add: t_def)
  next
    fix k' r' assume r': "map_of t k' = Some r'"
    show "record_ok (set (waiters r)) sv k' r'"
    proof (cases "k' = key")
      case True
      with r' look ok show ?thesis by (auto simp: record_ok_def split: if_splits)
    next
      case False
      with r' look have "record_ok {} sv k' r'" using inv_CD(3) [OF C, of k' r'] by simp
      then show ?thesis using ok False by (auto simp: record_ok_def)
    qed
  next
    fix a assume a: "a \<in> live sv" "rq_idempotency_key (request_at sv a) \<noteq> []"
    from inv_CD(4) [OF C a] consider "a \<in> fst ` set (posted_finishes sv)"
      | r' where "map_of (idempotency sv) (rq_idempotency_key (request_at sv a)) = Some r'" "a \<in> set (waiters r')" by blast
    then show "a \<in> set (waiters r) \<or> a \<in> fst ` set (posted_finishes sv) \<or>
        (\<exists>r. map_of t (rq_idempotency_key (request_at sv a)) = Some r \<and> a \<in> set (waiters r))"
    proof cases
      case (2 r')
      then show ?thesis using Some look by (cases "rq_idempotency_key (request_at sv a) = key") auto
    qed simp
  qed
  have keep: "sv\<lparr>idempotency := t, completed_idempotency_keys := completed_idempotency_keys sv\<rparr> = sv\<lparr>idempotency := t\<rparr>" by simp
  define sv1 where "sv1 = (if cache then Prune (sv\<lparr>idempotency := t, completed_idempotency_keys := completed_idempotency_keys sv @ [key]\<rparr>)
    else sv\<lparr>idempotency := t\<rparr>)"
  have "sv_inv {} ({} \<union> set (waiters r)) sv1"
    using Prune_inv [OF table] table [of "completed_idempotency_keys sv"] by (simp add: sv1_def keep)
  moreover have "distinct (waiters r)" using ok by (simp add: record_ok_def)
  ultimately have "sv_inv {} {} (FinishOnOwner k now resp (waiters r) sv1)" by (rule FinishOnOwner_inv) simp
  then show ?thesis using Some by (cases cache) (simp_all add: FinishIdempotent_def sv1_def t_def Let_def)
qed

end
