(* ===== verification/ServerSteps.thy ===== *)
theory ServerSteps
  imports ServerInvariant
begin

text \<open>
  What the operations of the server leave alone, and the two invariants about progress: a request in
  flight always has somebody who will answer it (\<open>served\<close>), and a draining server that has nothing left
  to do is stopped or about to be (\<open>drain_ok\<close>).
\<close>

section \<open>Quiet operations\<close>

text \<open>
  A quiet operation may end requests and stop the server, and otherwise changes neither what was
  posted between shards nor the executors.
\<close>

definition quiet_op :: "RpcServer \<Rightarrow> RpcServer \<Rightarrow> bool" where
  "quiet_op sv sv' \<longleftrightarrow> sv_options sv' = sv_options sv \<and> next_request sv' = next_request sv \<and> crashed sv' = crashed sv \<and>
     posted_finishes sv' = posted_finishes sv \<and> live sv' \<subseteq> live sv \<and>
     (\<forall>a. rq_idempotency_key (request_at sv' a) = rq_idempotency_key (request_at sv a)) \<and>
     (stopped sv \<longrightarrow> stopped sv') \<and> (executor sv' = None \<longleftrightarrow> executor sv = None) \<and> (io_executor sv' = None \<longleftrightarrow> io_executor sv = None) \<and>
     (stopped sv' \<or> executor sv' = executor sv \<and> io_executor sv' = io_executor sv \<and> posted_closes sv' = posted_closes sv)"

lemma quiet_refl [simp, intro]: "quiet_op sv sv"
  by (simp add: quiet_op_def)

lemma quiet_trans [trans]: "quiet_op sv1 sv2 \<Longrightarrow> quiet_op sv2 sv3 \<Longrightarrow> quiet_op sv1 sv3"
  unfolding quiet_op_def by auto

lemma quietD:
  assumes "quiet_op sv sv'"
  shows "sv_options sv' = sv_options sv" "next_request sv' = next_request sv" "crashed sv' = crashed sv"
    "posted_finishes sv' = posted_finishes sv" "a \<in> live sv' \<Longrightarrow> a \<in> live sv"
    "rq_idempotency_key (request_at sv' a) = rq_idempotency_key (request_at sv a)" "stopped sv \<Longrightarrow> stopped sv'"
    "executor sv' = None \<longleftrightarrow> executor sv = None" "io_executor sv' = None \<longleftrightarrow> io_executor sv = None"
    "\<not> stopped sv' \<Longrightarrow> executor sv' = executor sv" "\<not> stopped sv' \<Longrightarrow> io_executor sv' = io_executor sv"
    "\<not> stopped sv' \<Longrightarrow> posted_closes sv' = posted_closes sv"
  using assms unfolding quiet_op_def by auto

lemma quiet_simple [simp, intro]:
  "quiet_op sv (upd_conn c cn sv)" "quiet_op sv (count_metric f sv)" "quiet_op sv (CancelContext a sv)" "quiet_op sv (RemoveWaiter a k sv)"
  "quiet_op sv (complete a sv)" "quiet_op sv (drop_request c rid sv)" "quiet_op sv (detach c sv)"
  "quiet_op sv (sv\<lparr>inflight_count := n1\<rparr>)" "quiet_op sv (sv\<lparr>submitted_checks := n2\<rparr>)" "quiet_op sv (sv\<lparr>next_network_shard := x5\<rparr>)"
  "quiet_op sv (sv\<lparr>idempotency := t, completed_idempotency_keys := ks\<rparr>)" "quiet_op sv (sv\<lparr>idempotency := t\<rparr>)"
  "quiet_op sv (sv\<lparr>sv_accepting := x1\<rparr>)" "quiet_op sv (sv\<lparr>listening := x2\<rparr>)" "quiet_op sv (sv\<lparr>started := x3\<rparr>)"
  "quiet_op sv (upd_request a ((request_at sv a)\<lparr>rq_completed := True\<rparr>) sv)"
  by (auto simp: quiet_op_def upd_conn_def count_metric_def CancelContext_def upd_request_def live_def RemoveWaiter_def complete_def
      drop_request_def detach_def Let_def split: option.split)

lemma fold_quiet: "(\<And>x sv. quiet_op sv (f x sv)) \<Longrightarrow> quiet_op sv (fold f xs sv)"
  by (induction xs arbitrary: sv) (auto intro: quiet_trans)

lemma Abandon_quiet: "quiet_op sv (Abandon a sv)"
proof (cases "rq_completed (request_at sv a)")
  case False
  let ?sv = "if rq_idempotency_key (request_at sv a) = [] then sv else RemoveWaiter a (rq_idempotency_key (request_at sv a)) sv"
  have "quiet_op sv ?sv" by simp
  also have "quiet_op ?sv (complete a ?sv)" by blast
  also have "quiet_op (complete a ?sv) (CancelContext a (complete a ?sv))" by blast
  finally show ?thesis by (simp add: Abandon_live [OF False])
qed (simp add: Abandon_def)

lemma CloseCore_quiet: "quiet_op sv (CloseCore c sv)"
  by (auto simp: CloseCore_eq intro: quiet_trans [OF quiet_simple(7) fold_quiet] Abandon_quiet)

lemma CloseShard_quiet: "quiet_op sv (CloseShard k sv)"
  unfolding CloseShard_def by (rule fold_quiet) (rule CloseCore_quiet)

lemma StopNow_stopped [simp]: "stopped (StopNow sv)"
proof -
  have "stopped (fold CloseCore xs (sv\<lparr>stopped := True, sv_accepting := False, listening := False\<rparr>))" for xs
    using quietD(7) [OF fold_quiet [of CloseCore, OF CloseCore_quiet]] by simp
  then show ?thesis by (simp add: StopNow_def Let_def)
qed

lemma StopNow_quiet: "quiet_op sv (StopNow sv)"
proof (cases "stopped sv")
  case False
  let ?sv = "sv\<lparr>stopped := True, sv_accepting := False, listening := False\<rparr>"
  let ?sv2 = "fold CloseCore (filter (\<lambda>c. sc_shard (conn_at sv c) = 0) (attached sv)) ?sv"
  have 1: "quiet_op sv ?sv" by (simp add: quiet_op_def live_def)
  have 2: "quiet_op ?sv ?sv2" by (rule fold_quiet) (rule CloseCore_quiet)
  have 3: "stopped ?sv2" using quietD(7) [OF 2] by simp
  have "StopNow sv = ?sv2\<lparr>posted_closes := posted_closes ?sv2 @ [1..<network_threads (sv_options ?sv2)],
      executor := map_option PoolStop (executor ?sv2), io_executor := map_option IoRequestStop (io_executor ?sv2)\<rparr>"
    using False by (simp add: StopNow_def Let_def)
  moreover have "quiet_op ?sv2 (?sv2\<lparr>posted_closes := posted_closes ?sv2 @ [1..<network_threads (sv_options ?sv2)],
      executor := map_option PoolStop (executor ?sv2), io_executor := map_option IoRequestStop (io_executor ?sv2)\<rparr>)"
    using 3 by (simp add: quiet_op_def live_def)
  ultimately show ?thesis using quiet_trans [OF 1 2] quiet_trans by metis
qed (simp add: StopNow_def)

lemma ServerMaybeFinishDrain_quiet: "quiet_op sv (ServerMaybeFinishDrain k sv)"
  by (simp add: ServerMaybeFinishDrain_def StopNow_quiet)

lemma ServerClose_quiet: "quiet_op sv (ServerClose c sv)"
  by (auto simp: ServerClose_def intro: quiet_trans [OF CloseCore_quiet ServerMaybeFinishDrain_quiet])

lemma QueueFrame_quiet: "quiet_op sv (snd (QueueFrame c f sv))"
  by (auto simp: QueueFrame_def QueueEncoded_def ServerClose_quiet Let_def split: sum.split)

lemma MaybeCloseAfterDrain_quiet: "quiet_op sv (MaybeCloseAfterDrain c sv)"
  by (simp add: MaybeCloseAfterDrain_def ServerClose_quiet Let_def)

lemma CompleteRequest_quiet: "quiet_op sv (CompleteRequest c rid resp sv)"
  unfolding CompleteRequest_def Let_def
  by (rule quiet_trans [OF quiet_simple(1) quiet_trans [OF QueueFrame_quiet MaybeCloseAfterDrain_quiet]])

lemma ConnBeginDrain_quiet: "quiet_op sv (ConnBeginDrain c sv)"
  unfolding ConnBeginDrain_def by (rule quiet_trans [OF quiet_simple(1) MaybeCloseAfterDrain_quiet])

text \<open>The steps of \<open>Finish\<close> on a request that is not completed.\<close>

lemma Finish_steps:
  assumes "\<not> rq_completed (request_at sv a)"
  obtains resp' sv1 where
    "quiet_op (upd_request a ((request_at sv a)\<lparr>rq_completed := True\<rparr>) sv) sv1"
    "Finish a now resp sv = (let sv2 = CompleteRequest (rq_conn (request_at sv a)) (rq_request_id (request_at sv a)) resp' sv1
       in ServerMaybeFinishDrain (shard_of sv2 a) sv2)"
    "idempotency sv1 = idempotency sv"
proof -
  let ?rq = "request_at sv a"
  let ?late = "rq_deadline_ms ?rq \<noteq> kNoTimeout \<and> now \<ge> rq_deadline_ms ?rq"
  let ?sv0 = "upd_request a (?rq\<lparr>rq_completed := True\<rparr>) sv"
  define sv2 where "sv2 = (if ?late then count_metric (\<lambda>m. m\<lparr>requests_timed_out := requests_timed_out m + 1\<rparr>) (CancelContext a ?sv0) else ?sv0)"
  have "quiet_op ?sv0 sv2" unfolding sv2_def using quiet_trans [OF quiet_simple(3,2)] by simp
  then have q: "quiet_op ?sv0 (count_metric (\<lambda>m. m\<lparr>requests_completed := requests_completed m + 1\<rparr>)
      (sv2\<lparr>inflight_count := inflight_count sv2 - 1\<rparr>))"
    by (rule quiet_trans [OF _ quiet_trans [OF quiet_simple(8) quiet_simple(2)]])
  have i: "idempotency sv2 = idempotency sv"
    by (simp add: sv2_def count_metric_def CancelContext_def upd_request_def)
  show ?thesis by (rule that [OF q]) (use assms i in \<open>simp_all add: Finish_def Let_def sv2_def count_metric_def\<close>)
qed

lemma Finish_quiet: "quiet_op sv (Finish a now resp sv)" and Finish_dead: "a \<notin> live (Finish a now resp sv)"
proof -
  have "quiet_op sv (Finish a now resp sv) \<and> a \<notin> live (Finish a now resp sv)"
  proof (cases "rq_completed (request_at sv a)")
    case True
    then show ?thesis by (simp add: Finish_def live_def)
  next
    case False
    let ?sv0 = "upd_request a ((request_at sv a)\<lparr>rq_completed := True\<rparr>) sv"
    from Finish_steps [OF False, of now resp] obtain resp' sv1 where q: "quiet_op ?sv0 sv1" and
      eq: "Finish a now resp sv = (let sv2 = CompleteRequest (rq_conn (request_at sv a)) (rq_request_id (request_at sv a)) resp' sv1
       in ServerMaybeFinishDrain (shard_of sv2 a) sv2)" by blast
    have q2: "quiet_op ?sv0 (Finish a now resp sv)" unfolding eq Let_def
      by (rule quiet_trans [OF q quiet_trans [OF CompleteRequest_quiet ServerMaybeFinishDrain_quiet]])
    have "a \<notin> live ?sv0" by (simp add: live_def upd_request_def)
    then show ?thesis using quiet_trans [OF quiet_simple(16) q2] quietD(5) [OF q2, of a] by blast
  qed
  then show "quiet_op sv (Finish a now resp sv)" "a \<notin> live (Finish a now resp sv)" by blast+
qed

lemma Prune_quiet: "quiet_op sv (Prune sv)"
  by (auto simp: Prune_def split: prod.split)

text \<open>\<open>FinishOnOwner\<close> ends each waiter or posts it.\<close>

lemma FinishOnOwner_quiet:
  "\<exists>ps. quiet_op (sv\<lparr>posted_finishes := posted_finishes sv @ ps\<rparr>) (FinishOnOwner k now resp ws sv) \<and> fst ` set ps \<subseteq> set ws \<and>
     (\<forall>a \<in> set ws. a \<in> fst ` set ps \<or> a \<notin> live (FinishOnOwner k now resp ws sv))"
proof (induction ws arbitrary: sv)
  case Nil
  then show ?case by (intro exI [of _ "[]"]) simp
next
  case (Cons a ws)
  define sv1 where "sv1 = (if shard_of sv a = k then Finish a (now a) resp sv else sv\<lparr>posted_finishes := posted_finishes sv @ [(a, resp)]\<rparr>)"
  define qs where "qs = (if shard_of sv a = k then [] else [(a, resp)])"
  have base: "quiet_op (sv\<lparr>posted_finishes := posted_finishes sv @ qs @ ps\<rparr>) (sv1\<lparr>posted_finishes := posted_finishes sv1 @ ps\<rparr>)" for ps
    using Finish_quiet [of sv a "now a" resp] by (auto simp: sv1_def qs_def quiet_op_def live_def)
  from Cons [of sv1] obtain ps where
    ps: "quiet_op (sv1\<lparr>posted_finishes := posted_finishes sv1 @ ps\<rparr>) (FinishOnOwner k now resp ws sv1)" "fst ` set ps \<subseteq> set ws"
      "\<forall>a \<in> set ws. a \<in> fst ` set ps \<or> a \<notin> live (FinishOnOwner k now resp ws sv1)" by blast
  have eq: "FinishOnOwner k now resp (a # ws) sv = FinishOnOwner k now resp ws sv1" by (simp add: sv1_def)
  have "a \<in> fst ` set qs \<or> a \<notin> live (FinishOnOwner k now resp ws sv1)"
  proof (cases "shard_of sv a = k")
    case True
    then have "a \<notin> live sv1" using Finish_dead by (simp add: sv1_def)
    then have "a \<notin> live (sv1\<lparr>posted_finishes := posted_finishes sv1 @ ps\<rparr>)" by (simp add: live_def)
    then show ?thesis using quietD(5) [OF ps(1), of a] by blast
  qed (simp add: qs_def)
  moreover have "fst ` set qs \<subseteq> {a}" by (simp add: qs_def)
  ultimately show ?case using quiet_trans [OF base ps(1)] ps(2,3) unfolding eq by (intro exI [of _ "qs @ ps"]) auto
qed

section \<open>Requests in flight are served\<close>

definition worker_jobs :: "ServerJob Worker \<Rightarrow> nat set" where
  "worker_jobs w = fst ` (set (w_queue w) \<union> set (w_running w))"

definition exec_jobs :: "RpcServer \<Rightarrow> nat set" where
  "exec_jobs sv = (case executor sv of None \<Rightarrow> {} | Some e \<Rightarrow> fst ` set (pool_tasks e)) \<union>
     (case io_executor sv of None \<Rightarrow> {} | Some e \<Rightarrow> \<Union> (worker_jobs ` set (workers e)))"

text \<open>
  \<open>K\<close> are the requests whose handlers run on the pool or whose results are posted. Unless the server is
  stopped, a request in flight has a job of its own or, when it has an idempotency key, a job of some request with the
  same key, or its response is posted to its shard. \<open>X\<close> are requests that an operation has in hand.
\<close>

definition has_answer :: "nat set \<Rightarrow> RpcServer \<Rightarrow> nat \<Rightarrow> bool" where
  "has_answer K sv a \<longleftrightarrow>
     (if rq_idempotency_key (request_at sv a) = [] then a \<in> K \<union> exec_jobs sv
      else a \<in> fst ` set (posted_finishes sv) \<or>
        (\<exists>b \<in> K \<union> exec_jobs sv. rq_idempotency_key (request_at sv b) = rq_idempotency_key (request_at sv a)))"

definition served :: "nat set \<Rightarrow> nat set \<Rightarrow> RpcServer \<Rightarrow> bool" where
  "served X K sv \<longleftrightarrow> stopped sv \<or> crashed sv \<or> (\<forall>a \<in> live sv - X. has_answer K sv a)"

lemma servedI: "(\<And>a. \<not> stopped sv \<Longrightarrow> \<not> crashed sv \<Longrightarrow> a \<in> live sv \<Longrightarrow> a \<notin> X \<Longrightarrow> has_answer K sv a) \<Longrightarrow> served X K sv"
  unfolding served_def by blast

lemma servedD: "served X K sv \<Longrightarrow> \<not> stopped sv \<Longrightarrow> \<not> crashed sv \<Longrightarrow> a \<in> live sv \<Longrightarrow> a \<notin> X \<Longrightarrow> has_answer K sv a"
  unfolding served_def by blast

lemma quiet_exec: "quiet_op sv sv' \<Longrightarrow> \<not> stopped sv' \<Longrightarrow> exec_jobs sv' = exec_jobs sv"
  by (simp add: exec_jobs_def quietD)

text \<open>The ways in which it carries over: fewer live requests, more jobs, more posted responses.\<close>

lemma served_mono:
  assumes "served X K sv" "stopped sv \<Longrightarrow> stopped sv'" "crashed sv \<Longrightarrow> crashed sv'"
    and "\<And>a. a \<in> live sv' \<Longrightarrow> a \<notin> X' \<Longrightarrow> a \<in> live sv \<and> a \<notin> X"
    and "\<And>a. rq_idempotency_key (request_at sv' a) = rq_idempotency_key (request_at sv a)"
    and "fst ` set (posted_finishes sv) \<subseteq> fst ` set (posted_finishes sv')"
    and "\<not> stopped sv' \<Longrightarrow> K \<union> exec_jobs sv \<subseteq> K' \<union> exec_jobs sv'"
  shows "served X' K' sv'"
proof (rule servedI)
  fix a assume run: "\<not> stopped sv'" "\<not> crashed sv'" and a: "a \<in> live sv'" "a \<notin> X'"
  from run have "\<not> stopped sv" "\<not> crashed sv" using assms(2,3) by blast+
  from servedD [OF assms(1) this] assms(4) [OF a] have "has_answer K sv a" by blast
  then show "has_answer K' sv' a" using assms(6) assms(7) [OF run(1)]
    unfolding has_answer_def assms(5) by (auto split: if_splits)
qed

lemma quiet_served: "quiet_op sv sv' \<Longrightarrow> served X K sv \<Longrightarrow> served X K sv'"
  by (erule served_mono) (auto simp: quietD quiet_exec dest: quietD(5) quietD(7))

lemma Finish_served: "served (insert a X) K sv \<Longrightarrow> served X K (Finish a now resp sv)"
  by (erule served_mono)
    (use Finish_quiet [of sv a now resp] Finish_dead [of a now resp sv] in \<open>auto simp: quietD quiet_exec dest: quietD(5) quietD(7)\<close>)

text \<open>After \<open>FinishIdempotent\<close> the requests with that key are ended or posted.\<close>

lemma FinishIdempotent_quiet:
  assumes inv: "sv_inv {} {} sv" and key: "key \<noteq> []"
  shows "\<exists>ps. quiet_op (sv\<lparr>posted_finishes := posted_finishes sv @ ps\<rparr>) (FinishIdempotent k now key resp cache sv) \<and>
    fst ` set ps \<subseteq> live sv \<and>
    (\<forall>a \<in> live (FinishIdempotent k now key resp cache sv). rq_idempotency_key (request_at sv a) = key \<longrightarrow>
       a \<in> fst ` set (posted_finishes sv @ ps))"
proof -
  have C: "inv_C {} sv" using inv by (simp add: sv_inv_def)
  show ?thesis
  proof (cases "map_of (idempotency sv) key")
    case None
    have "a \<in> fst ` set (posted_finishes sv)" if "a \<in> live sv" "rq_idempotency_key (request_at sv a) = key" for a
      using inv_CD(4) [OF C that(1)] that(2) key None by auto
    then show ?thesis using None by (intro exI [of _ "[]"]) (simp add: FinishIdempotent_def)
  next
    case (Some r)
    define sv1 where "sv1 = (if cache then Prune (sv\<lparr>idempotency := AList.update key (r\<lparr>waiters := [], pending := False, rec_response := resp\<rparr>)
        (idempotency sv), completed_idempotency_keys := completed_idempotency_keys sv @ [key]\<rparr>)
      else sv\<lparr>idempotency := AList.delete key (idempotency sv)\<rparr>)"
    have q: "quiet_op sv sv1" unfolding sv1_def using quiet_trans [OF quiet_simple(11) Prune_quiet] by simp
    let ?sv2 = "FinishOnOwner k now resp (waiters r) sv1"
    have eq: "FinishIdempotent k now key resp cache sv = ?sv2" using Some by (simp add: FinishIdempotent_def sv1_def Let_def)
    obtain ps where ps: "quiet_op (sv1\<lparr>posted_finishes := posted_finishes sv1 @ ps\<rparr>) ?sv2" "fst ` set ps \<subseteq> set (waiters r)"
      "\<forall>a \<in> set (waiters r). a \<in> fst ` set ps \<or> a \<notin> live ?sv2" using FinishOnOwner_quiet by blast
    have "quiet_op (sv\<lparr>posted_finishes := posted_finishes sv @ ps\<rparr>) (sv1\<lparr>posted_finishes := posted_finishes sv1 @ ps\<rparr>)"
      using q by (auto simp: quiet_op_def live_def)
    from quiet_trans [OF this ps(1)] have q2: "quiet_op (sv\<lparr>posted_finishes := posted_finishes sv @ ps\<rparr>) ?sv2" .
    have "a \<in> fst ` set (posted_finishes sv @ ps)" if a: "a \<in> live ?sv2" "rq_idempotency_key (request_at sv a) = key" for a
    proof -
      have "a \<in> live sv" using quietD(5) [OF q2 a(1)] by (simp add: live_def)
      from inv_CD(4) [OF C this] a(2) key Some have "a \<in> fst ` set (posted_finishes sv) \<or> a \<in> set (waiters r)" by auto
      then show ?thesis using ps(3) a(1) by auto
    qed
    moreover have "set (waiters r) \<subseteq> live sv" using inv_CD(3) [OF C Some] by (auto simp: record_ok_def)
    ultimately show ?thesis unfolding eq using q2 ps(2) by blast
  qed
qed

lemma FinishIdempotent_served:
  assumes inv: "sv_inv {} {} sv" and key: "key \<noteq> []" and s: "served {x. rq_idempotency_key (request_at sv x) = key} K sv"
  shows "served {} K (FinishIdempotent k now key resp cache sv)"
proof -
  let ?sv = "FinishIdempotent k now key resp cache sv" and ?X = "{x. rq_idempotency_key (request_at sv x) = key}"
  obtain ps where q: "quiet_op (sv\<lparr>posted_finishes := posted_finishes sv @ ps\<rparr>) ?sv" and
    p: "\<forall>a \<in> live ?sv. rq_idempotency_key (request_at sv a) = key \<longrightarrow> a \<in> fst ` set (posted_finishes sv @ ps)"
    using FinishIdempotent_quiet [OF inv key, of k now resp cache] by blast
  have "served ?X K (sv\<lparr>posted_finishes := posted_finishes sv @ ps\<rparr>)"
    by (rule served_mono [OF s]) (auto simp: live_def exec_jobs_def)
  from quiet_served [OF q this] have s2: "served ?X K ?sv" .
  have keys: "rq_idempotency_key (request_at ?sv a) = rq_idempotency_key (request_at sv a)" for a using quietD(6) [OF q] by simp
  have post: "posted_finishes ?sv = posted_finishes sv @ ps" using quietD(4) [OF q] by simp
  show ?thesis
  proof (rule servedI)
    fix a assume run: "\<not> stopped ?sv" "\<not> crashed ?sv" and a: "a \<in> live ?sv"
    show "has_answer K ?sv a"
    proof (cases "a \<in> ?X")
      case True
      then show ?thesis using p a post key by (auto simp: has_answer_def keys)
    next
      case False
      then show ?thesis by (rule servedD [OF s2 run a])
    qed
  qed
qed

section \<open>The invariant of the server\<close>

definition posted_ok :: "RpcServer \<Rightarrow> bool" where
  "posted_ok sv \<longleftrightarrow> (\<forall>a \<in> fst ` set (posted_finishes sv). a < next_request sv)"

definition workers_run :: "RpcServer \<Rightarrow> bool" where
  "workers_run sv \<longleftrightarrow> stopped sv \<or> (\<forall>e. io_executor sv = Some e \<longrightarrow> (\<forall>w \<in> set (workers e). \<not> w_stopping w))"

definition pending_jobs_ok :: "nat set \<Rightarrow> RpcServer \<Rightarrow> bool" where
  "pending_jobs_ok K sv \<longleftrightarrow> stopped sv \<or> (\<forall>a \<in> K \<union> exec_jobs sv. a < next_request sv)"

text \<open>The executors the configuration asks for exist, and with a consistent configuration no missing one is used.\<close>

definition exec_ok :: "ServerCode \<Rightarrow> RpcServer \<Rightarrow> bool" where
  "exec_ok code sv \<longleftrightarrow>
     (execution_mode_selector code \<noteq> None \<or> execution_mode (sv_options sv) = CPU_POOL \<longrightarrow> executor sv \<noteq> None) \<and>
     (execution_mode_selector code \<noteq> None \<or> execution_mode (sv_options sv) = IO_COROUTINE \<longrightarrow> io_executor sv \<noteq> None) \<and>
     (execution_mode_view_selector code = None \<or> execution_mode_selector code \<noteq> None \<longrightarrow> \<not> crashed sv)"

definition good :: "ServerCode \<Rightarrow> nat set \<Rightarrow> nat set \<Rightarrow> nat set \<Rightarrow> RpcServer \<Rightarrow> bool" where
  "good code X W K sv \<longleftrightarrow> sv_inv {} W sv \<and> posted_ok sv \<and> workers_run sv \<and> exec_ok code sv \<and>
     pending_jobs_ok K sv \<and> served X K sv"

lemma goodD:
  assumes "good code X W K sv"
  shows "sv_inv {} W sv" "posted_ok sv" "workers_run sv" "exec_ok code sv" "served X K sv" "inv_A {} sv" "inv_C W sv" "pending_jobs_ok K sv"
  using assms by (simp_all add: good_def sv_inv_def)

lemma quiet_rest:
  assumes "quiet_op sv sv'"
  shows "posted_ok sv \<Longrightarrow> posted_ok sv'" "workers_run sv \<Longrightarrow> workers_run sv'" "exec_ok code sv \<Longrightarrow> exec_ok code sv'"
    "pending_jobs_ok K sv \<Longrightarrow> pending_jobs_ok K sv'"
  using quietD [OF assms] quiet_exec [OF assms] by (auto simp: posted_ok_def workers_run_def exec_ok_def pending_jobs_ok_def)

lemma good_quiet:
  assumes "good code X W K sv" "quiet_op sv sv'" "sv_inv {} W' sv'"
  shows "good code X W' K sv'"
  using assms quiet_rest [OF assms(2)] quiet_served [OF assms(2)] by (simp add: good_def)

lemma good_op: "(sv_inv {} W sv \<Longrightarrow> sv_inv {} W sv') \<Longrightarrow> quiet_op sv sv' \<Longrightarrow> good code X W K sv \<Longrightarrow> good code X W K sv'"
  using good_quiet goodD(1) by blast

lemma good_metric [simp]: "good code X W K (count_metric f sv) = good code X W K sv"
proof
  have "sv = count_metric (\<lambda>_. sv_metrics sv) (count_metric f sv)" by (simp add: count_metric_def)
  then have "quiet_op (count_metric f sv) sv" using quiet_simple(2) [of "count_metric f sv" "\<lambda>_. sv_metrics sv"] by simp
  then show "good code X W K (count_metric f sv) \<Longrightarrow> good code X W K sv" by (rule good_op [rotated]) simp_all
qed (rule good_op, simp_all)

lemma good_CancelContext: "good code X W K sv \<Longrightarrow> good code X W K (CancelContext a sv)"
  by (rule good_op) simp_all

lemma good_weaken: "good code X W K sv \<Longrightarrow> X \<subseteq> X' \<Longrightarrow> good code X' W K sv"
  unfolding good_def by (auto elim!: served_mono)

text \<open>The operations on a connection.\<close>

lemma ServerClose_good: "good code X W K sv \<Longrightarrow> good code X W K (ServerClose c sv)"
  by (rule good_op [OF ServerClose_inv ServerClose_quiet])

lemma QueueFrame_good: "good code X W K sv \<Longrightarrow> good code X W K (snd (QueueFrame c f sv))"
  by (rule good_op [OF QueueFrame_inv QueueFrame_quiet])

lemma ServerMaybeFinishDrain_good: "good code X W K sv \<Longrightarrow> good code X W K (ServerMaybeFinishDrain k sv)"
  by (rule good_op [OF ServerMaybeFinishDrain_inv ServerMaybeFinishDrain_quiet])

lemma MaybeCloseAfterDrain_good: "good code X W K sv \<Longrightarrow> good code X W K (MaybeCloseAfterDrain c sv)"
  by (rule good_op [OF MaybeCloseAfterDrain_inv MaybeCloseAfterDrain_quiet])

lemma StopNow_good: "good code X W K sv \<Longrightarrow> good code X W K (StopNow sv)"
  by (rule good_op [OF StopNow_inv StopNow_quiet])

lemma CloseShard_good: "good code X W K sv \<Longrightarrow> good code X W K (CloseShard k sv)"
  by (rule good_op [OF CloseShard_inv CloseShard_quiet])

lemma reject_with_good: "good code X W K sv \<Longrightarrow> good code X W K (reject_with c rid st sv)"
  unfolding reject_with_def by (rule QueueFrame_good) simp

lemma Finish_good:
  assumes "good code (insert a X) W K sv" "no_waiter a sv" "W - {a} \<subseteq> W'" "W' \<subseteq> insert a W"
  shows "good code X W' K (Finish a now resp sv)"
  unfolding good_def
  using Finish_inv [OF goodD(1) [OF assms(1)] _ assms(2-4)] quiet_rest [OF Finish_quiet] goodD [OF assms(1)] Finish_served by simp

text \<open>The requests that the end of \<open>a\<close> ends.\<close>

definition peers :: "RpcServer \<Rightarrow> nat \<Rightarrow> nat set" where
  "peers sv a = (if rq_idempotency_key (request_at sv a) = [] then {a}
     else {x. rq_idempotency_key (request_at sv x) = rq_idempotency_key (request_at sv a)})"

lemma FinishIdempotent_good:
  assumes good: "good code {x. rq_idempotency_key (request_at sv x) = key} {} K sv" and key: "key \<noteq> []"
  shows "good code {} {} K (FinishIdempotent k now key resp cache sv)"
proof -
  let ?sv = "FinishIdempotent k now key resp cache sv"
  obtain ps where q: "quiet_op (sv\<lparr>posted_finishes := posted_finishes sv @ ps\<rparr>) ?sv" and ps: "fst ` set ps \<subseteq> live sv"
    using FinishIdempotent_quiet [OF goodD(1) [OF good] key, of k now resp cache] by blast
  have "fst ` set ps \<subseteq> {..<next_request sv}" using ps inv_AD(6) [OF goodD(6) [OF good]] not_le by blast
  then have "posted_ok (sv\<lparr>posted_finishes := posted_finishes sv @ ps\<rparr>)"
    using goodD(2) [OF good] by (auto simp: posted_ok_def)
  moreover have "workers_run (sv\<lparr>posted_finishes := posted_finishes sv @ ps\<rparr>)"
    "exec_ok code (sv\<lparr>posted_finishes := posted_finishes sv @ ps\<rparr>)" "pending_jobs_ok K (sv\<lparr>posted_finishes := posted_finishes sv @ ps\<rparr>)"
    using goodD(3,4,8) [OF good] by (simp_all add: workers_run_def exec_ok_def pending_jobs_ok_def exec_jobs_def)
  ultimately have "posted_ok ?sv" "workers_run ?sv" "exec_ok code ?sv" "pending_jobs_ok K ?sv" using quiet_rest [OF q] by blast+
  then show ?thesis
    using FinishIdempotent_inv [OF goodD(1) [OF good]] FinishIdempotent_served [OF goodD(1) [OF good] key goodD(5) [OF good]]
    by (simp add: good_def)
qed

lemma FinishRun_good:
  assumes good: "good code (peers sv a) {} K sv"
  shows "good code {} {} K (FinishRun now a resp cache sv)"
proof (cases "rq_idempotency_key (request_at sv a) = []")
  case True
  have "no_waiter a sv" by (rule no_waiterI [OF goodD(7) [OF good]]) (use True in simp)
  then show ?thesis using Finish_good [of code a "{}" "{}" K sv "{}"] good True by (simp add: peers_def FinishRun_def)
next
  case False
  then show ?thesis using FinishIdempotent_good [of code sv "rq_idempotency_key (request_at sv a)" K] good
    by (simp add: peers_def FinishRun_def)
qed

lemma OnWorkerCompletion_eq:
  "OnWorkerCompletion now a resp cache sv = FinishRun now a resp cache sv"
  by (simp add: OnWorkerCompletion_def FinishRun_def Finish_def)

lemma ServerCancel_good:
  assumes good: "good code {} {} K sv"
  shows "good code {} {} K (ServerCancel now c rid sv)"
proof (cases "map_of (sc_requests (conn_at sv c)) rid")
  case None
  then show ?thesis using good by (simp add: ServerCancel_def)
next
  case (Some a)
  define sv1 where "sv1 = CancelContext a (count_metric (\<lambda>m. m\<lparr>cancellations := cancellations m + 1\<rparr>) sv)"
  let ?k = "rq_idempotency_key (request_at sv1 a)"
  have g1: "good code {a} {} K sv1"
    by (rule good_weaken [of code "{}"])
      (use good in \<open>auto simp: sv1_def intro: good_CancelContext\<close>)
  have eq: "ServerCancel now c rid sv = Finish a now (MakeStatusResponse rid RPC_CANCELLED []) (if ?k = [] then sv1 else RemoveWaiter a ?k sv1)"
    using Some by (simp add: ServerCancel_def Let_def sv1_def)
  show ?thesis
  proof (cases "?k = []")
    case True
    have "no_waiter a sv1" by (rule no_waiterI [OF goodD(7) [OF g1]]) (use True in simp)
    then show ?thesis using Finish_good [OF g1] True by (simp add: eq)
  next
    case False
    have C: "inv_C {a} (RemoveWaiter a ?k sv1)" "no_waiter a (RemoveWaiter a ?k sv1)"
      using RemoveWaiter_C [OF goodD(7) [OF g1] refl] by auto
    have "sv_inv {} {a} (RemoveWaiter a ?k sv1)" using C goodD(1) [OF g1] by (simp add: sv_inv_def RemoveWaiter_AB)
    then have "good code {a} {a} K (RemoveWaiter a ?k sv1)" using good_quiet [OF g1] by simp
    from Finish_good [OF this C(2)] False show ?thesis by (simp add: eq)
  qed
qed

end
