(* ===== verification/ServerRequests.thy ===== *)
theory ServerRequests
  imports ServerSteps
begin

text \<open>
  The way of a request through \<open>OnFrame\<close>: it is counted and entered into the table of its connection,
  admitted by the table of idempotent requests, and run or handed to an executor. Every branch keeps
  the invariant.
\<close>

section \<open>A new request\<close>

lemma AddRequest_cases:
  assumes "AddRequest rq sv = (ok, sv')"
  obtains "\<not> ok" "sv' = sv"
  | "ok" "\<not> closed (conn_at sv (rq_conn rq))" "length (sc_requests (conn_at sv (rq_conn rq))) < max_inflight_per_connection (sv_options sv)"
    "map_of (sc_requests (conn_at sv (rq_conn rq))) (rq_request_id rq) = None"
    "sv' = (upd_request (next_request sv) rq (upd_conn (rq_conn rq) ((conn_at sv (rq_conn rq))\<lparr>sc_requests :=
       sc_requests (conn_at sv (rq_conn rq)) @ [(rq_request_id rq, next_request sv)]\<rparr>) sv))\<lparr>next_request := next_request sv + 1\<rparr>"
proof (cases "closed (conn_at sv (rq_conn rq)) \<or> length (sc_requests (conn_at sv (rq_conn rq))) \<ge> max_inflight_per_connection (sv_options sv) \<or>
    map_of (sc_requests (conn_at sv (rq_conn rq))) (rq_request_id rq) \<noteq> None")
  case True
  then have "AddRequest rq sv = (False, sv)" unfolding AddRequest_def Let_def by (rule if_P)
  then show ?thesis using that(1) assms by simp
next
  case False
  note eq = assms [unfolded AddRequest_def Let_def if_not_P [OF False], THEN prod.inject [THEN iffD1]]
  show ?thesis by (rule that(2)) (use False eq in \<open>simp_all add: emplace_def not_le\<close>)
qed

text \<open>\<open>sv2\<close> is \<open>sv\<close> after the request \<open>rq\<close> was counted and entered at address \<open>a\<close>.\<close>

definition entered :: "RequestState \<Rightarrow> RpcServer \<Rightarrow> nat \<Rightarrow> RpcServer \<Rightarrow> bool" where
  "entered rq sv a sv2 \<longleftrightarrow> \<not> rq_completed rq \<and> inflight_count sv < max_inflight_requests (sv_options sv) \<and>
     \<not> closed (conn_at sv (rq_conn rq)) \<and>
     length (sc_requests (conn_at sv (rq_conn rq))) < max_inflight_per_connection (sv_options sv) \<and>
     map_of (sc_requests (conn_at sv (rq_conn rq))) (rq_request_id rq) = None \<and> a = next_request sv \<and>
     sv2 = sv\<lparr>inflight_count := inflight_count sv + 1, sv_requests := (sv_requests sv)(a := rq),
       sv_conns := (sv_conns sv)(rq_conn rq := (conn_at sv (rq_conn rq))\<lparr>sc_requests :=
         sc_requests (conn_at sv (rq_conn rq)) @ [(rq_request_id rq, a)]\<rparr>), next_request := a + 1\<rparr>"

lemma entered_proj:
  assumes "entered rq sv a sv2"
  shows "live sv2 = insert a (live sv)" "request_at sv2 b = (if b = a then rq else request_at sv b)"
    "sv_options sv2 = sv_options sv" "posted_finishes sv2 = posted_finishes sv" "idempotency sv2 = idempotency sv"
    "next_request sv2 = a + 1" "next_request sv = a" "executor sv2 = executor sv" "io_executor sv2 = io_executor sv"
    "stopped sv2 = stopped sv" "crashed sv2 = crashed sv" "exec_jobs sv2 = exec_jobs sv"
    "inflight_count sv2 = inflight_count sv + 1" "attached sv2 = attached sv" "active_connections sv2 = active_connections sv"
    "next_conn sv2 = next_conn sv" "closed (conn_at sv2 d) = closed (conn_at sv d)"
    "posted_closes sv2 = posted_closes sv"
  using assms by (auto simp: entered_def live_def exec_jobs_def)

lemma entered_fresh:
  assumes "entered rq sv a sv2" "inv_A {} sv"
  shows "a \<notin> live sv"
  using inv_AD(6) [OF assms(2), of a] entered_proj(7) [OF assms(1)] by simp

lemma entered_conn:
  assumes e: "entered rq sv a sv2" and A: "inv_A {} sv"
  shows "conn_ok {} sv2 d (conn_at sv2 d)"
proof -
  note ok = inv_AD(4) [OF A] and pr = entered_proj [OF e]
  have old: "b \<in> live sv2 \<and> b \<notin> {} \<and> rq_conn (request_at sv2 b) = d \<and> rq_request_id (request_at sv2 b) = r"
    if "(r, b) \<in> set (sc_requests (conn_at sv d))" for r b d
  proof -
    from conn_okD(4) [OF ok that] have "b \<in> live sv" "rq_conn (request_at sv b) = d" "rq_request_id (request_at sv b) = r" by simp_all
    moreover from this have "b \<noteq> a" using entered_fresh [OF e A] by blast
    ultimately show ?thesis by (simp add: pr)
  qed
  note k = conn_okD [OF ok [of d]]
  show ?thesis
  proof (cases "d = rq_conn rq")
    case True
    have d: "conn_at sv2 d = (conn_at sv d)\<lparr>sc_requests := sc_requests (conn_at sv d) @ [(rq_request_id rq, a)]\<rparr>"
      using e True by (simp add: entered_def)
    show ?thesis unfolding d
    proof (rule conn_okI, goal_cases)
      case 1
      then show ?case using k(1) e True by (simp add: entered_def map_of_eq_None_iff)
    next
      case 2
      then show ?case using e True by (simp add: entered_def)
    next
      case 3
      then show ?case using e True by (simp add: entered_def)
    next
      case (4 r b)
      then show ?case using old [of r b d] True pr(2) [of a] by (auto simp: pr(1))
    qed (use k(5-7) in \<open>simp_all add: pr\<close>)
  next
    case False
    then have d: "conn_at sv2 d = conn_at sv d" using e by (simp add: entered_def)
    show ?thesis unfolding d by (rule conn_okI) (use k old [of _ _ d] in \<open>simp_all add: pr(3)\<close>)
  qed
qed

lemma entered_A:
  assumes e: "entered rq sv a sv2" and A: "inv_A {} sv"
  shows "inv_A {} sv2"
proof (rule inv_AI)
  note pr = entered_proj [OF e] and fresh = entered_fresh [OF e A]
  show "finite (live sv2)" using inv_AD(1) [OF A] by (simp add: pr)
  show "inflight_count sv2 = card (live sv2)" using inv_AD(1,2) [OF A] fresh by (simp add: pr)
  show "card (live sv2) \<le> max_inflight_requests (sv_options sv2)"
    using inv_AD(1,2) [OF A] fresh e by (simp add: pr(1,3)) (simp add: entered_def)
  show "next_request sv2 \<le> b \<Longrightarrow> b \<notin> live sv2" for b using inv_AD(6) [OF A, of b] by (simp add: pr)
  show "conn_ok {} sv2 c (conn_at sv2 c)" for c by (rule entered_conn [OF e A])
  fix b assume b: "b \<in> live sv2"
  show "(rq_request_id (request_at sv2 b), b) \<in> set (sc_requests (conn_at sv2 (rq_conn (request_at sv2 b))))"
  proof (cases "b = a")
    case True
    then show ?thesis using e by (simp add: entered_def)
  next
    case False
    with b have "b \<in> live sv" by (simp add: pr)
    from inv_AD(5) [OF A this] False e show ?thesis by (auto simp: entered_def)
  qed
qed

lemma entered_C:
  assumes e: "entered rq sv a sv2" and A: "inv_A {} sv" and C: "inv_C {} sv"
  shows "no_waiter a sv2" "inv_C {a} sv2"
proof -
  note pr = entered_proj [OF e]
  have nw: "no_waiter a sv" using no_waiterI [OF C, of a] entered_fresh [OF e A] by blast
  then show "no_waiter a sv2" by (simp add: no_waiter_def pr)
  show "inv_C {a} sv2"
  proof (rule inv_CI)
    fix k r assume "map_of (idempotency sv2) k = Some r"
    then have r: "map_of (idempotency sv) k = Some r" by (simp add: pr)
    then have "a \<notin> set (waiters r)" using nw by (simp add: no_waiter_def)
    with inv_CD(3) [OF C r] show "record_ok {a} sv2 k r" by (auto simp: record_ok_def pr)
  next
    fix b assume b: "b \<in> live sv2" "rq_idempotency_key (request_at sv2 b) \<noteq> []"
    then show "b \<in> {a} \<or> b \<in> fst ` set (posted_finishes sv2) \<or>
        (\<exists>r. map_of (idempotency sv2) (rq_idempotency_key (request_at sv2 b)) = Some r \<and> b \<in> set (waiters r))"
      using inv_CD(4) [OF C, of b] by (cases "b = a") (simp_all add: pr)
  qed (use inv_CD(1,2) [OF C] in \<open>simp_all add: pr\<close>)
qed

lemma entered_good:
  assumes e: "entered rq sv a sv2" and g: "good code {} {} K sv"
  shows "good code {a} {a} K sv2" "a \<notin> fst ` set (posted_finishes sv2)"
proof -
  note pr = entered_proj [OF e]
  have "inv_B sv2" using goodD(1) [OF g] by (simp add: inv_B_def sv_inv_def pr)
  then have "sv_inv {} {a} sv2" using entered_A [OF e goodD(6) [OF g]] entered_C [OF e goodD(6,7) [OF g]] by (simp add: sv_inv_def)
  moreover have "posted_ok sv2" using goodD(2) [OF g] by (auto simp: posted_ok_def pr(4,6,7))
  moreover have "workers_run sv2" using goodD(3) [OF g] by (simp add: workers_run_def pr(9,10))
  moreover have "exec_ok code sv2" using goodD(4) [OF g] by (simp add: exec_ok_def pr(3,8,9,11))
  moreover have "pending_jobs_ok K sv2" using goodD(8) [OF g] by (auto simp: pending_jobs_ok_def pr(6,7,10,12) intro: less_SucI)
  moreover have "served {a} K sv2"
  proof (rule servedI)
    fix b assume run: "\<not> stopped sv2" "\<not> crashed sv2" and b: "b \<in> live sv2" "b \<notin> {a}"
    then have "has_answer K sv b" using servedD [OF goodD(5) [OF g]] by (simp add: pr)
    moreover have "\<forall>x \<in> K \<union> exec_jobs sv. x \<noteq> a" using goodD(8) [OF g] run by (auto simp: pending_jobs_ok_def pr)
    ultimately show "has_answer K sv2 b" using b(2) by (auto simp: has_answer_def pr split: if_splits)
  qed
  ultimately show "good code {a} {a} K sv2" by (simp add: good_def)
  show "a \<notin> fst ` set (posted_finishes sv2)" using goodD(2) [OF g] by (auto simp: posted_ok_def pr)
qed

text \<open>The first part of \<open>OnFrame\<close> either leaves everything as it was or enters the request.\<close>

lemma AcquireInflight_cases:
  assumes "AcquireInflight sv = (ok, sv1)"
  obtains "\<not> ok" "sv1 = sv" | "ok" "inflight_count sv < max_inflight_requests (sv_options sv)" "sv1 = sv\<lparr>inflight_count := inflight_count sv + 1\<rparr>"
  using assms by (auto simp: AcquireInflight_def not_le split: if_splits)

lemma enter_request:
  assumes "AcquireInflight sv = (True, sv1)" "AddRequest rq sv1 = (ok, sv2)" "\<not> rq_completed rq"
  shows "if ok then entered rq sv (next_request sv2 - 1) sv2 else sv2\<lparr>inflight_count := inflight_count sv2 - 1\<rparr> = sv"
proof -
  from assms(1) have 1: "inflight_count sv < max_inflight_requests (sv_options sv)" "sv1 = sv\<lparr>inflight_count := inflight_count sv + 1\<rparr>"
    by (auto elim: AcquireInflight_cases)
  from assms(2) show ?thesis
    by (rule AddRequest_cases) (use 1 assms(3) in \<open>simp_all add: entered_def upd_request_def upd_conn_def\<close>)
qed

section \<open>Admission\<close>

text \<open>The requests in \<open>W\<close> are not waiters; one of them becomes a waiter of a record that is pending.\<close>

lemma waiter_inv:
  assumes inv: "sv_inv {} {a} sv" and a: "a \<in> live sv" "rq_idempotency_key (request_at sv a) = key" "key \<noteq> []"
    "a \<notin> fst ` set (posted_finishes sv)"
    and t: "distinct (map fst t)" "length t \<le> max_idempotency_entries (sv_options sv)"
    and look: "map_of t = (map_of (idempotency sv))(key \<mapsto> r)" and r: "pending r" "waiters r = ws @ [a]" "distinct ws"
    and ws: "set ws = (case map_of (idempotency sv) key of None \<Rightarrow> {} | Some r0 \<Rightarrow> set (waiters r0))"
  shows "sv_inv {} {} (sv\<lparr>idempotency := t\<rparr>)"
proof -
  have C: "inv_C {a} sv" using inv by (simp add: sv_inv_def)
  have old: "b \<in> live sv \<and> rq_idempotency_key (request_at sv b) = key \<and> b \<noteq> a \<and> b \<notin> fst ` set (posted_finishes sv)"
    if "b \<in> set ws" for b
  proof -
    from that ws obtain r0 where r0: "map_of (idempotency sv) key = Some r0" "b \<in> set (waiters r0)" by (auto split: option.splits)
    from inv_CD(3) [OF C r0(1)] r0(2) show ?thesis by (auto simp: record_ok_def)
  qed
  have "sv_inv {} {} (sv\<lparr>idempotency := t, completed_idempotency_keys := completed_idempotency_keys sv\<rparr>)"
  proof (rule idem_inv [OF inv t])
    fix k' r' assume r': "map_of t k' = Some r'"
    show "record_ok {} sv k' r'"
    proof (cases "k' = key")
      case True
      with r' look have "r' = r" by simp
      then show ?thesis using old a r True by (auto simp: record_ok_def)
    next
      case False
      with r' look have "map_of (idempotency sv) k' = Some r'" by simp
      from inv_CD(3) [OF C this] show ?thesis by (auto simp: record_ok_def)
    qed
  next
    fix b assume b: "b \<in> live sv" "rq_idempotency_key (request_at sv b) \<noteq> []"
    show "b \<in> {} \<or> b \<in> fst ` set (posted_finishes sv) \<or>
        (\<exists>r. map_of t (rq_idempotency_key (request_at sv b)) = Some r \<and> b \<in> set (waiters r))"
      using inv_CD(4) [OF C b] a(2) ws r(2) unfolding look by (cases "b = a") auto
  qed
  then show ?thesis by simp
qed

lemma Prune_lookup:
  assumes "inv_C W sv" "map_of (idempotency sv) key = None"
  shows "map_of (idempotency (Prune sv)) key = None"
proof -
  obtain t ks where p: "PruneIdempotencyCache (max_idempotency_entries (sv_options sv)) (idempotency sv) (completed_idempotency_keys sv)
      = (t, ks)" by fastforce
  from Prune_table [OF p inv_CD(1) [OF assms(1)]] have "map_of t key = None"
    using assms(2) by (metis not_None_eq option.simps(3))
  then show ?thesis using p by (simp add: Prune_def)
qed

lemma Prune_proj [simp]:
  "live (Prune sv) = live sv" "sv_requests (Prune sv) = sv_requests sv" "posted_finishes (Prune sv) = posted_finishes sv"
  "sv_options (Prune sv) = sv_options sv"
  by (simp_all add: Prune_def live_def split: prod.split)

lemma count_metric_proj [simp]:
  "live (count_metric f sv) = live sv" "sv_requests (count_metric f sv) = sv_requests sv"
  "posted_finishes (count_metric f sv) = posted_finishes sv" "sv_options (count_metric f sv) = sv_options sv"
  "idempotency (count_metric f sv) = idempotency sv"
  by (simp_all add: count_metric_def live_def)

text \<open>A pending record has a waiter, whose job serves the other ones too.\<close>

lemma pending_served:
  assumes g: "good code {a} {a} K sv" and r: "map_of (idempotency sv) key = Some r" "pending r"
    and run: "\<not> stopped sv" "\<not> crashed sv"
  shows "\<exists>b \<in> K \<union> exec_jobs sv. rq_idempotency_key (request_at sv b) = key"
proof -
  have ok: "record_ok {a} sv key r" by (rule inv_CD(3) [OF goodD(7) [OF g] r(1)])
  then obtain b where b: "b \<in> set (waiters r)" using r(2) by (cases "waiters r") (auto simp: record_ok_def)
  with ok have "b \<in> live sv" "b \<noteq> a" "rq_idempotency_key (request_at sv b) = key" "key \<noteq> []" "b \<notin> fst ` set (posted_finishes sv)"
    by (auto simp: record_ok_def)
  with servedD [OF goodD(5) [OF g] run, of b] show ?thesis by (simp add: has_answer_def)
qed

lemma served_join:
  assumes "served {a} K sv" "rq_idempotency_key (request_at sv a) \<noteq> []"
    and "\<not> stopped sv \<Longrightarrow> \<not> crashed sv \<Longrightarrow>
      \<exists>b \<in> K \<union> exec_jobs sv. rq_idempotency_key (request_at sv b) = rq_idempotency_key (request_at sv a)"
  shows "served {} K sv"
proof (rule servedI)
  fix b assume "\<not> stopped sv" "\<not> crashed sv" "b \<in> live sv"
  with assms servedD [OF assms(1), of b] show "has_answer K sv b" by (cases "b = a") (auto simp: has_answer_def)
qed

lemma AdmitIdempotent_present:
  assumes g: "good code {a} {a} K sv" and a: "a \<in> live sv" "rq_idempotency_key (request_at sv a) = key" "key \<noteq> []"
    "a \<notin> fst ` set (posted_finishes sv)" and r: "map_of (idempotency sv) key = Some r"
    and adm: "AdmitIdempotent a bdy sv = (adm, sv')"
  shows "adm \<noteq> Run \<and> good code (if adm = Wait then {} else {a}) (if adm = Wait then {} else {a}) K sv' \<and> quiet_op sv sv'"
proof -
  define sv1 where "sv1 = count_metric (\<lambda>m. m\<lparr>duplicate_requests := duplicate_requests m + 1\<rparr>) sv"
  have g1: "good code {a} {a} K sv1" using g by (simp add: sv1_def)
  have q1: "quiet_op sv sv1" by (simp add: sv1_def)
  let ?same = "body_fingerprint r = rq_fingerprint (request_at sv a) \<and> rec_body r = bdy"
  show ?thesis
  proof (cases "?same \<and> pending r")
    case False
    then have "sv' = sv1" "adm \<noteq> Run" "adm \<noteq> Wait" using adm a(2) r
      by (auto simp: AdmitIdempotent_def Let_def sv1_def split: if_splits)
    then show ?thesis using g1 q1 by simp
  next
    case True
    define t where "t = AList.update key (r\<lparr>waiters := waiters r @ [a]\<rparr>) (idempotency sv)"
    have eq: "adm = Wait" "sv' = sv1\<lparr>idempotency := t\<rparr>" using adm a(2) r True
      by (simp_all add: AdmitIdempotent_def Let_def sv1_def t_def split: if_splits)
    note C = goodD(7) [OF g]
    have ok: "record_ok {a} sv key r" by (rule inv_CD(3) [OF C r])
    have inv: "sv_inv {} {} (sv1\<lparr>idempotency := t\<rparr>)"
    proof (rule waiter_inv [where ws = "waiters r" and r = "r\<lparr>waiters := waiters r @ [a]\<rparr>" and key = key and a = a])
      show "length t \<le> max_idempotency_entries (sv_options sv1)"
        using inv_CD(2) [OF C] update_table [OF inv_CD(1) [OF C] r] by (simp add: t_def sv1_def)
    qed (use goodD(1) [OF g1] a r True ok inv_CD(1) [OF C] in
        \<open>simp_all add: sv1_def t_def update_conv' distinct_update record_ok_def\<close>)
    have q: "quiet_op sv1 (sv1\<lparr>idempotency := t\<rparr>)" by blast
    have g2: "good code {a} {} K (sv1\<lparr>idempotency := t\<rparr>)" by (rule good_quiet [OF g1 q inv])
    have "served {} K (sv1\<lparr>idempotency := t\<rparr>)"
    proof (rule served_join [OF goodD(5) [OF g2]])
      assume "\<not> stopped (sv1\<lparr>idempotency := t\<rparr>)" "\<not> crashed (sv1\<lparr>idempotency := t\<rparr>)"
      then show "\<exists>b \<in> K \<union> exec_jobs (sv1\<lparr>idempotency := t\<rparr>). rq_idempotency_key (request_at (sv1\<lparr>idempotency := t\<rparr>) b) =
          rq_idempotency_key (request_at (sv1\<lparr>idempotency := t\<rparr>) a)"
        using pending_served [OF g1, of key r] r True a(2) by (simp add: sv1_def exec_jobs_def)
    qed (use a in \<open>simp add: sv1_def\<close>)
    then show ?thesis using g2 eq quiet_trans [OF q1 q] by (simp add: good_def)
  qed
qed

lemma AdmitIdempotent_absent:
  assumes g: "good code {a} {a} K sv" and a: "a \<in> live sv" "rq_idempotency_key (request_at sv a) = key" "key \<noteq> []"
    "a \<notin> fst ` set (posted_finishes sv)" and none: "map_of (idempotency sv) key = None"
    and adm: "AdmitIdempotent a bdy sv = (adm, sv')"
  shows "(adm = Run \<or> adm = NoCapacity) \<and> good code {a} (if adm = Run then {} else {a}) K sv' \<and> quiet_op sv sv'"
proof -
  have g1: "good code {a} {a} K (Prune sv)" by (rule good_op [OF Prune_inv Prune_quiet g])
  show ?thesis
  proof (cases "length (idempotency (Prune sv)) \<ge> max_idempotency_entries (sv_options sv)")
    case True
    then have "adm = NoCapacity" "sv' = Prune sv" using adm a(2) none by (simp_all add: AdmitIdempotent_def Let_def)
    then show ?thesis using g1 Prune_quiet by simp
  next
    case False
    define r where "r = \<lparr>pending = True, body_fingerprint = rq_fingerprint (request_at sv a), rec_body = bdy,
      rec_response = empty_frame, waiters = [a]\<rparr>"
    have none1: "map_of (idempotency (Prune sv)) key = None" by (rule Prune_lookup [OF goodD(7) [OF g] none])
    define t where "t = idempotency (Prune sv) @ [(key, r)]"
    have eq: "adm = Run" "sv' = (Prune sv)\<lparr>idempotency := t\<rparr>" using adm a(2) none none1 False
      by (simp_all add: AdmitIdempotent_def Let_def emplace_def t_def r_def)
    have inv: "sv_inv {} {} ((Prune sv)\<lparr>idempotency := t\<rparr>)"
    proof (rule waiter_inv [where ws = "[]" and r = r and key = key and a = a])
      show "map_of t = (map_of (idempotency (Prune sv)))(key \<mapsto> r)"
        using none1 by (auto simp: t_def map_add_def fun_eq_iff split: option.split)
      show "distinct (map fst t)"
        using inv_CD(1) [OF goodD(7) [OF g1]] none1 by (simp add: t_def map_of_eq_None_iff)
    qed (use goodD(1) [OF g1] a none1 False in \<open>simp_all add: t_def r_def\<close>)
    have q: "quiet_op (Prune sv) ((Prune sv)\<lparr>idempotency := t\<rparr>)" by blast
    show ?thesis using good_quiet [OF g1 q inv] eq quiet_trans [OF Prune_quiet q] by simp
  qed
qed

lemma AdmitIdempotent_good:
  assumes g: "good code {a} {a} K sv" and a: "a \<in> live sv" "rq_idempotency_key (request_at sv a) \<noteq> []"
    "a \<notin> fst ` set (posted_finishes sv)" and adm: "AdmitIdempotent a bdy sv = (adm, sv')"
  shows "good code (if adm = Wait then {} else {a}) (if adm = Run \<or> adm = Wait then {} else {a}) K sv'" "quiet_op sv sv'"
  using AdmitIdempotent_present [OF g a(1) refl a(2,3) _ adm] AdmitIdempotent_absent [OF g a(1) refl a(2,3) _ adm]
  by (cases "map_of (idempotency sv) (rq_idempotency_key (request_at sv a))"; fastforce)+

section \<open>Running a request\<close>

text \<open>A change of the executors, by which no job is lost and all jobs are of known requests.\<close>

lemma executors_good:
  assumes g: "good code X W K sv"
    and kept: "(e1 = None) = (executor sv = None)" "(e2 = None) = (io_executor sv = None)"
    and jobs: "\<not> stopped sv \<Longrightarrow> K \<union> exec_jobs sv \<subseteq> K' \<union> exec_jobs (sv\<lparr>executor := e1, io_executor := e2\<rparr>)"
      "\<not> stopped sv \<Longrightarrow> K' \<union> exec_jobs (sv\<lparr>executor := e1, io_executor := e2\<rparr>) \<subseteq> K \<union> exec_jobs sv \<union> live sv"
    and workers: "\<And>e w. \<not> stopped sv \<Longrightarrow> e2 = Some e \<Longrightarrow> w \<in> set (workers e) \<Longrightarrow> \<not> w_stopping w"
  shows "good code X W K' (sv\<lparr>executor := e1, io_executor := e2\<rparr>)"
proof -
  let ?sv = "sv\<lparr>executor := e1, io_executor := e2\<rparr>"
  have "sv_inv {} W ?sv" using goodD(1) [OF g] by simp
  moreover have "posted_ok ?sv" using goodD(2) [OF g] by (simp add: posted_ok_def)
  moreover have "workers_run ?sv" using workers by (auto simp: workers_run_def)
  moreover have "exec_ok code ?sv" using goodD(4) [OF g] kept by (simp add: exec_ok_def)
  moreover have "pending_jobs_ok K' ?sv"
  proof -
    have "x < next_request sv" if "x \<in> live sv" for x using inv_AD(6) [OF goodD(6) [OF g], of x] that not_le by blast
    then show ?thesis using goodD(8) [OF g] jobs(2) unfolding pending_jobs_ok_def by (cases "stopped sv") auto
  qed
  moreover have "served X K' ?sv"
    by (rule served_mono [OF goodD(5) [OF g]]) (use jobs(1) in \<open>auto simp: live_def\<close>)
  ultimately show ?thesis by (simp add: good_def)
qed

text \<open>Once the job of \<open>a\<close> is with an executor, \<open>a\<close> is served.\<close>

lemma submitted_good:
  assumes "good code {a} {} K sv" "a \<in> exec_jobs sv"
  shows "good code {} {} K sv"
proof -
  have "served {} K sv"
  proof (rule servedI)
    fix b assume "\<not> stopped sv" "\<not> crashed sv" "b \<in> live sv"
    with assms(2) servedD [OF goodD(5) [OF assms(1)], of b] show "has_answer K sv b" by (cases "b = a") (auto simp: has_answer_def)
  qed
  then show ?thesis using assms(1) by (simp add: good_def)
qed

lemma exec_jobs_upd:
  "exec_jobs (sv\<lparr>executor := e1, io_executor := e2\<rparr>) =
     (case e1 of None \<Rightarrow> {} | Some e \<Rightarrow> fst ` set (pool_tasks e)) \<union>
     (case e2 of None \<Rightarrow> {} | Some e \<Rightarrow> \<Union> (worker_jobs ` set (workers e)))"
  by (simp add: exec_jobs_def)

lemma workers_jobs_update:
  assumes "k < length ws"
  shows "\<Union> (worker_jobs ` set (ws[k := w])) \<subseteq> \<Union> (worker_jobs ` set ws) \<union> worker_jobs w"
    and "\<Union> (worker_jobs ` set ws) \<subseteq> \<Union> (worker_jobs ` set (ws[k := w])) \<union> worker_jobs (ws ! k)"
    and "worker_jobs w \<subseteq> \<Union> (worker_jobs ` set (ws[k := w]))"
    and "worker_jobs (ws ! k) \<subseteq> \<Union> (worker_jobs ` set ws)"
proof -
  show "\<Union> (worker_jobs ` set (ws[k := w])) \<subseteq> \<Union> (worker_jobs ` set ws) \<union> worker_jobs w"
    using set_update_subset_insert [of ws k w] by blast
  have "set ws \<subseteq> insert (ws ! k) (set (ws[k := w]))"
  proof
    fix x assume "x \<in> set ws"
    then obtain j where j: "j < length ws" "x = ws ! j" by (auto simp: in_set_conv_nth)
    show "x \<in> insert (ws ! k) (set (ws[k := w]))"
    proof (cases "j = k")
      case False
      then have "x = ws[k := w] ! j" using j by simp
      then show ?thesis using j(1) by (metis insertCI length_list_update nth_mem)
    qed (use j in simp)
  qed
  then show "\<Union> (worker_jobs ` set ws) \<subseteq> \<Union> (worker_jobs ` set (ws[k := w])) \<union> worker_jobs (ws ! k)" by blast
  show "worker_jobs w \<subseteq> \<Union> (worker_jobs ` set (ws[k := w]))" using set_update_memI [OF assms, of w] by blast
  show "worker_jobs (ws ! k) \<subseteq> \<Union> (worker_jobs ` set ws)" using nth_mem [OF assms] by blast
qed

lemma jobs_grow:
  fixes S :: "nat set"
  assumes "S' \<subseteq> S \<union> V'" "S \<subseteq> S' \<union> V" "V' \<subseteq> S'" "V \<subseteq> S" "V' = insert a V"
  shows "S' = insert a S"
  using assms by blast

lemma try_workers_jobs:
  assumes "try_workers submitted (a, request) i count ws = (ok, ws')" "ws \<noteq> []"
  shows "\<Union> (worker_jobs ` set ws') = \<Union> (worker_jobs ` set ws) \<union> (if ok then {a} else {}) \<and>
    w_stopping ` set ws' \<subseteq> w_stopping ` set ws"
  using assms
proof (induction count arbitrary: i)
  case (Suc count)
  let ?k = "i mod length ws"
  have k: "?k < length ws" using Suc(3) by simp
  show ?case
  proof (cases "takes_work (ws ! ?k) \<and> submitted ?k")
    case True
    define w where "w = (ws ! ?k)\<lparr>w_pending := w_pending (ws ! ?k) + 1, w_queue := w_queue (ws ! ?k) @ [(a, request)]\<rparr>"
    have eq: "ok" "ws' = ws[?k := w]" using Suc(2) True by (simp_all add: WorkerTrySubmit_result Let_def w_def)
    have "worker_jobs w = insert a (worker_jobs (ws ! ?k))" by (auto simp: w_def worker_jobs_def)
    with workers_jobs_update [OF k] have "\<Union> (worker_jobs ` set ws') = insert a (\<Union> (worker_jobs ` set ws))"
      unfolding eq(2) by (rule jobs_grow)
    moreover have "w_stopping w \<in> w_stopping ` set ws" using nth_mem [OF k] by (simp add: w_def)
    ultimately show ?thesis using eq set_update_subset_insert [of ws ?k w] by auto
  next
    case False
    then have "try_workers submitted (a, request) (Suc i) count ws = (ok, ws')"
      using Suc(2) by (auto simp: WorkerTrySubmit_result Let_def)
    from Suc(1) [OF this Suc(3)] show ?thesis .
  qed
qed auto

lemma IoTrySubmit_jobs:
  assumes "IoTrySubmit submitted (a, request) e = (ok, e')"
  shows "\<Union> (worker_jobs ` set (workers e')) = \<Union> (worker_jobs ` set (workers e)) \<union> (if ok then {a} else {}) \<and>
    w_stopping ` set (workers e') \<subseteq> w_stopping ` set (workers e)"
proof (cases "io_stopping e \<or> workers e = []")
  case True
  then show ?thesis using assms by (cases "io_stopping e") (auto simp: IoTrySubmit_def Let_def)
next
  case False
  obtain ws where ws: "try_workers submitted (a, request) (unat (next_worker e) mod length (workers e)) (length (workers e)) (workers e) = (ok, ws)"
    and e': "workers e' = ws"
    using assms False by (auto simp: IoTrySubmit_def Let_def split: prod.splits)
  from try_workers_jobs [OF ws] False show ?thesis by (simp add: e')
qed

definition mode_ok :: "ServerCode \<Rightarrow> RpcExecutionMode \<Rightarrow> RpcServer \<Rightarrow> bool" where
  "mode_ok code mode sv \<longleftrightarrow> (execution_mode_view_selector code = None \<or> execution_mode_selector code \<noteq> None \<longrightarrow>
     (mode = CPU_POOL \<longrightarrow> executor sv \<noteq> None) \<and> (mode = IO_COROUTINE \<longrightarrow> io_executor sv \<noteq> None))"

lemma mode_of_ok: "exec_ok code sv \<Longrightarrow> mode_ok code (mode_of code md sv) sv"
  by (auto simp: mode_ok_def exec_ok_def mode_of_def split: option.splits)

lemma crash_good:
  assumes "good code {a} {} K sv" "\<not> (execution_mode_view_selector code = None \<or> execution_mode_selector code \<noteq> None)"
  shows "good code {} {} K (sv\<lparr>crashed := True\<rparr>)"
  using goodD(1-4,8) [OF assms(1)] assms(2)
  by (simp add: good_def posted_ok_def workers_run_def exec_ok_def pending_jobs_ok_def exec_jobs_def served_def)

lemma good_peers: "good code {a} {} K sv \<Longrightarrow> good code (peers sv a) {} K sv"
  by (erule good_weaken) (simp add: peers_def)

lemma RefuseRun_good: "good code {a} {} K sv \<Longrightarrow> good code {} {} K (RefuseRun now a sv)"
  unfolding RefuseRun_def by (rule FinishRun_good) (rule good_peers, simp)

lemma RunRequest_good:
  assumes g: "good code {a} {} K sv" and live: "a \<in> live sv" and mode: "mode_ok code mode sv"
  shows "good code {} {} K (RunRequest code now submitted mode a request sv)"
proof (cases mode)
  case NETWORK_INLINE
  then show ?thesis using FinishRun_good [OF good_peers [OF g]] by (simp add: RunRequest_def split: prod.split)
next
  case IO_COROUTINE
  show ?thesis
  proof (cases "io_executor sv")
    case None
    then show ?thesis using crash_good [OF g] mode IO_COROUTINE by (auto simp: RunRequest_def mode_ok_def)
  next
    case (Some e)
    obtain ok e' where sub: "IoTrySubmit submitted (a, request) e = (ok, e')" by fastforce
    note jobs = IoTrySubmit_jobs [OF sub]
    let ?sv = "sv\<lparr>io_executor := Some e'\<rparr>"
    have ej: "exec_jobs ?sv = exec_jobs sv \<union> (if ok then {a} else {})"
      using jobs Some by (simp add: exec_jobs_def Un_assoc)
    have "good code {a} {} K (sv\<lparr>executor := executor sv, io_executor := Some e'\<rparr>)"
    proof (rule executors_good [OF g])
      fix f w assume "\<not> stopped sv" "Some e' = Some f" "w \<in> set (workers f)"
      then show "\<not> w_stopping w" using goodD(3) [OF g] jobs Some by (force simp: workers_run_def)
    qed (use Some live in \<open>auto simp: ej\<close>)
    then have g2: "good code {a} {} K ?sv" by simp
    have "RunRequest code now submitted mode a request sv = (if ok then ?sv else RefuseRun now a ?sv)"
      using IO_COROUTINE Some sub by (cases ok) (simp_all add: RunRequest_def)
    then show ?thesis using submitted_good [OF g2] RefuseRun_good [OF g2] ej by simp
  qed
next
  case CPU_POOL
  show ?thesis
  proof (cases "executor sv")
    case None
    then show ?thesis using crash_good [OF g] mode CPU_POOL by (auto simp: RunRequest_def mode_ok_def)
  next
    case (Some e)
    obtain ok e' where sub: "PoolTrySubmit (a, request) e = (ok, e')" by fastforce
    let ?sv = "sv\<lparr>executor := Some e'\<rparr>"
    have "fst ` set (pool_tasks e') = fst ` set (pool_tasks e) \<union> (if ok then {a} else {})"
      using sub by (auto simp: PoolTrySubmit_def split: if_splits)
    then have ej: "exec_jobs ?sv = exec_jobs sv \<union> (if ok then {a} else {})" using Some by (simp add: exec_jobs_def Un_ac)
    have "good code {a} {} K (sv\<lparr>executor := Some e', io_executor := io_executor sv\<rparr>)"
      by (rule executors_good [OF g]) (use Some live goodD(3) [OF g] in \<open>auto simp: ej workers_run_def\<close>)
    then have g2: "good code {a} {} K ?sv" by simp
    have "RunRequest code now submitted mode a request sv = (if ok then ?sv else RefuseRun now a ?sv)"
      using CPU_POOL Some sub by (cases ok) (simp_all add: RunRequest_def)
    then show ?thesis using submitted_good [OF g2] RefuseRun_good [OF g2] ej by simp
  qed
qed

section \<open>Frames\<close>

lemma AdmitIdempotent_live: "AdmitIdempotent a bdy sv = (adm, sv') \<Longrightarrow> live sv' = live sv"
proof -
  have "live (sv\<lparr>idempotency := t\<rparr>) = live sv" for sv t by (simp add: live_def)
  then show "AdmitIdempotent a bdy sv = (adm, sv') \<Longrightarrow> live sv' = live sv"
    by (auto simp: AdmitIdempotent_def Let_def split: option.splits if_splits)
qed

lemma good_unkeyed:
  assumes "good code {a} {a} K sv" "rq_idempotency_key (request_at sv a) = []"
  shows "good code {a} {} K sv"
proof -
  have "inv_C {} sv"
    by (rule inv_C_skip [OF goodD(7) [OF assms(1)] no_waiterI [OF goodD(7) [OF assms(1)]]]) (use assms(2) in simp_all)
  then show ?thesis using assms(1) by (simp add: good_def sv_inv_def)
qed

lemma reject_good:
  assumes "good code {a} {a} K sv"
  shows "good code {} {} K (Finish a now resp sv)"
  by (rule Finish_good [OF assms]) (simp_all add: no_waiterI [OF goodD(7) [OF assms]])

text \<open>A request that was entered is admitted and run.\<close>

lemma admitted_good:
  assumes g: "good code {a} {a} K sv" and a: "a \<in> live sv" "a \<notin> fst ` set (posted_finishes sv)" and mode: "mode_ok code mode sv"
  shows "good code {} {} K (if rq_idempotency_key (request_at sv a) = [] then RunRequest code now submitted mode a request sv
    else (case AdmitIdempotent a bdy sv of
            (Run, sv) \<Rightarrow> RunRequest code now submitted mode a request sv
          | (Wait, sv) \<Rightarrow> sv
          | (UseCached resp, sv) \<Rightarrow> Finish a (now a) resp sv
          | (Conflict, sv) \<Rightarrow> Finish a (now a) (MakeStatusResponse rid RPC_ALREADY_EXISTS []) sv
          | (NoCapacity, sv) \<Rightarrow>
              Finish a (now a) (MakeStatusResponse rid RPC_RESOURCE_EXHAUSTED [])
                (count_metric (\<lambda>m. m\<lparr>requests_rejected := requests_rejected m + 1\<rparr>) sv)))"
proof (cases "rq_idempotency_key (request_at sv a) = []")
  case True
  then show ?thesis using RunRequest_good [OF good_unkeyed [OF g True] a(1) mode] by simp
next
  case False
  obtain adm sv' where adm: "AdmitIdempotent a bdy sv = (adm, sv')" by fastforce
  note g' = AdmitIdempotent_good [OF g a(1) False a(2) adm]
  have live: "a \<in> live sv'" using AdmitIdempotent_live [OF adm] a(1) by simp
  have mode': "mode_ok code mode sv'" using mode quietD(8,9) [OF g'(2)] by (simp add: mode_ok_def)
  show ?thesis
  proof (cases adm)
    case Run
    then show ?thesis using RunRequest_good [OF _ live mode'] g'(1) False adm by simp
  next
    case Wait
    then show ?thesis using g'(1) False adm by simp
  next
    case NoCapacity
    then show ?thesis using reject_good [of code a K "count_metric (\<lambda>m. m\<lparr>requests_rejected := requests_rejected m + 1\<rparr>) sv'"] g'(1) False adm by simp
  qed (use reject_good [of code a K sv'] g'(1) False adm in simp_all)
qed

lemma new_request_simps [simp]:
  "\<not> rq_completed (new_request c scope request)" "rq_conn (new_request c scope request) = c"
  "rq_request_id (new_request c scope request) = sr_request_id request"
  "rq_deadline_ms (new_request c scope request) = sr_deadline_ms request"
  by (simp_all add: new_request_def Let_def)

lemma OnRequest_good:
  assumes g: "good code {} {} K sv" and mode: "mode_ok code mode sv"
  shows "good code {} {} K (OnRequest code now submitted mode c request sv)"
proof -
  let ?rq = "new_request c (caller_scope (conn_at sv c)) request"
  obtain ok1 sv1 where acq: "AcquireInflight sv = (ok1, sv1)" by fastforce
  show ?thesis
  proof (cases ok1)
    case False
    then have "sv1 = sv" using acq by (auto elim: AcquireInflight_cases)
    then show ?thesis using acq False reject_with_good [OF g] by (simp add: OnRequest_def Let_def)
  next
    case True
    obtain ok2 sv2 where add: "AddRequest ?rq sv1 = (ok2, sv2)" by fastforce
    note enter = enter_request [OF acq [unfolded True [THEN eqTrueI]] add]
    show ?thesis
    proof (cases ok2)
      case False
      then show ?thesis using enter acq add True reject_with_good [OF g] by (simp add: OnRequest_def Let_def)
    next
      case ok2: True
      let ?a = "next_request sv2 - 1"
      have e: "entered ?rq sv ?a sv2" using enter ok2 by simp
      note pr = entered_proj [OF e]
      have "mode_ok code mode sv2" using mode by (simp add: mode_ok_def pr(8,9))
      from admitted_good [OF entered_good(1) [OF e g] _ entered_good(2) [OF e g] this, where now = now and submitted = submitted and
          request = request and bdy = "body (sr_frame request)" and rid = "sr_request_id request"]
      show ?thesis using acq add True ok2 pr(1) pr(2) [of ?a]
        by (simp add: OnRequest_def Let_def del: One_nat_def split del: if_split)
    qed
  qed
qed

lemma OnInlineView_good:
  assumes g: "good code {} {} K sv"
  shows "good code {} {} K (OnInlineView h after c request sv)"
proof -
  obtain ok1 sv1 where acq: "AcquireInflight sv = (ok1, sv1)" by fastforce
  show ?thesis
  proof (cases ok1)
    case False
    then have "sv1 = sv" using acq by (auto elim: AcquireInflight_cases)
    then show ?thesis using acq False reject_with_good [OF g] by (simp add: OnInlineView_def)
  next
    case True
    then have sv1: "sv1 = sv\<lparr>inflight_count := inflight_count sv + 1\<rparr>" using acq by (auto elim: AcquireInflight_cases)
    define sv2 where "sv2 = (if sr_deadline_ms request \<noteq> kNoTimeout \<and> after \<ge> sr_deadline_ms request
      then count_metric (\<lambda>m. m\<lparr>requests_timed_out := requests_timed_out m + 1\<rparr>) sv1 else sv1)"
    have "sv2\<lparr>inflight_count := inflight_count sv2 - 1\<rparr> = (if sr_deadline_ms request \<noteq> kNoTimeout \<and> after \<ge> sr_deadline_ms request
      then count_metric (\<lambda>m. m\<lparr>requests_timed_out := requests_timed_out m + 1\<rparr>) sv else sv)"
      by (simp add: sv2_def sv1 count_metric_def)
    then have "good code {} {} K (count_metric (\<lambda>m. m\<lparr>requests_completed := requests_completed m + 1\<rparr>) (sv2\<lparr>inflight_count := inflight_count sv2 - 1\<rparr>))"
      using g by simp
    from ServerMaybeFinishDrain_good [OF QueueFrame_good [OF this]] acq True show ?thesis
      by (simp add: OnInlineView_def Let_def sv2_def [symmetric])
  qed
qed

lemma OnFrame_good:
  assumes g: "good code {} {} K sv"
  shows "good code {} {} K (OnFrame code arrival now submitted c f sv)"
proof -
  define sv1 where "sv1 = count_metric (\<lambda>m. m\<lparr>requests_received := requests_received m + 1\<rparr>) sv"
  have g1: "good code {} {} K sv1" using g by (simp add: sv1_def)
  have mode: "mode_ok code (mode_of code md sv1) sv1" for md by (rule mode_of_ok [OF goodD(4) [OF g1]])
  have req: "mode_of code md sv1 = m \<Longrightarrow> good code {} {} K (OnRequest code now submitted m c rq sv1)" for md m rq
    using OnRequest_good [OF g1 mode] by blast
  note parts = req OnRequest_good [OF g1 mode] OnInlineView_good [OF g1] reject_with_good [OF g1] QueueFrame_good
    ServerCancel_good [OF g] ServerClose_good [OF g] g1
  show ?thesis
    unfolding OnFrame_def Let_def sv1_def [symmetric]
    by (auto split: sum.split list.split option.split RpcExecutionMode.split intro!: parts)
qed

end
