(* ===== verification/ServerSystem.thy ===== *)
theory ServerSystem
  imports ServerRequests
begin

text \<open>
  The invariant of the whole server, with its threads: every step of \<open>server_step\<close> keeps \<open>good\<close> and
  \<open>drain_ok\<close>, so they hold in every state the server can reach.
\<close>

section \<open>Draining\<close>

text \<open>
  A server that no longer accepts requests and has none in flight and no connection left is stopped,
  or a task that will stop it is submitted. The tasks that close the connections of the other shards
  exist only once it is stopped.
\<close>

definition closes_ok :: "RpcServer \<Rightarrow> bool" where
  "closes_ok sv \<longleftrightarrow> (posted_closes sv \<noteq> [] \<longrightarrow> stopped sv)"

definition drain_ok :: "RpcServer \<Rightarrow> bool" where
  "drain_ok sv \<longleftrightarrow> closes_ok sv \<and>
     (sv_accepting sv \<or> stopped sv \<or> inflight_count sv \<noteq> 0 \<or> active_connections sv \<noteq> 0 \<or> 0 < submitted_checks sv)"

lemma quiet_closes: "quiet_op sv sv' \<Longrightarrow> closes_ok sv \<Longrightarrow> closes_ok sv'"
  using quietD(7) quietD(12) unfolding closes_ok_def by metis

lemma drain_closes: "drain_ok sv \<Longrightarrow> closes_ok sv"
  by (simp add: drain_ok_def)

lemma stopped_drain: "stopped sv \<Longrightarrow> drain_ok sv"
  by (simp add: drain_ok_def closes_ok_def)

lemma drain_simple [simp]:
  "drain_ok (upd_conn c cn sv) = drain_ok sv" "drain_ok (count_metric f sv) = drain_ok sv" "drain_ok (CancelContext a sv) = drain_ok sv"
  "drain_ok (RemoveWaiter a k sv) = drain_ok sv" "drain_ok (sv\<lparr>posted_finishes := ps\<rparr>) = drain_ok sv"
  "drain_ok (sv\<lparr>idempotency := t\<rparr>) = drain_ok sv" "drain_ok (sv\<lparr>idempotency := t, completed_idempotency_keys := ks\<rparr>) = drain_ok sv"
  "drain_ok (sv\<lparr>executor := e1\<rparr>) = drain_ok sv" "drain_ok (sv\<lparr>io_executor := e2\<rparr>) = drain_ok sv" "drain_ok (sv\<lparr>crashed := b\<rparr>) = drain_ok sv"
  "drain_ok (sv\<lparr>started := b\<rparr>) = drain_ok sv" "drain_ok (Prune sv) = drain_ok sv"
  by (simp_all add: drain_ok_def closes_ok_def upd_conn_def count_metric_def CancelContext_def upd_request_def RemoveWaiter_def
      Prune_def Let_def split: option.split prod.split)

lemma ServerMaybeFinishDrain_drain: "closes_ok sv \<Longrightarrow> drain_ok (ServerMaybeFinishDrain k sv)"
  by (auto simp: ServerMaybeFinishDrain_def stopped_drain) (auto simp: drain_ok_def closes_ok_def)

lemma ServerClose_drain: "drain_ok sv \<Longrightarrow> drain_ok (ServerClose c sv)"
  by (simp add: ServerClose_def ServerMaybeFinishDrain_drain quiet_closes [OF CloseCore_quiet] drain_closes)

lemma QueueFrame_drain: "drain_ok sv \<Longrightarrow> drain_ok (snd (QueueFrame c f sv))"
  by (auto simp: QueueFrame_def QueueEncoded_def ServerClose_drain Let_def split: sum.split)

lemma reject_with_drain: "drain_ok sv \<Longrightarrow> drain_ok (reject_with c rid st sv)"
  by (simp add: reject_with_def QueueFrame_drain)

lemma MaybeCloseAfterDrain_drain: "drain_ok sv \<Longrightarrow> drain_ok (MaybeCloseAfterDrain c sv)"
  by (simp add: MaybeCloseAfterDrain_def ServerClose_drain Let_def)

lemma ConnBeginDrain_drain: "drain_ok sv \<Longrightarrow> drain_ok (ConnBeginDrain c sv)"
  by (simp add: ConnBeginDrain_def MaybeCloseAfterDrain_drain)

lemma DrainShard_drain: "drain_ok sv \<Longrightarrow> drain_ok (DrainShard k sv)"
  unfolding DrainShard_def by (rule fold_inv [of drain_ok]) (auto intro: ConnBeginDrain_drain)

lemma Finish_drain: "drain_ok sv \<Longrightarrow> drain_ok (Finish a now resp sv)"
proof (cases "rq_completed (request_at sv a)")
  case False
  assume "drain_ok sv"
  then have cl: "closes_ok sv" by (rule drain_closes)
  let ?sv0 = "upd_request a ((request_at sv a)\<lparr>rq_completed := True\<rparr>) sv"
  from Finish_steps [OF False, of now resp] obtain resp' sv1 where q: "quiet_op ?sv0 sv1" and
    eq: "Finish a now resp sv = (let sv2 = CompleteRequest (rq_conn (request_at sv a)) (rq_request_id (request_at sv a)) resp' sv1
     in ServerMaybeFinishDrain (shard_of sv2 a) sv2)" by blast
  have "quiet_op sv (CompleteRequest (rq_conn (request_at sv a)) (rq_request_id (request_at sv a)) resp' sv1)"
    by (rule quiet_trans [OF quiet_trans [OF quiet_simple(16) q] CompleteRequest_quiet])
  from ServerMaybeFinishDrain_drain [OF quiet_closes [OF this cl]] show ?thesis by (simp add: eq Let_def)
qed (simp add: Finish_def)

lemma FinishOnOwner_drain: "drain_ok sv \<Longrightarrow> drain_ok (FinishOnOwner k now resp ws sv)"
  by (induction ws arbitrary: sv) (simp_all add: Finish_drain)

lemma FinishIdempotent_drain: "drain_ok sv \<Longrightarrow> drain_ok (FinishIdempotent k now key resp cache sv)"
  by (simp add: FinishIdempotent_def FinishOnOwner_drain Let_def split: option.split)

lemma FinishRun_drain: "drain_ok sv \<Longrightarrow> drain_ok (FinishRun now a resp cache sv)"
  by (simp add: FinishRun_def Finish_drain FinishIdempotent_drain)

lemma ServerCancel_drain: "drain_ok sv \<Longrightarrow> drain_ok (ServerCancel now c rid sv)"
  by (simp add: ServerCancel_def Finish_drain Let_def split: option.split)

lemma RunRequest_drain: "drain_ok sv \<Longrightarrow> drain_ok (RunRequest code now submitted mode a request sv)"
  by (auto simp: RunRequest_def RefuseRun_def FinishRun_drain split: RpcExecutionMode.split option.split prod.split bool.split)

lemma AdmitIdempotent_drain: "drain_ok sv \<Longrightarrow> AdmitIdempotent a bdy sv = (adm, sv') \<Longrightarrow> drain_ok sv'"
  by (auto simp: AdmitIdempotent_def Let_def split: option.splits if_splits)

lemma OnRequest_drain:
  assumes d: "drain_ok sv"
  shows "drain_ok (OnRequest code now submitted mode c request sv)"
proof -
  let ?rq = "new_request c (caller_scope (conn_at sv c)) request"
  obtain ok1 sv1 where acq: "AcquireInflight sv = (ok1, sv1)" by fastforce
  show ?thesis
  proof (cases ok1)
    case False
    then have "sv1 = sv" using acq by (auto elim: AcquireInflight_cases)
    then show ?thesis using acq False reject_with_drain [OF d] by (simp add: OnRequest_def Let_def)
  next
    case True
    obtain ok2 sv2 where add: "AddRequest ?rq sv1 = (ok2, sv2)" by fastforce
    note enter = enter_request [OF acq [unfolded True [THEN eqTrueI]] add]
    show ?thesis
    proof (cases ok2)
      case False
      then show ?thesis using enter acq add True reject_with_drain [OF d] by (simp add: OnRequest_def Let_def)
    next
      case ok2: True
      then have "entered ?rq sv (next_request sv2 - 1) sv2" using enter by simp
      note pr = entered_proj [OF this]
      have "drain_ok sv2" using d by (simp add: drain_ok_def closes_ok_def pr(10,13,18))
      then show ?thesis using acq add True ok2
        by (auto simp: OnRequest_def Let_def RunRequest_drain Finish_drain
            dest: AdmitIdempotent_drain split: prod.split Admission.split)
    qed
  qed
qed

lemma OnInlineView_drain:
  assumes d: "drain_ok sv"
  shows "drain_ok (OnInlineView h after c request sv)"
proof -
  obtain ok1 sv1 where acq: "AcquireInflight sv = (ok1, sv1)" by fastforce
  show ?thesis
  proof (cases ok1)
    case False
    then have "sv1 = sv" using acq by (auto elim: AcquireInflight_cases)
    then show ?thesis using acq False reject_with_drain [OF d] by (simp add: OnInlineView_def)
  next
    case True
    then have "closes_ok sv1" using acq drain_closes [OF d] by (auto elim!: AcquireInflight_cases simp: closes_ok_def)
    then have "closes_ok (snd (QueueFrame c resp (count_metric f ((if b then count_metric g sv1 else sv1)\<lparr>inflight_count := n\<rparr>))))" for resp f g b n
      by (intro quiet_closes [OF QueueFrame_quiet]) (auto simp: closes_ok_def count_metric_def)
    then show ?thesis using acq True by (simp add: OnInlineView_def Let_def ServerMaybeFinishDrain_drain)
  qed
qed

lemma OnFrame_drain: "drain_ok sv \<Longrightarrow> drain_ok (OnFrame code arrival now submitted c f sv)"
  unfolding OnFrame_def Let_def
  by (auto split: sum.split list.split option.split RpcExecutionMode.split
      intro!: OnRequest_drain OnInlineView_drain reject_with_drain QueueFrame_drain ServerCancel_drain ServerClose_drain)

section \<open>Connections and the lifecycle\<close>

lemma upd_conn_good:
  assumes "good code X W K sv" "sc_requests cn = sc_requests (conn_at sv c)" "closed cn = closed (conn_at sv c)"
    "sc_outbound cn = sc_outbound (conn_at sv c)" "sc_outbound_bytes cn = sc_outbound_bytes (conn_at sv c)"
    "sc_writer cn = SW_Waiting \<Longrightarrow> sc_outbound cn = [] \<or> sc_writer (conn_at sv c) = SW_Waiting"
  shows "good code X W K (upd_conn c cn sv)"
  by (rule good_quiet [OF assms(1) quiet_simple(1) upd_conn_same_out]) (use goodD(1) [OF assms(1)] assms(2-) in auto)

lemma attach_conn_inv:
  assumes inv: "sv_inv E W sv" and room: "active_connections sv < max_connections (sv_options sv)"
    and cn: "sc_requests cn = []" "sc_outbound cn = []" "sc_outbound_bytes cn = 0" "\<not> closed cn"
    and sv': "sv' = (upd_conn (next_conn sv) cn sv)\<lparr>next_conn := next_conn sv + 1,
      active_connections := active_connections sv + 1, attached := attached sv @ [next_conn sv]\<rparr>"
  shows "sv_inv E W sv'"
proof -
  let ?c = "next_conn sv"
  have A: "inv_A E sv" and B: "inv_B sv" and C: "inv_C W sv" using inv by (simp_all add: sv_inv_def)
  have cl: "closed (conn_at sv ?c)" using B by (simp add: inv_B_def)
  have proj: "sv_options sv' = sv_options sv" "live sv' = live sv" "sv_requests sv' = sv_requests sv"
    "inflight_count sv' = inflight_count sv" "next_request sv' = next_request sv" "sv_conns sv' = (sv_conns sv)(?c := cn)"
    "idempotency sv' = idempotency sv" "posted_finishes sv' = posted_finishes sv"
"next_conn sv' = ?c + 1"
    "active_connections sv' = active_connections sv + 1" "attached sv' = attached sv @ [?c]"
    by (simp_all add: sv' upd_conn_def live_def)
  have "inv_A E sv'"
  proof (rule inv_AI)
    fix d
    show "conn_ok E sv' d (conn_at sv' d)"
    proof (cases "d = ?c")
      case True
      then show ?thesis using cn by (intro conn_okI) (simp_all add: proj)
    next
      case False
      have "conn_ok E sv' d (conn_at sv d)"
        by (rule conn_ok_cong [OF inv_AD(4) [OF A]]) (use conn_okD(4) [OF inv_AD(4) [OF A, of d]] in \<open>simp_all add: proj\<close>)
      then show ?thesis using False by (simp add: proj)
    qed
  next
    fix a assume "a \<in> live sv'" "a \<notin> E"
    then have m: "(rq_request_id (request_at sv a), a) \<in> set (sc_requests (conn_at sv (rq_conn (request_at sv a))))"
      using inv_AD(5) [OF A] by (simp add: proj)
    then have "rq_conn (request_at sv a) \<noteq> ?c" using conn_okD(3) [OF inv_AD(4) [OF A] cl] by auto
    then show "(rq_request_id (request_at sv' a), a) \<in> set (sc_requests (conn_at sv' (rq_conn (request_at sv' a))))"
      using m by (simp add: proj)
  qed (use inv_AD(1-3,6) [OF A] in \<open>simp_all add: proj\<close>)
  moreover have "inv_B sv'"
  proof -
    have at: "?c \<notin> set (attached sv)" using B cl by (simp add: inv_B_def)
    have "{d. \<not> closed (((sv_conns sv)(?c := cn)) d)} = insert ?c {d. \<not> closed (conn_at sv d)}" using cn(4) by auto
    then show ?thesis using B at room by (simp add: inv_B_def proj)
  qed
  moreover have "inv_C W sv'" using C inv_C_cong [of sv' sv W] by (simp add: proj)
  ultimately show ?thesis by (simp add: sv_inv_def)
qed

lemma AttachConnection_good:
  assumes g: "good code {} {} K sv" and d: "drain_ok sv"
  shows "good code {} {} K (snd (AttachConnection configured scope created k sv)) \<and>
    drain_ok (snd (AttachConnection configured scope created k sv))"
proof (cases "stopped sv \<or> \<not> configured \<or> active_connections sv \<ge> max_connections (sv_options sv)")
  case True
  then show ?thesis using g d by (auto simp: AttachConnection_def)
next
  case False
  define cn where "cn = dead_conn\<lparr>sc_shard := k, caller_scope := scope, closed := False\<rparr>"
  define sv1 where "sv1 = (upd_conn (next_conn sv) cn sv)\<lparr>next_conn := next_conn sv + 1,
    active_connections := active_connections sv + 1, attached := attached sv @ [next_conn sv]\<rparr>"
  define sv2 where "sv2 = count_metric (\<lambda>m. m\<lparr>accepted_connections := accepted_connections m + 1\<rparr>) sv1"
  have eq: "snd (AttachConnection configured scope created k sv) = (if \<not> started sv2 then sv2 else if created
      then upd_conn (next_conn sv) (cn\<lparr>sc_writer := SW_Running\<rparr>) sv2 else ServerClose (next_conn sv) sv2)"
    using False by (simp add: AttachConnection_def Let_def cn_def sv1_def sv2_def)
  have q: "quiet_op sv sv1" by (simp add: quiet_op_def sv1_def upd_conn_def live_def)
  have inv: "sv_inv {} {} sv1"
    by (rule attach_conn_inv [OF goodD(1) [OF g] _ _ _ _ _ sv1_def]) (use False in \<open>simp_all add: cn_def dead_conn_def\<close>)
  have g2: "good code {} {} K sv2" using good_quiet [OF g q inv] by (simp add: sv2_def)
  have d2: "drain_ok sv2" using d by (simp add: sv2_def sv1_def drain_ok_def closes_ok_def upd_conn_def count_metric_def)
  have c: "conn_at sv2 (next_conn sv) = cn" by (simp add: sv2_def sv1_def upd_conn_def count_metric_def)
  have "good code {} {} K (upd_conn (next_conn sv) (cn\<lparr>sc_writer := SW_Running\<rparr>) sv2)"
    by (rule upd_conn_good [OF g2]) (simp_all add: c)
  then show ?thesis unfolding eq using g2 d2 ServerClose_good [OF g2] ServerClose_drain [OF d2] by simp
qed

lemma ServerBatch_bytes:
  "ServerBatch bs batch n = (batch', rest, n') \<Longrightarrow> n = sum_list (map length bs) \<Longrightarrow>
     n' = sum_list (map length rest) \<and> n' \<le> n \<and> batch @ concat bs = batch' @ concat rest"
  by (induction bs batch n rule: ServerBatch.induct) (auto split: if_splits)

lemma ServerWriterRound_good:
  assumes g: "good code {} {} K sv"
  shows "good code {} {} K (ServerWriterRound c sv)"
proof -
  let ?cn = "conn_at sv c"
  note ok = conn_okD [OF sv_inv_conn [OF goodD(1) [OF g], of c]]
  consider "closed ?cn" | "\<not> closed ?cn" "sc_outbound ?cn = []" | "\<not> closed ?cn" "sc_outbound ?cn \<noteq> []" by blast
  then show ?thesis
  proof cases
    case 1
    then show ?thesis using upd_conn_good [OF g] ok by (simp add: ServerWriterRound_def Let_def)
  next
    case 2
    then show ?thesis using upd_conn_good [OF g] ok by (simp add: ServerWriterRound_def Let_def)
  next
    case 3
    obtain batch rest n where b: "ServerBatch (sc_outbound ?cn) [] (sc_outbound_bytes ?cn) = (batch, rest, n)" by (metis prod_cases3)
    from ServerBatch_bytes [OF b ok(5)] have n: "n = sum_list (map length rest)" "n \<le> sc_outbound_bytes ?cn" by simp_all
    have "sv_inv {} {} (upd_conn c (?cn\<lparr>sc_outbound := rest, sc_outbound_bytes := n, sc_writer := SW_Writing batch\<rparr>) sv)"
      by (rule upd_conn_inv [OF goodD(1) [OF g]]) (use n ok(6) 3 in simp_all)
    from good_quiet [OF g quiet_simple(1) this] show ?thesis using 3 b by (simp add: ServerWriterRound_def Let_def)
  qed
qed

lemma ServerWritten_good:
  assumes g: "good code {} {} K sv"
  shows "good code {} {} K (ServerWritten ok c sv)"
proof -
  have 1: "good code {} {} K (upd_conn c ((conn_at sv' c)\<lparr>sc_writer := w\<rparr>) sv')"
    if "good code {} {} K sv'" "w \<noteq> SW_Waiting" for sv' w
    by (rule upd_conn_good [OF that(1)]) (use that(2) in simp_all)
  show ?thesis using 1 [OF g, of SW_Running] 1 [OF ServerClose_good [OF g], of SW_None c]
    by (simp add: ServerWritten_def MaybeCloseAfterDrain_good)
qed

lemma ServerWritten_drain: "drain_ok sv \<Longrightarrow> drain_ok (ServerWritten ok c sv)"
  by (simp add: ServerWritten_def MaybeCloseAfterDrain_drain ServerClose_drain)

lemma ServerWriterRound_drain: "drain_ok sv \<Longrightarrow> drain_ok (ServerWriterRound c sv)"
  by (simp add: ServerWriterRound_def Let_def split: prod.split)

lemma decoder_good: "good code {} {} K sv \<Longrightarrow> good code {} {} K (upd_conn c ((conn_at sv c)\<lparr>sc_decoder := d\<rparr>) sv)"
  by (erule upd_conn_good) simp_all

lemma reader_good:
  assumes "good code {} {} K sv"
  shows "good code {} {} K (snd (ServerReadPrepare c sv))" "good code {} {} K (ServerReadDone off c received sv)"
    "good code {} {} K (snd (ServerReadFrame code arrival now submitted c sv))"
  using decoder_good [OF assms] ServerClose_good OnFrame_good
  by (auto simp: ServerReadPrepare_def ServerReadDone_def ServerReadFrame_def Let_def
      split: prod.split option.split DecodeStatus.split)

lemma reader_drain:
  assumes "drain_ok sv"
  shows "drain_ok (snd (ServerReadPrepare c sv))" "drain_ok (ServerReadDone off c received sv)"
    "drain_ok (snd (ServerReadFrame code arrival now submitted c sv))"
  using assms ServerClose_drain OnFrame_drain
  by (auto simp: ServerReadPrepare_def ServerReadDone_def ServerReadFrame_def Let_def
      split: prod.split option.split DecodeStatus.split)

lemma ConnBeginDrain_good: "good code {} {} K sv \<Longrightarrow> good code {} {} K (ConnBeginDrain c sv)"
  unfolding ConnBeginDrain_def by (rule MaybeCloseAfterDrain_good, erule upd_conn_good) simp_all

lemma DrainShard_good: "good code {} {} K sv \<Longrightarrow> good code {} {} K (DrainShard k sv)"
  unfolding DrainShard_def by (rule fold_inv [of "good code {} {} K"]) (auto intro: ConnBeginDrain_good)

lemma flags_good: "good code {} {} K sv \<Longrightarrow> good code {} {} K (sv\<lparr>sv_accepting := False, listening := False\<rparr>)"
  by (rule good_op [of "{}" "sv\<lparr>sv_accepting := False\<rparr>"], simp, rule quiet_simple(14), rule good_op [of "{}" sv]) simp_all

lemma ServerBeginDrain_good:
  assumes g: "good code {} {} K sv"
  shows "good code {} {} K (ServerBeginDrain timeout sv)"
  using g flags_good [OF g] by (simp add: ServerBeginDrain_def Let_def StopNow_good DrainShard_good ServerMaybeFinishDrain_good)

lemma DrainShard_quiet: "quiet_op sv (DrainShard k sv)"
  unfolding DrainShard_def by (rule fold_quiet) (rule ConnBeginDrain_quiet)

lemma ServerBeginDrain_drain: "drain_ok sv \<Longrightarrow> drain_ok (ServerBeginDrain timeout sv)"
proof -
  assume d: "drain_ok sv"
  let ?sv = "sv\<lparr>sv_accepting := False, listening := False\<rparr>"
  have "closes_ok ?sv" using drain_closes [OF d] by (simp add: closes_ok_def)
  then have "closes_ok (DrainShard 0 ?sv)" by (rule quiet_closes [OF DrainShard_quiet])
  then show ?thesis using d by (simp add: ServerBeginDrain_def Let_def stopped_drain ServerMaybeFinishDrain_drain)
qed

lemma StartConnections_good:
  assumes "good code {} {} K sv" "StartConnections created cs sv = (ok, sv')"
  shows "good code {} {} K sv'"
  using assms
proof (induction created cs sv rule: StartConnections.induct)
  case (2 created c cs sv)
  have "good code {} {} K (upd_conn c ((conn_at sv c)\<lparr>sc_writer := SW_Running\<rparr>) sv)" by (rule upd_conn_good [OF 2(2)]) simp_all
  with 2 ServerClose_good [OF 2(2)] show ?case by (auto split: if_splits)
qed simp

lemma StartConnections_drain: "drain_ok sv \<Longrightarrow> StartConnections created cs sv = (ok, sv') \<Longrightarrow> drain_ok sv'"
  by (induction created cs sv rule: StartConnections.induct) (auto simp: ServerClose_drain split: if_splits)

lemma ServerStart_good:
  assumes g: "good code {} {} K sv" and d: "drain_ok sv" and st: "ServerStart shards_ok created registered sv = (ok, sv')"
  shows "good code {} {} K sv' \<and> drain_ok sv'"
proof -
  let ?sv = "sv\<lparr>started := True\<rparr>"
  have g1: "good code {} {} K ?sv" by (rule good_op [OF _ _ g]) simp_all
  obtain b sv2 where s: "StartConnections created (filter (\<lambda>c. sc_shard (conn_at ?sv c) = 0) (attached ?sv)) ?sv = (b, sv2)" by fastforce
  have "good code {} {} K sv2" "drain_ok sv2"
    using StartConnections_good [OF g1 s] StartConnections_drain [OF _ s] d by simp_all
  then show ?thesis using st s g d
    by (auto simp: ServerStart_def Let_def StopNow_good stopped_drain split: if_splits bool.splits)
qed

section \<open>Every step keeps the invariant\<close>

definition pending_jobs :: "ServerSys \<Rightarrow> nat set" where
  "pending_jobs s = fst ` set (running s) \<union> fst ` set (completions s)"

definition server_inv :: "ServerCode \<Rightarrow> ServerSys \<Rightarrow> bool" where
  "server_inv code s \<longleftrightarrow> good code {} {} (pending_jobs s) (server s) \<and> drain_ok (server s)"

lemma server_invD: "server_inv code s \<Longrightarrow> good code {} {} (pending_jobs s) (server s)" "server_inv code s \<Longrightarrow> drain_ok (server s)"
  by (simp_all add: server_inv_def)

lemma server_only:
  "good code {} {} (pending_jobs s) sv \<Longrightarrow> drain_ok sv \<Longrightarrow> server_inv code (s\<lparr>server := sv\<rparr>)"
  by (simp add: server_inv_def pending_jobs_def)

lemma attach_step:
  assumes "server_inv code s"
  shows "server_inv code (s\<lparr>server := AttachAccepted configured scope created k (server s)\<rparr>)"
  using AttachConnection_good [OF server_invD [OF assms], of configured scope created k]
  by (intro server_only) (auto simp: AttachAccepted_def split: prod.split bool.split)

lemma executors_step:
  assumes inv: "server_inv code s"
    and kept: "(e1 = None) = (executor (server s) = None)" "(e2 = None) = (io_executor (server s) = None)"
    and jobs: "\<not> stopped (server s) \<Longrightarrow> pending_jobs s \<union> exec_jobs (server s) \<subseteq>
        pending_jobs s' \<union> exec_jobs ((server s)\<lparr>executor := e1, io_executor := e2\<rparr>)"
      "\<not> stopped (server s) \<Longrightarrow> pending_jobs s' \<union> exec_jobs ((server s)\<lparr>executor := e1, io_executor := e2\<rparr>) \<subseteq>
        pending_jobs s \<union> exec_jobs (server s)"
    and workers: "\<And>e w. \<not> stopped (server s) \<Longrightarrow> e2 = Some e \<Longrightarrow> w \<in> set (workers e) \<Longrightarrow> \<not> w_stopping w"
    and s': "server s' = (server s)\<lparr>executor := e1, io_executor := e2\<rparr>"
  shows "server_inv code s'"
proof -
  have "good code {} {} (pending_jobs s') ((server s)\<lparr>executor := e1, io_executor := e2\<rparr>)"
    by (rule executors_good [OF server_invD(1) [OF inv] kept _ _ workers]) (use jobs in blast)+
  moreover have "drain_ok ((server s)\<lparr>executor := e1, io_executor := e2\<rparr>)" using server_invD(2) [OF inv] by simp
  ultimately show ?thesis by (simp add: server_inv_def s')
qed

lemma workers_not_stopping:
  assumes "server_inv code s" "\<not> stopped (server s)" "io_executor (server s) = Some e" "w \<in> set (workers e)"
  shows "\<not> w_stopping w"
  using goodD(3) [OF server_invD(1) [OF assms(1)]] assms(2-4) by (simp add: workers_run_def)

text \<open>A job moves from the queue of the pool to the running handlers or to the results.\<close>

lemma pool_step:
  assumes inv: "server_inv code s" and e: "executor (server s) = Some e" and take: "PoolTake e = (PoolRun (a, request), e')"
    and s': "server s' = (server s)\<lparr>executor := Some e'\<rparr>" "pending_jobs s' = insert a (pending_jobs s)"
  shows "server_inv code s'"
proof -
  have tasks: "fst ` set (pool_tasks e) = insert a (fst ` set (pool_tasks e'))"
    using take by (auto simp: PoolTake_def split: list.splits if_splits)
  show ?thesis
  proof (rule executors_step [OF inv])
    show "server s' = (server s)\<lparr>executor := Some e', io_executor := io_executor (server s)\<rparr>" using s'(1) by simp
  qed (use e tasks s' workers_not_stopping [OF inv] in \<open>auto simp: exec_jobs_def\<close>)
qed

lemma set_remove1_insert: "x \<in> set xs \<Longrightarrow> insert x (set (remove1 x xs)) = set xs"
  by (induction xs) auto

lemma pool_done_step:
  assumes inv: "server_inv code s" and r: "(a, request) \<in> set (running s)"
  shows "server_inv code (s\<lparr>running := remove1 (a, request) (running s), completions := completions s @ [(a, resp, cache)]\<rparr>)"
proof -
  have "insert a (fst ` set (remove1 (a, request) (running s))) = fst ` set (running s)"
    using set_remove1_insert [OF r] by (metis fst_conv image_insert)
  then have "pending_jobs (s\<lparr>running := remove1 (a, request) (running s), completions := completions s @ [(a, resp, cache)]\<rparr>) = pending_jobs s"
    by (auto simp: pending_jobs_def)
  then show ?thesis using inv by (simp add: server_inv_def)
qed

text \<open>The workers of the coroutine executor.\<close>

lemma worker_step:
  assumes inv: "server_inv code s" and e: "io_executor (server s) = Some e" and k: "k < length (workers e)"
    and w: "\<not> stopped (server s) \<Longrightarrow> worker_jobs (workers e ! k) = worker_jobs w \<union> A" "w_stopping w = w_stopping (workers e ! k)"
    and s': "server s' = (server s)\<lparr>io_executor := Some (set_worker k w e)\<rparr>" "pending_jobs s' = pending_jobs s \<union> A"
  shows "server_inv code s'"
proof (rule executors_step [OF inv])
  show "server s' = (server s)\<lparr>executor := executor (server s), io_executor := Some (set_worker k w e)\<rparr>" using s'(1) by simp
next
  note upd = workers_jobs_update [OF k]
  let ?S = "\<Union> (worker_jobs ` set (workers e))" and ?S' = "\<Union> (worker_jobs ` set (workers (set_worker k w e)))"
  assume ns: "\<not> stopped (server s)"
  have 1: "?S \<subseteq> ?S' \<union> A" "?S' \<subseteq> ?S" "A \<subseteq> ?S"
    using upd(1-3) [of w] upd(4) w(1) [OF ns] by (simp_all add: set_worker_def) blast+
  then show "pending_jobs s \<union> exec_jobs (server s) \<subseteq> pending_jobs s' \<union>
      exec_jobs ((server s)\<lparr>executor := executor (server s), io_executor := Some (set_worker k w e)\<rparr>)"
    using e s'(2) by (auto simp: exec_jobs_def)
  show "pending_jobs s' \<union> exec_jobs ((server s)\<lparr>executor := executor (server s), io_executor := Some (set_worker k w e)\<rparr>) \<subseteq>
      pending_jobs s \<union> exec_jobs (server s)"
    using 1 e s'(2) by (auto simp: exec_jobs_def)
next
  fix f x assume ns: "\<not> stopped (server s)" and f: "Some (set_worker k w e) = Some f" and x: "x \<in> set (workers f)"
  then have "x \<in> insert w (set (workers e))" using set_update_subset_insert [of "workers e" k w] by (auto simp: set_worker_def)
  moreover have "\<not> w_stopping (workers e ! k)" by (rule workers_not_stopping [OF inv ns e nth_mem [OF k]])
  ultimately show "\<not> w_stopping x" using workers_not_stopping [OF inv ns e] w(2) by auto
qed (use e in simp_all)

lemma io_start_step:
  assumes inv: "server_inv code s" and e: "io_executor (server s) = Some e" and k: "k < length (workers e)"
    and w: "WorkerStart (workers e ! k) = (job, w)"
  shows "server_inv code (s\<lparr>server := (server s)\<lparr>io_executor := Some (set_worker k w e)\<rparr>\<rparr>)"
proof (rule worker_step [OF inv e k, where A = "{}"])
  assume "\<not> stopped (server s)"
  then have "\<not> w_stopping (workers e ! k)" using workers_not_stopping [OF inv _ e nth_mem [OF k]] by blast
  then show "worker_jobs (workers e ! k) = worker_jobs w \<union> {}"
    using w by (auto simp: WorkerStart_def worker_jobs_def split: list.splits)
qed (use w in \<open>auto simp: WorkerStart_def pending_jobs_def split: list.splits if_splits\<close>)

lemma io_done_step:
  assumes inv: "server_inv code s" and e: "io_executor (server s) = Some e" and k: "k < length (workers e)"
    and job: "(a, request) \<in> set (w_running (workers e ! k))"
  shows "server_inv code (s\<lparr>server := (server s)\<lparr>io_executor := Some (set_worker k (WorkerFinish (a, request) (workers e ! k)) e)\<rparr>,
    completions := completions s @ [(a, resp, cache)]\<rparr>)"
proof (rule worker_step [OF inv e k, where A = "{a}"])
  have "insert a (fst ` set (remove1 (a, request) (w_running (workers e ! k)))) = fst ` set (w_running (workers e ! k))"
    using set_remove1_insert [OF job] by (metis fst_conv image_insert)
  then show "worker_jobs (workers e ! k) = worker_jobs (WorkerFinish (a, request) (workers e ! k)) \<union> {a}"
    by (simp add: worker_jobs_def WorkerFinish_def image_Un) blast
qed (auto simp: WorkerFinish_def pending_jobs_def)

text \<open>A result leaves the posted ones as it ends its request and the ones with the same key.\<close>

lemma completion_step:
  assumes inv: "server_inv code s" and c: "completions s = xs @ (a, resp, cache) # ys"
  shows "server_inv code (s\<lparr>server := OnWorkerCompletion now a resp cache (server s), completions := xs @ ys\<rparr>)"
proof -
  let ?sv = "server s"
  let ?s = "s\<lparr>server := OnWorkerCompletion now a resp cache ?sv, completions := xs @ ys\<rparr>"
  note g = server_invD(1) [OF inv]
  have K: "pending_jobs s = insert a (pending_jobs ?s)" by (auto simp: pending_jobs_def c)
  have "served (peers ?sv a) (pending_jobs ?s) ?sv"
  proof (rule servedI)
    fix x assume "\<not> stopped ?sv" "\<not> crashed ?sv" "x \<in> live ?sv" and x: "x \<notin> peers ?sv a"
    then have "has_answer (pending_jobs s) ?sv x" using servedD [OF goodD(5) [OF g]] by blast
    then show "has_answer (pending_jobs ?s) ?sv x" unfolding K using x by (auto simp: has_answer_def peers_def split: if_splits)
  qed
  moreover have "pending_jobs_ok (pending_jobs ?s) ?sv" using goodD(8) [OF g] by (auto simp: pending_jobs_ok_def K)
  ultimately have "good code (peers ?sv a) {} (pending_jobs ?s) ?sv" using g by (simp add: good_def)
  from FinishRun_good [OF this] FinishRun_drain [OF server_invD(2) [OF inv]] show ?thesis
    by (simp add: server_inv_def OnWorkerCompletion_eq)
qed

lemma posted_finish_step:
  assumes inv: "server_inv code s" and p: "posted_finishes (server s) = xs @ (a, resp) # ys"
  shows "server_inv code (s\<lparr>server := Finish a now resp ((server s)\<lparr>posted_finishes := xs @ ys\<rparr>)\<rparr>)"
proof (rule server_only)
  let ?sv = "(server s)\<lparr>posted_finishes := xs @ ys\<rparr>" and ?K = "pending_jobs s"
  note g = server_invD(1) [OF inv]
  have 1: "sv_inv {} {a} ?sv" using unpost_inv [OF goodD(1) [OF g] p] by simp
  moreover have "posted_ok ?sv" using goodD(2) [OF g] p by (auto simp: posted_ok_def)
  moreover have "workers_run ?sv" "exec_ok code ?sv" "pending_jobs_ok ?K ?sv"
    using goodD(3,4,8) [OF g] by (simp_all add: workers_run_def exec_ok_def pending_jobs_ok_def exec_jobs_def)
  moreover have "served {a} ?K ?sv"
  proof (rule servedI)
    fix x assume "\<not> stopped ?sv" "\<not> crashed ?sv" "x \<in> live ?sv" and x: "x \<notin> {a}"
    then have "has_answer ?K (server s) x" using servedD [OF goodD(5) [OF g], of x] by (simp add: live_def)
    moreover have "exec_jobs ?sv = exec_jobs (server s)" by (simp add: exec_jobs_def)
    ultimately show "has_answer ?K ?sv x" using x p by (auto simp: has_answer_def split: if_splits)
  qed
  ultimately have "good code {a} {a} ?K ?sv" by (simp add: good_def)
  then show "good code {} {} ?K (Finish a now resp ?sv)" by (rule reject_good)
  show "drain_ok (Finish a now resp ?sv)" using Finish_drain server_invD(2) [OF inv] by simp
qed

lemma posted_close_step:
  assumes inv: "server_inv code s" and p: "posted_closes (server s) = xs @ k # ys"
  shows "server_inv code (s\<lparr>server := CloseShard k ((server s)\<lparr>posted_closes := xs @ ys\<rparr>)\<rparr>)"
proof (rule server_only)
  let ?sv = "(server s)\<lparr>posted_closes := xs @ ys\<rparr>"
  have st: "stopped (server s)" using server_invD(2) [OF inv] p by (simp add: drain_ok_def closes_ok_def)
  have "quiet_op (server s) ?sv" using st by (simp add: quiet_op_def live_def)
  then have "good code {} {} (pending_jobs s) ?sv" by (rule good_op [OF _ _ server_invD(1) [OF inv], rotated]) simp
  then show "good code {} {} (pending_jobs s) (CloseShard k ?sv)" by (rule CloseShard_good)
  show "drain_ok (CloseShard k ?sv)" by (rule stopped_drain) (use quietD(7) [OF CloseShard_quiet, of ?sv k] st in simp)
qed

lemma check_step:
  assumes inv: "server_inv code s"
  shows "server_inv code (s\<lparr>server := ServerMaybeFinishDrain 0 ((server s)\<lparr>submitted_checks := submitted_checks (server s) - 1\<rparr>)\<rparr>)"
proof (rule server_only)
  let ?sv = "(server s)\<lparr>submitted_checks := submitted_checks (server s) - 1\<rparr>"
  have "good code {} {} (pending_jobs s) ?sv" by (rule good_op [OF _ _ server_invD(1) [OF inv]]) simp_all
  then show "good code {} {} (pending_jobs s) (ServerMaybeFinishDrain 0 ?sv)" by (rule ServerMaybeFinishDrain_good)
  have "closes_ok ?sv" using drain_closes [OF server_invD(2) [OF inv]] by (simp add: closes_ok_def)
  then show "drain_ok (ServerMaybeFinishDrain 0 ?sv)" by (rule ServerMaybeFinishDrain_drain)
qed

theorem server_step_inv:
  assumes "server_step code s s'" "server_inv code s"
  shows "server_inv code s'"
  using assms(1)
proof cases
  case (s_attach k configured scope created)
  then show ?thesis using attach_step [OF assms(2)] by simp
next
  case (s_read_prepare c off sv)
  then show ?thesis using reader_good(1) [OF server_invD(1) [OF assms(2)], of c] reader_drain(1) [OF server_invD(2) [OF assms(2)], of c]
    by (auto intro!: server_only)
next
  case (s_read_done c off received)
  then show ?thesis using reader_good(2) [OF server_invD(1) [OF assms(2)]] reader_drain(2) [OF server_invD(2) [OF assms(2)]]
    by (auto intro!: server_only)
next
  case (s_read_frame c arrival now submitted again sv)
  then show ?thesis using reader_good(3) [OF server_invD(1) [OF assms(2)], of arrival now submitted c]
      reader_drain(3) [OF server_invD(2) [OF assms(2)], of code arrival now submitted c]
    by (auto intro!: server_only)
next
  case (s_frame c arrival now submitted f)
  then show ?thesis using server_invD [OF assms(2)] by (auto intro!: server_only OnFrame_good OnFrame_drain)
next
  case (s_writer c)
  then show ?thesis using server_invD [OF assms(2)] by (auto intro!: server_only ServerWriterRound_good ServerWriterRound_drain)
next
  case (s_written c batch ok)
  then show ?thesis using server_invD [OF assms(2)] by (auto intro!: server_only ServerWritten_good ServerWritten_drain)
next
  case (s_pool_start e a request e')
  then show ?thesis using pool_step [OF assms(2) s_pool_start(2,3)] by (simp add: pending_jobs_def)
next
  case (s_pool_cancelled e a request e' resp cache)
  then show ?thesis using pool_step [OF assms(2) s_pool_cancelled(2,3)] by (simp add: pending_jobs_def)
next
  case (s_pool_done a request resp cache)
  then show ?thesis using pool_done_step [OF assms(2) s_pool_done(2)] by simp
next
  case (s_io_start e k job w)
  then show ?thesis using io_start_step [OF assms(2) s_io_start(2-4)] by simp
next
  case (s_io_done e k a request was_cancelled resp cache)
  then show ?thesis using io_done_step [OF assms(2) s_io_done(2-4)] by simp
next
  case (s_completion xs a resp cache ys now)
  then show ?thesis using completion_step [OF assms(2) s_completion(2)] by simp
next
  case (s_posted_finish xs a resp ys now)
  then show ?thesis using posted_finish_step [OF assms(2) s_posted_finish(2)] by simp
next
  case (s_posted_close xs k ys)
  then show ?thesis using posted_close_step [OF assms(2) s_posted_close(2)] by simp
next
  case s_check
  then show ?thesis using check_step [OF assms(2)] by simp
next
  case (s_drain timeout)
  then show ?thesis using server_invD [OF assms(2)] by (auto intro!: server_only ServerBeginDrain_good ServerBeginDrain_drain)
next
  case (s_drain_shard k)
  then show ?thesis using server_invD [OF assms(2)] by (auto intro!: server_only DrainShard_good DrainShard_drain)
next
  case s_stop
  then show ?thesis using server_invD [OF assms(2)] by (auto intro!: server_only StopNow_good stopped_drain)
next
  case (s_start shards_ok created registered ok sv)
  then show ?thesis using ServerStart_good [OF server_invD [OF assms(2)] s_start(2)] by (auto intro!: server_only)
qed

lemma Initialize_proj:
  assumes "Initialize opts code = Some sv"
  shows "sv_options sv = opts" "inflight_count sv = 0" "active_connections sv = 0" "sv_conns sv = (\<lambda>_. dead_conn)"
    "sv_requests sv = (\<lambda>_. dead_request)" "attached sv = []" "idempotency sv = []" "posted_finishes sv = []" "sv_accepting sv"
    "posted_closes sv = []" "\<not> crashed sv" "exec_ok code sv" "workers_run sv" "exec_jobs sv = {}"
proof -
  let ?pool = "execution_mode_selector code \<noteq> None \<or> execution_mode opts = CPU_POOL"
    and ?io = "execution_mode_selector code \<noteq> None \<or> execution_mode opts = IO_COROUTINE"
    and ?e = "new_executor (worker_threads opts) (max_worker_queue opts) :: ServerJob BoundedExecutor option"
    and ?w = "new_io_executor (io_worker_threads opts) (max_worker_queue opts) :: ServerJob IoExecutor option"
  from assms show p: "sv_options sv = opts" "inflight_count sv = 0" "active_connections sv = 0" "sv_conns sv = (\<lambda>_. dead_conn)"
    "sv_requests sv = (\<lambda>_. dead_request)" "attached sv = []" "idempotency sv = []" "posted_finishes sv = []" "sv_accepting sv"
    "posted_closes sv = []" "\<not> crashed sv"
    unfolding Initialize_def Let_def by (simp_all split: if_split_asm) (auto)
  have e: "executor sv = (if ?pool then ?e else None)" "io_executor sv = (if ?io then ?w else None)"
    and ne: "?pool \<longrightarrow> ?e \<noteq> None" "?io \<longrightarrow> ?w \<noteq> None"
    using assms unfolding Initialize_def Let_def by (simp_all split: if_split_asm) (auto)
  from ne show "exec_ok code sv" by (simp add: exec_ok_def p e)
  have "f = \<lparr>max_queue = max_worker_queue opts, pool_tasks = [], pool_stopping = False\<rparr>" if "executor sv = Some f" for f
    using that by (auto simp: e new_executor_def split: if_splits)
  moreover have "worker_jobs w = {} \<and> \<not> w_stopping w" if "io_executor sv = Some f" "w \<in> set (workers f)" for f w
    using that by (auto simp: e new_io_executor_def new_worker_def worker_jobs_def split: if_splits)
  ultimately show "workers_run sv" "exec_jobs sv = {}" by (auto simp: workers_run_def exec_jobs_def split: option.splits)
qed

lemma server_start_inv:
  assumes "server_start opts code s"
  shows "server_inv code s \<and> sv_options (server s) = opts"
proof -
  let ?sv = "server s"
  have init: "Initialize opts code = Some ?sv" and K: "pending_jobs s = {}"
    using assms by (simp_all add: server_start_def pending_jobs_def)
  note proj = Initialize_proj [OF init]
  have live: "live ?sv = {}" by (simp add: live_def proj dead_request_def)
  have "conn_ok {} ?sv c dead_conn" for c by (simp add: conn_ok_def dead_conn_def)
  then have "sv_inv {} {} ?sv"
    by (simp add: sv_inv_def inv_A_def inv_B_def inv_C_def live proj) (simp add: dead_conn_def)
  moreover have "posted_ok ?sv" "drain_ok ?sv" "served {} {} ?sv"
    by (simp_all add: posted_ok_def proj drain_ok_def closes_ok_def served_def live)
  ultimately show ?thesis by (simp add: server_inv_def good_def K pending_jobs_ok_def proj)
qed

interpretation server_system: invariant_system "server_start opts code" "server_step code" "server_inv code" for opts code
  by unfold_locales (auto intro: server_step_inv simp: server_start_inv)

end
