(* ===== verification/ServerRuns.thy ===== *)
theory ServerRuns
  imports ServerSystem
begin

text \<open>
  What follows from the invariant for every state the server can reach, and sample runs of a server with one
  connection, step by step, on which the properties are exercised.
\<close>

section \<open>The options are fixed\<close>

lemma FinishOnOwner_options: "sv_options (FinishOnOwner k now resp ws sv) = sv_options sv"
  using FinishOnOwner_quiet [of sv k now resp ws] quietD(1) by fastforce

lemma FinishIdempotent_options: "sv_options (FinishIdempotent k now key resp cache sv) = sv_options sv"
  by (simp add: FinishIdempotent_def FinishOnOwner_options Let_def split: option.split)

lemmas quiet_options [simp] = Finish_quiet [THEN quietD(1)] ServerClose_quiet [THEN quietD(1)] QueueFrame_quiet [THEN quietD(1)]
  ServerMaybeFinishDrain_quiet [THEN quietD(1)] StopNow_quiet [THEN quietD(1)] MaybeCloseAfterDrain_quiet [THEN quietD(1)]
  DrainShard_quiet [THEN quietD(1)] CloseShard_quiet [THEN quietD(1)]

lemma options_simple [simp]:
  "sv_options (upd_conn c cn sv) = sv_options sv" "sv_options (upd_request a rq sv) = sv_options sv"
  by (simp_all add: upd_conn_def upd_request_def)

lemma FinishRun_options [simp]: "sv_options (FinishRun now a resp cache sv) = sv_options sv"
  by (simp add: FinishRun_def FinishIdempotent_options)

lemma RunRequest_options [simp]: "sv_options (RunRequest code now submitted mode a request sv) = sv_options sv"
  by (simp add: RunRequest_def RefuseRun_def split: RpcExecutionMode.split option.split prod.split bool.split)

lemma AdmitIdempotent_options: "AdmitIdempotent a bdy sv = (adm, sv') \<Longrightarrow> sv_options sv' = sv_options sv"
  by (auto simp: AdmitIdempotent_def Let_def split: option.splits if_splits)

lemma AddRequest_options: "AddRequest rq sv = (ok, sv') \<Longrightarrow> sv_options sv' = sv_options sv"
  by (erule AddRequest_cases) simp_all

lemma OnRequest_options [simp]: "sv_options (OnRequest code now submitted mode c request sv) = sv_options sv"
  by (auto simp: OnRequest_def Let_def reject_with_def dest!: AdmitIdempotent_options AddRequest_options
      elim!: AcquireInflight_cases split: prod.split bool.split Admission.split)

lemma OnInlineView_options [simp]: "sv_options (OnInlineView h after c request sv) = sv_options sv"
  by (auto simp: OnInlineView_def Let_def reject_with_def elim!: AcquireInflight_cases split: prod.split bool.split)

lemma OnFrame_options [simp]: "sv_options (OnFrame code arrival now submitted c f sv) = sv_options sv"
  by (auto simp: OnFrame_def ServerCancel_def reject_with_def Let_def
      split: option.split sum.split list.split RpcExecutionMode.split)

lemma StartConnections_options: "StartConnections created cs sv = (ok, sv') \<Longrightarrow> sv_options sv' = sv_options sv"
  by (induction created cs sv rule: StartConnections.induct) (auto split: if_splits)

lemma AttachConnection_options: "sv_options (snd (AttachConnection configured scope created k sv)) = sv_options sv"
  by (simp add: AttachConnection_def Let_def)

lemma server_step_options: "server_step code s s' \<Longrightarrow> sv_options (server s') = sv_options (server s)"
proof (induction rule: server_step.induct)
  case (s_attach k s configured scope created)
  then show ?case using AttachConnection_options [of configured scope created k "server s"]
    by (auto simp: AttachAccepted_def split: prod.split bool.split)
qed (auto simp: ServerReadPrepare_def ServerReadDone_def ServerReadFrame_def ServerWriterRound_def ServerWritten_def
    OnWorkerCompletion_eq ServerBeginDrain_def ServerStart_def Let_def dest: StartConnections_options
    split: prod.splits option.splits DecodeStatus.splits if_splits bool.splits)

section \<open>Reachable states\<close>

abbreviation server_reach :: "RpcServerOptions \<Rightarrow> ServerCode \<Rightarrow> ServerSys \<Rightarrow> bool" where
  "server_reach opts code \<equiv> reach (server_start opts code) (server_step code)"

lemma reach_options: "server_reach opts code s \<Longrightarrow> sv_options (server s) = opts"
  by (induction rule: reach.induct) (auto simp: server_step_options dest: server_start_inv)

lemma reach_server_inv:
  assumes "server_reach opts code s"
  shows "sv_inv {} {} (server s)" "drain_ok (server s)" "served {} (pending_jobs s) (server s)" "exec_ok code (server s)"
  using server_system.reach_inv [OF assms] by (simp_all add: server_inv_def good_def)

text \<open>A server to start with: no selectors, and a handler that sends the body back.\<close>

definition echo_response :: "string \<Rightarrow> Frame" where
  "echo_response b = empty_frame\<lparr>body := b\<rparr>"

definition echo_code :: ServerCode where
  "echo_code = \<lparr>handler = (\<lambda>request. Some (echo_response (body (sr_frame request)))), execution_mode_selector = None,
     execution_mode_view_selector = None, inline_view_handler = None\<rparr>"

definition no_server_metrics :: RpcServerMetrics where
  "no_server_metrics = \<lparr>accepted_connections = 0, rejected_connections = 0, requests_received = 0, requests_rejected = 0,
     requests_completed = 0, requests_timed_out = 0, duplicate_requests = 0, cancellations = 0\<rparr>"

lemma no_metrics_simps [simp]:
  "accepted_connections no_server_metrics = 0" "requests_received no_server_metrics = 0" "requests_completed no_server_metrics = 0"
  "cancellations no_server_metrics = 0" "requests_rejected no_server_metrics = 0"
  by (simp_all add: no_server_metrics_def)

lemma default_options_simps [simp]:
  "max_connections default_server_options = 1024" "max_inflight_per_connection default_server_options = 256"
  "max_inflight_requests default_server_options = 8192" "max_outbound_bytes_per_connection default_server_options = 16777216"
  "network_threads default_server_options = 1" "max_idempotency_entries default_server_options = 8192"
  "execution_mode default_server_options = CPU_POOL"
  by (simp_all add: default_server_options_def)

definition echo_server :: RpcServer where
  "echo_server = \<lparr>sv_options = default_server_options, started = False, sv_accepting = True, stopped = False, listening = False,
     inflight_count = 0, active_connections = 0, sv_conns = (\<lambda>_. dead_conn), sv_requests = (\<lambda>_. dead_request),
     next_conn = 0, next_request = 0, attached = [], idempotency = [], completed_idempotency_keys = [],
     executor = Some \<lparr>max_queue = 4096, pool_tasks = [], pool_stopping = False\<rparr>, io_executor = None,
     sv_metrics = no_server_metrics, next_network_shard = 0, posted_finishes = [], posted_closes = [], submitted_checks = 0,
     crashed = False\<rparr>"

definition sys_of :: "RpcServer \<Rightarrow> ServerSys" where
  "sys_of sv = \<lparr>server = sv, running = [], completions = []\<rparr>"

abbreviation echo_run :: "ServerSys \<Rightarrow> bool" where
  "echo_run \<equiv> server_reach default_server_options echo_code"

lemma run_init: "echo_run (sys_of echo_server)"
  by (rule reach.reach_init)
    (simp add: server_start_def sys_of_def Initialize_def Let_def echo_server_def echo_code_def default_server_options_def
      new_executor_def no_server_metrics_def)

text \<open>The server with one connection.\<close>

definition echo_conn :: ServerConnection where
  "echo_conn = dead_conn\<lparr>sc_shard := 0, caller_scope := ''peer'', closed := False, sc_writer := SW_Running\<rparr>"

definition one_conn :: RpcServer where
  "one_conn = echo_server\<lparr>started := True, sv_conns := (\<lambda>_. dead_conn)(0 := echo_conn), next_conn := 1,
     active_connections := 1, attached := [0], sv_metrics := no_server_metrics\<lparr>accepted_connections := 1\<rparr>\<rparr>"

lemma attach_one: "AttachConnection True ''peer'' True 0 (echo_server\<lparr>started := True\<rparr>) = (True, one_conn)"
  by (simp add: AttachConnection_def Let_def upd_conn_def count_metric_def echo_server_def one_conn_def echo_conn_def)

lemma run_one_conn: "echo_run (sys_of one_conn)"
proof -
  have r: "echo_run (sys_of (echo_server\<lparr>started := True\<rparr>))"
    by (rule reach_eq_step [OF run_init s_start [where shards_ok = True and created = "\<lambda>_. True" and registered = True and ok = True
          and sv = "echo_server\<lparr>started := True\<rparr>"]])
      (simp_all add: ServerStart_def echo_server_def sys_of_def)
  show ?thesis
    by (rule reach_eq_step [OF r], rule s_attach [where k = 0 and configured = True and scope = "''peer''" and created = True])
      (simp add: sys_of_def echo_server_def, simp, simp add: sys_of_def AttachAccepted_def attach_one)
qed

text \<open>A request with an idempotency key, and the states of a run with such requests.\<close>

definition ex_md :: RequestMetadata where
  "ex_md = \<lparr>service = ''s'', method_name = ''m'', idempotency_key = ''k'', application_metadata = [], timeout_ms = 0\<rparr>"

definition ex_frame :: "u64 \<Rightarrow> string \<Rightarrow> Frame" where
  "ex_frame rid b = \<lparr>header = \<lparr>flags = 0, message_type = REQUEST, request_id = rid\<rparr>, metadata = metadata_bytes ex_md, body = b\<rparr>"

definition ex_request :: "u64 \<Rightarrow> string \<Rightarrow> ServerRequest" where
  "ex_request rid b = \<lparr>sr_request_id = rid, sr_deadline_ms = kNoTimeout, sr_metadata = ex_md, sr_frame = ex_frame rid b\<rparr>"

definition ex_key :: string where
  "ex_key = BuildIdempotencyKey ''peer'' ''s'' ''m'' ''k''"

definition ex_state :: "u64 \<Rightarrow> string \<Rightarrow> RequestState" where
  "ex_state rid b = \<lparr>rq_conn = 0, rq_request_id = rid, rq_deadline_ms = kNoTimeout, rq_idempotency_key = ex_key,
     rq_fingerprint = BodyFingerprint b, rq_context = new_context kNoTimeout, rq_completed = False\<rparr>"

definition ex_record :: "nat \<Rightarrow> string \<Rightarrow> IdempotencyRecord" where
  "ex_record a b = \<lparr>pending = True, body_fingerprint = BodyFingerprint b, rec_body = b, rec_response = empty_frame, waiters = [a]\<rparr>"

definition run_conn :: "(u64 \<times> nat) list \<Rightarrow> Frame list \<Rightarrow> ServerConnection" where
  "run_conn reqs out = \<lparr>sc_shard = 0, caller_scope = ''peer'', sc_decoder = new_decoder default_limits, sc_requests = reqs,
     sc_outbound = map frame_bytes out, sc_outbound_bytes = sum_list (map (length \<circ> frame_bytes) out), sc_writer = SW_Running,
     draining = False, closed = False\<rparr>"

definition run_state :: "(u64 \<times> nat) list \<Rightarrow> Frame list \<Rightarrow> (nat \<Rightarrow> RequestState) \<Rightarrow> nat \<Rightarrow> nat \<Rightarrow> (string \<times> IdempotencyRecord) list \<Rightarrow>
    string list \<Rightarrow> ServerJob list \<Rightarrow> RpcServerMetrics \<Rightarrow> RpcServer" where
  "run_state reqs out rqs n k idem keys tasks m =
     one_conn\<lparr>sv_conns := (\<lambda>_. dead_conn)(0 := run_conn reqs out),
       sv_requests := rqs, next_request := n, inflight_count := k, idempotency := idem, completed_idempotency_keys := keys,
       executor := Some \<lparr>max_queue = 4096, pool_tasks = tasks, pool_stopping = False\<rparr>, sv_metrics := m\<rparr>"

lemma ex_key_nonempty [simp]: "ex_key \<noteq> []"
  by (simp add: ex_key_def BuildIdempotencyKey_def AppendKeyPart_def Let_def)

lemma run_conn_simps [simp]:
  "sc_requests (run_conn reqs out) = reqs" "sc_outbound (run_conn reqs out) = map frame_bytes out"
  "sc_outbound_bytes (run_conn reqs out) = sum_list (map (length \<circ> frame_bytes) out)" "\<not> closed (run_conn reqs out)"
  "\<not> draining (run_conn reqs out)" "sc_shard (run_conn reqs out) = 0" "caller_scope (run_conn reqs out) = ''peer''"
  "sc_writer (run_conn reqs out) = SW_Running" "(run_conn reqs out)\<lparr>sc_requests := reqs'\<rparr> = run_conn reqs' out"
  by (simp_all add: run_conn_def)

lemma run_state_simps [simp]:
  "sv_options (run_state reqs out rqs n k idem keys tasks m) = default_server_options"
  "sv_accepting (run_state reqs out rqs n k idem keys tasks m)" "\<not> stopped (run_state reqs out rqs n k idem keys tasks m)"
  "inflight_count (run_state reqs out rqs n k idem keys tasks m) = k"
  "next_request (run_state reqs out rqs n k idem keys tasks m) = n"
  "sv_requests (run_state reqs out rqs n k idem keys tasks m) = rqs"
  "idempotency (run_state reqs out rqs n k idem keys tasks m) = idem"
  "completed_idempotency_keys (run_state reqs out rqs n k idem keys tasks m) = keys"
  "sv_metrics (run_state reqs out rqs n k idem keys tasks m) = m"
  "executor (run_state reqs out rqs n k idem keys tasks m) = Some \<lparr>max_queue = 4096, pool_tasks = tasks, pool_stopping = False\<rparr>"
  "sv_conns (run_state reqs out rqs n k idem keys tasks m) = (\<lambda>_. dead_conn)(0 := run_conn reqs out)"
  by (simp_all add: run_state_def one_conn_def echo_server_def)

lemma run_state_upd [simp]:
  "(run_state reqs out rqs n k idem keys tasks m)\<lparr>inflight_count := k'\<rparr> = run_state reqs out rqs n k' idem keys tasks m"
  "(run_state reqs out rqs n k idem keys tasks m)\<lparr>next_request := n'\<rparr> = run_state reqs out rqs n' k idem keys tasks m"
  "(run_state reqs out rqs n k idem keys tasks m)\<lparr>idempotency := idem'\<rparr> = run_state reqs out rqs n k idem' keys tasks m"
  "(run_state reqs out rqs n k idem keys tasks m)\<lparr>completed_idempotency_keys := keys'\<rparr> = run_state reqs out rqs n k idem keys' tasks m"
  "count_metric f (run_state reqs out rqs n k idem keys tasks m) = run_state reqs out rqs n k idem keys tasks (f m)"
  "upd_request a rq (run_state reqs out rqs n k idem keys tasks m) = run_state reqs out (rqs(a := rq)) n k idem keys tasks m"
  "(run_state reqs out rqs n k idem keys tasks m)\<lparr>executor := Some \<lparr>max_queue = 4096, pool_tasks = tasks', pool_stopping = False\<rparr>\<rparr> =
     run_state reqs out rqs n k idem keys tasks' m"
  "upd_conn 0 (run_conn reqs' out') (run_state reqs out rqs n k idem keys tasks m) = run_state reqs' out' rqs n k idem keys tasks m"
  by (simp_all add: run_state_def one_conn_def echo_server_def count_metric_def upd_request_def upd_conn_def)

lemma one_conn_state: "one_conn = run_state [] [] (\<lambda>_. dead_request) 0 0 [] [] [] (no_server_metrics\<lparr>accepted_connections := 1\<rparr>)"
  by (simp add: run_state_def run_conn_def one_conn_def echo_server_def echo_conn_def dead_conn_def)

lemma decode_ex [simp]: "DecodeRequestMetadataView (metadata_bytes ex_md) = Inr ex_md"
  using Decode_bytes [of ex_md "[]"] by (simp add: metadata_fits_def ex_md_def kMaxFieldSize_def)

lemma ex_frame_simps [simp]:
  "header (ex_frame rid b) = \<lparr>flags = 0, message_type = REQUEST, request_id = rid\<rparr>" "metadata (ex_frame rid b) = metadata_bytes ex_md"
  "body (ex_frame rid b) = b" "idempotency_key ex_md = ''k''" "timeout_ms ex_md = 0" "service ex_md = ''s''" "method_name ex_md = ''m''"
  by (simp_all add: ex_frame_def ex_md_def)

lemma echo_code_simps [simp]:
  "mode_of echo_code md (run_state reqs out rqs n k idem keys tasks m) = CPU_POOL" "inline_view_handler echo_code = None"
  "handler echo_code request = Some (echo_response (body (sr_frame request)))"
  by (simp_all add: mode_of_def echo_code_def)

lemma new_request_ex [simp]: "new_request 0 ''peer'' (ex_request rid b) = ex_state rid b"
  by (simp add: new_request_def ex_request_def ex_state_def ex_key_def Let_def)

lemma ex_state_simps [simp]:
  "rq_conn (ex_state rid b) = 0" "rq_request_id (ex_state rid b) = rid" "rq_deadline_ms (ex_state rid b) = kNoTimeout"
  "rq_idempotency_key (ex_state rid b) = ex_key" "rq_fingerprint (ex_state rid b) = BodyFingerprint b" "\<not> rq_completed (ex_state rid b)"
  by (simp_all add: ex_state_def)

lemma ex_record_waiters [simp]: "waiters (ex_record a b) = [a]"
  by (simp add: ex_record_def)

lemma run_shard [simp]: "rq_conn (rqs a) = 0 \<Longrightarrow> shard_of (run_state reqs out rqs n k idem keys tasks m) a = 0"
  by (simp add: shard_of_def)

lemma request_run:
  "OnRequest echo_code now submitted CPU_POOL 0 (ex_request rid b) (run_state [] out rqs n 0 [] [] [] m) =
     run_state [(rid, n)] out (rqs(n := ex_state rid b)) (Suc n) (Suc 0) [(ex_key, ex_record n b)] [] [(n, ex_request rid b)] m"
proof -
  have sr: "sr_request_id (ex_request rid b) = rid" "sr_frame (ex_request rid b) = ex_frame rid b" by (simp_all add: ex_request_def)
  have acq: "AcquireInflight (run_state [] out rqs n 0 [] [] [] m) = (True, run_state [] out rqs n (Suc 0) [] [] [] m)"
    by (simp add: AcquireInflight_def)
  have add: "AddRequest (ex_state rid b) (run_state [] out rqs n (Suc 0) [] [] [] m) =
      (True, run_state [(rid, n)] out (rqs(n := ex_state rid b)) (Suc n) (Suc 0) [] [] [] m)"
    by (simp add: AddRequest_def emplace_def Let_def)
  let ?sv = "run_state [(rid, n)] out (rqs(n := ex_state rid b)) (Suc n) (Suc 0)"
  have adm: "AdmitIdempotent n b (?sv [] [] [] m) = (Run, ?sv [(ex_key, ex_record n b)] [] [] m)"
    by (simp add: AdmitIdempotent_def Prune_def emplace_def ex_record_def Let_def)
  have run: "RunRequest echo_code now submitted CPU_POOL n (ex_request rid b) (?sv [(ex_key, ex_record n b)] [] [] m) =
      ?sv [(ex_key, ex_record n b)] [] [(n, ex_request rid b)] m"
    by (simp add: RunRequest_def PoolTrySubmit_def)
  show ?thesis by (simp add: OnRequest_def Let_def sr acq add adm run)
qed

lemma frame_run:
  "OnFrame echo_code 0 now submitted 0 (ex_frame rid b) (run_state [] out rqs n 0 [] [] [] m) =
     run_state [(rid, n)] out (rqs(n := ex_state rid b)) (Suc n) (Suc 0) [(ex_key, ex_record n b)] [] [(n, ex_request rid b)]
       (m\<lparr>requests_received := requests_received m + 1\<rparr>)"
proof -
  have "AddDeadline 0 0 = kNoTimeout" by (simp add: AddDeadline_def)
  moreover have "\<lparr>sr_request_id = rid, sr_deadline_ms = kNoTimeout, sr_metadata = ex_md, sr_frame = ex_frame rid b\<rparr> = ex_request rid b"
    by (simp add: ex_request_def)
  ultimately show ?thesis by (simp add: OnFrame_def Let_def request_run) (simp add: message_types)
qed

text \<open>The end of a request with the given response.\<close>

lemma complete_run:
  assumes "rqs a = (ex_state rid b)\<lparr>rq_context := ctx\<rparr>" "AList.delete rid reqs = reqs'"
    and "frame_fits (stamp rid resp)" "sum_list (map (length \<circ> frame_bytes) out) + length (frame_bytes (stamp rid resp)) \<le> 16777216"
  shows "Finish a now resp (run_state reqs out rqs n (Suc k) idem keys tasks m) =
    run_state reqs' (out @ [stamp rid resp]) (rqs(a := (ex_state rid b)\<lparr>rq_context := ctx, rq_completed := True\<rparr>)) n k idem keys tasks
      (m\<lparr>requests_completed := requests_completed m + 1\<rparr>)"
proof -
  let ?sv = "run_state reqs' out (rqs(a := (ex_state rid b)\<lparr>rq_context := ctx, rq_completed := True\<rparr>)) n k idem keys tasks
      (m\<lparr>requests_completed := requests_completed m + 1\<rparr>)"
  have conn: "(run_conn reqs' out)\<lparr>sc_outbound_bytes := sum_list (map (length \<circ> frame_bytes) out) + length (frame_bytes (stamp rid resp)),
      sc_outbound := map frame_bytes out @ [frame_bytes (stamp rid resp)], sc_writer := SW_Running\<rparr> = run_conn reqs' (out @ [stamp rid resp])"
    by (simp add: run_conn_def)
  have q: "QueueFrame 0 (stamp rid resp) ?sv = (True, run_state reqs' (out @ [stamp rid resp])
      (rqs(a := (ex_state rid b)\<lparr>rq_context := ctx, rq_completed := True\<rparr>)) n k idem keys tasks
      (m\<lparr>requests_completed := requests_completed m + 1\<rparr>))"
    using assms(3,4) conn by (simp add: QueueFrame_def QueueEncoded_def Encode_frame_bytes Let_def)
  show ?thesis
    using assms(1,2) q by (simp add: Finish_def CompleteRequest_def MaybeCloseAfterDrain_def ServerMaybeFinishDrain_def Let_def)
qed

lemma fits_response:
  assumes "rid \<noteq> 0" "length b < 100" "metadata resp = []" "body resp = b"
  shows "frame_fits (stamp rid resp)" "length (frame_bytes (stamp rid resp)) = 32 + length b"
  using assms by (simp_all add: stamp_def frame_fits_def header_ok_def IsValidMessageType_def message_types frame_bytes_def)

text \<open>
  The run: a request \<open>A\<close> is taken by a worker and cancelled; a request \<open>B\<close> with the same key and another
  body arrives; then the worker is done with \<open>A\<close>.
\<close>

definition cancelled_A :: RequestState where
  "cancelled_A = (ex_state 1 ''A'')\<lparr>rq_context := (new_context kNoTimeout)\<lparr>ctx_cancelled := True\<rparr>, rq_completed := True\<rparr>"

abbreviation "cancel_answer \<equiv> stamp 1 (MakeStatusResponse 1 RPC_CANCELLED [])"

lemma cancel_answer_fits: "frame_fits cancel_answer" "length (frame_bytes cancel_answer) = 32"
  using fits_response [of 1 "[]" "MakeStatusResponse 1 RPC_CANCELLED []"] by (simp_all add: MakeStatusResponse_def SetResponseStatus_def)

lemma cancel_run:
  "OnFrame echo_code 0 now submitted 0 \<lparr>header = \<lparr>flags = 0, message_type = CANCEL, request_id = 1\<rparr>, metadata = [], body = []\<rparr>
     (run_state [(1, 0)] [] (rqs(0 := ex_state 1 ''A'')) n (Suc 0) [(ex_key, ex_record 0 ''A'')] [] [] m) =
   run_state [] [cancel_answer] (rqs(0 := cancelled_A)) n 0 [] [] []
     (m\<lparr>cancellations := cancellations m + 1, requests_completed := requests_completed m + 1\<rparr>)"
proof -
  let ?st = "(ex_state 1 ''A'')\<lparr>rq_context := (new_context kNoTimeout)\<lparr>ctx_cancelled := True\<rparr>\<rparr>"
  let ?m = "m\<lparr>cancellations := cancellations m + 1\<rparr>"
  have c: "CancelContext 0 (run_state [(1, 0)] [] (rqs(0 := ex_state 1 ''A'')) n (Suc 0) idem [] [] ?m) =
      run_state [(1, 0)] [] (rqs(0 := ?st)) n (Suc 0) idem [] [] ?m" for idem
    by (simp add: CancelContext_def ContextCancel_def) (simp add: ex_state_def)
  have w: "RemoveWaiter 0 ex_key (run_state reqs out rqs' n k [(ex_key, ex_record 0 ''A'')] [] [] m') =
      run_state reqs out rqs' n k [] [] [] m'" for reqs out rqs' k m'
    by (simp add: RemoveWaiter_def ex_record_def Let_def AList.delete_eq)
  have f: "Finish 0 0 (MakeStatusResponse 1 RPC_CANCELLED []) (run_state [(1, 0)] [] (rqs(0 := ?st)) n (Suc 0) [] [] [] ?m) =
      run_state [] [cancel_answer] (rqs(0 := cancelled_A)) n 0 [] [] [] (?m\<lparr>requests_completed := requests_completed ?m + 1\<rparr>)"
    by (subst complete_run [where rid = 1 and b = "''A''" and ctx = "(new_context kNoTimeout)\<lparr>ctx_cancelled := True\<rparr>" and reqs' = "[]"])
      (simp_all add: cancel_answer_fits AList.delete_eq cancelled_A_def)
  have k: "rq_idempotency_key ?st = ex_key" by simp
  have "OnFrame echo_code 0 now submitted 0 \<lparr>header = \<lparr>flags = 0, message_type = CANCEL, request_id = 1\<rparr>, metadata = [], body = []\<rparr> sv =
      ServerCancel 0 0 1 sv" for sv by (simp add: OnFrame_def)
  then show ?thesis using f by (simp add: ServerCancel_def Let_def c w)
qed

definition metrics_A :: RpcServerMetrics where
  "metrics_A = no_server_metrics\<lparr>accepted_connections := 1, requests_received := 1\<rparr>"

definition state_A :: RpcServer where
  "state_A = run_state [(1, 0)] [] ((\<lambda>_. dead_request)(0 := ex_state 1 ''A'')) 1 1 [(ex_key, ex_record 0 ''A'')] []
     [(0, ex_request 1 ''A'')] metrics_A"

lemma run_A: "echo_run (sys_of state_A)"
proof -
  have eq: "OnFrame echo_code 0 (\<lambda>_. 0) (\<lambda>_. True) 0 (ex_frame 1 ''A'') one_conn = state_A"
    unfolding one_conn_state frame_run by (simp add: state_A_def metrics_A_def)
  show ?thesis
    by (rule reach_eq_step [OF run_one_conn],
        rule s_frame [where c = 0 and arrival = 0 and now = "\<lambda>_. 0" and submitted = "\<lambda>_. True" and f = "ex_frame 1 ''A''"])
      (simp_all add: sys_of_def eq, simp add: one_conn_state)
qed

definition metrics_B :: RpcServerMetrics where
  "metrics_B = metrics_A\<lparr>cancellations := cancellations metrics_A + 1, requests_completed := requests_completed metrics_A + 1,
     requests_received := requests_received metrics_A + 1\<rparr>"

definition state_B :: RpcServer where
  "state_B = run_state [(2, 1)] [cancel_answer] ((\<lambda>_. dead_request)(0 := cancelled_A, 1 := ex_state 2 ''B'')) 2 1
     [(ex_key, ex_record 1 ''B'')] [] [(1, ex_request 2 ''B'')] metrics_B"

definition state_C :: RpcServer where
  "state_C = run_state [] [cancel_answer] ((\<lambda>_. dead_request)(0 := cancelled_A)) 1 0 [] [] []
     (metrics_A\<lparr>cancellations := cancellations metrics_A + 1, requests_completed := requests_completed metrics_A + 1\<rparr>)"

lemma run_C: "echo_run \<lparr>server = state_C, running = [(0, ex_request 1 ''A'')], completions = []\<rparr>"
proof -
  let ?rq = "(\<lambda>_. dead_request)(0 := ex_state 1 ''A'')"
  let ?A = "run_state [(1, 0)] [] ?rq 1 (Suc 0) [(ex_key, ex_record 0 ''A'')] [] [] metrics_A"
  let ?J = "(0, ex_request 1 ''A'')"
  have r1: "echo_run \<lparr>server = ?A, running = [?J], completions = []\<rparr>"
    by (rule reach_eq_step [OF run_A], rule s_pool_start [where a = 0 and request = "ex_request 1 ''A''" and
          e = "\<lparr>max_queue = 4096, pool_tasks = [?J], pool_stopping = False\<rparr>" and
          e' = "\<lparr>max_queue = 4096, pool_tasks = [], pool_stopping = False\<rparr>"])
      (simp_all add: sys_of_def state_A_def PoolTake_def is_cancelled_def, simp_all add: ex_state_def new_context_def)
  show ?thesis
    by (rule reach_eq_step [OF r1], rule s_frame [where c = 0 and arrival = 0 and now = "\<lambda>_. 0" and submitted = "\<lambda>_. True" and
          f = "\<lparr>header = \<lparr>flags = 0, message_type = CANCEL, request_id = 1\<rparr>, metadata = [], body = []\<rparr>"])
      (simp_all add: cancel_run state_C_def)
qed

lemma run_B: "echo_run \<lparr>server = state_B, running = [], completions = [(0, stamp 1 (echo_response ''A''), True)]\<rparr>"
proof -
  have r3: "echo_run \<lparr>server = state_B, running = [(0, ex_request 1 ''A'')], completions = []\<rparr>"
    by (rule reach_eq_step [OF run_C],
        rule s_frame [where c = 0 and arrival = 0 and now = "\<lambda>_. 0" and submitted = "\<lambda>_. True" and f = "ex_frame 2 ''B''"])
      (simp_all add: state_C_def frame_run state_B_def metrics_B_def numeral_2_eq_2)
  show ?thesis
    by (rule reach_eq_step [OF r3], rule s_pool_done [where a = 0 and request = "ex_request 1 ''A''"])
      (simp_all add: RunHandler_def ex_request_def)
qed

end
