(* ===== verification/ServerProperties.thy ===== *)
theory ServerProperties
  imports ServerRuns
begin

text \<open>
  The properties of the server: what holds in every state it can reach, how a request is answered,
  how a repeated request is treated, and runs that show what goes wrong.
\<close>

section \<open>The end of a request\<close>

lemma Abandon_proj [simp]: "sv_conns (Abandon a sv) = sv_conns sv" "sv_accepting (Abandon a sv) = sv_accepting sv"
  by (simp_all add: Abandon_def CancelContext_def RemoveWaiter_def upd_request_def Let_def split: option.split)

lemma fold_Abandon_proj [simp]:
  "sv_conns (fold Abandon as sv) = sv_conns sv" "sv_accepting (fold Abandon as sv) = sv_accepting sv"
  by (induction as arbitrary: sv) simp_all

lemma CloseCore_closes: "closed (conn_at (CloseCore c sv) c)" "sv_accepting (CloseCore c sv) = sv_accepting sv"
  by (simp_all add: CloseCore_eq detach_conns) (simp add: detach_def upd_conn_def)

lemma ServerClose_closes: "sv_accepting sv \<Longrightarrow> closed (conn_at (ServerClose c sv) c)" "sv_accepting sv \<Longrightarrow> sv_accepting (ServerClose c sv)"
  by (simp_all add: ServerClose_def ServerMaybeFinishDrain_def CloseCore_closes)

text \<open>A queue that wakes the writer.\<close>

definition with_queued :: "string \<Rightarrow> ServerConnection \<Rightarrow> ServerConnection" where
  "with_queued bytes cn = cn\<lparr>sc_outbound_bytes := sc_outbound_bytes cn + length bytes, sc_outbound := sc_outbound cn @ [bytes],
     sc_writer := (case sc_writer cn of SW_Waiting \<Rightarrow> SW_Running | w \<Rightarrow> w)\<rparr>"

lemma QueueFrame_outcome:
  assumes "\<not> closed (conn_at sv c)" "sv_accepting sv"
  shows "conn_at (snd (QueueFrame c f sv)) c = (case Encode f of Inr bytes \<Rightarrow>
        if length bytes + sc_outbound_bytes (conn_at sv c) \<le> max_outbound_bytes_per_connection (sv_options sv)
        then with_queued bytes (conn_at sv c) else conn_at (ServerClose c sv) c
      | Inl _ \<Rightarrow> conn_at (ServerClose c sv) c) \<and> sv_accepting (snd (QueueFrame c f sv))"
  using assms ServerClose_closes(2) [OF assms(2), of c]
  by (auto simp: QueueFrame_def QueueEncoded_def with_queued_def upd_conn_def Let_def split: sum.split ServerWriterPc.split)

section \<open>Properties of every reachable state\<close>

text \<open>
  C2. The books of the server are right in every state it can reach, whatever the clients send, the
  handlers return and the threads interleave: the number of requests in flight is the number of
  accepted requests that are not answered, the number of connections is the number of open
  ones, and both are within the configured limits; a connection holds no more requests and queued
  bytes than configured, its byte counter is exact, and its writer never sleeps on a non-empty
  queue; the idempotency table is within its limit.
\<close>

theorem server_accounting:
  assumes "reach (server_start opts code) (server_step code) s"
  shows "inflight_count (server s) = card {a. \<not> rq_completed (request_at (server s) a)} \<and>
    inflight_count (server s) \<le> max_inflight_requests opts \<and>
    active_connections (server s) = card {c. \<not> closed (conn_at (server s) c)} \<and>
    active_connections (server s) \<le> max_connections opts \<and>
    length (idempotency (server s)) \<le> max_idempotency_entries opts \<and>
    length (sc_requests (conn_at (server s) c)) \<le> max_inflight_per_connection opts \<and>
    sc_outbound_bytes (conn_at (server s) c) = sum_list (map length (sc_outbound (conn_at (server s) c))) \<and>
    sc_outbound_bytes (conn_at (server s) c) \<le> max_outbound_bytes_per_connection opts \<and>
    \<not> (sc_outbound (conn_at (server s) c) \<noteq> [] \<and> sc_writer (conn_at (server s) c) = SW_Waiting)"
proof -
  note inv = reach_server_inv(1) [OF assms] and o = reach_options [OF assms]
  have A: "inv_A {} (server s)" and B: "inv_B (server s)" and C: "inv_C {} (server s)" using inv by (simp_all add: sv_inv_def)
  note ok = conn_okD [OF inv_AD(4) [OF A, of c]]
  have "active_connections (server s) = card {c. \<not> closed (conn_at (server s) c)}"
    using B distinct_card [of "attached (server s)"] by (simp add: inv_B_def)
  then show ?thesis
    using inv_AD(2,3) [OF A] B inv_CD(2) [OF C] ok by (auto simp: live_def inv_B_def o)
qed

theorem server_accounting_witness:
  "\<exists>s. reach (server_start default_server_options echo_code) (server_step echo_code) s \<and> active_connections (server s) = 1 \<and>
     active_connections (server s) = card {c. \<not> closed (conn_at (server s) c)}"
proof (intro exI [of _ "sys_of one_conn"] conjI run_one_conn)
  show "active_connections (server (sys_of one_conn)) = card {c. \<not> closed (conn_at (server (sys_of one_conn)) c)}"
    using server_accounting [OF run_one_conn] by blast
qed (simp add: sys_of_def one_conn_def)

text \<open>
  C6. No accepted request is forgotten: while the server is not stopped, every request that is accepted and not yet
  answered is in the table of its open connection, and somebody will answer it. Its job is queued
  at an executor, running, or its result is posted; if it has an idempotency key this may be the job of another
  request with the same key, or its response is posted to its shard. The server has not crashed on a
  missing executor either, provided it was not given a view selector alone.
\<close>

theorem no_request_forgotten:
  assumes "reach (server_start opts code) (server_step code) s" "\<not> stopped (server s)"
    and "execution_mode_view_selector code = None \<or> execution_mode_selector code \<noteq> None"
    and "\<not> rq_completed (request_at (server s) a)"
  shows "\<not> crashed (server s) \<and> has_answer (pending_jobs s) (server s) a \<and>
    \<not> closed (conn_at (server s) (rq_conn (request_at (server s) a))) \<and>
    map_of (sc_requests (conn_at (server s) (rq_conn (request_at (server s) a)))) (rq_request_id (request_at (server s) a)) = Some a"
proof -
  let ?sv = "server s" and ?c = "rq_conn (request_at (server s) a)"
  note inv = reach_server_inv [OF assms(1)]
  have A: "inv_A {} ?sv" using inv(1) by (simp add: sv_inv_def)
  have live: "a \<in> live ?sv" using assms(4) by (simp add: live_def)
  have m: "(rq_request_id (request_at ?sv a), a) \<in> set (sc_requests (conn_at ?sv ?c))" using inv_AD(5) [OF A live] by simp
  note ok = conn_okD [OF inv_AD(4) [OF A, of ?c]]
  have cr: "\<not> crashed ?sv" using inv(4) assms(3) unfolding exec_ok_def by blast
  then have "has_answer (pending_jobs s) ?sv a" using servedD [OF inv(3) assms(2) _ live] by simp
  moreover have "\<not> closed (conn_at ?sv ?c)" using ok(3) m by auto
  moreover have "map_of (sc_requests (conn_at ?sv ?c)) (rq_request_id (request_at ?sv a)) = Some a" using m ok(1) by simp
  ultimately show ?thesis using cr by blast
qed

theorem no_request_forgotten_witness:
  "\<exists>s. reach (server_start default_server_options echo_code) (server_step echo_code) s \<and>
     \<not> rq_completed (request_at (server s) 0) \<and> has_answer (pending_jobs s) (server s) 0"
proof (intro exI [of _ "sys_of state_A"] conjI run_A)
  have p: "\<not> stopped (server (sys_of state_A))" "execution_mode_view_selector echo_code = None \<or> execution_mode_selector echo_code \<noteq> None"
    "\<not> rq_completed (request_at (server (sys_of state_A)) 0)"
    by (simp_all add: sys_of_def state_A_def echo_code_def)
  from p(3) show "\<not> rq_completed (request_at (server (sys_of state_A)) 0)" .
  from no_request_forgotten [OF run_A p] show "has_answer (pending_jobs (sys_of state_A)) (server (sys_of state_A)) 0" by blast
qed



section \<open>Answers\<close>

text \<open>The response a request gets: a late one is replaced by the deadline status.\<close>

definition answer_of :: "RequestState \<Rightarrow> u64 \<Rightarrow> Frame \<Rightarrow> Frame" where
  "answer_of rq now resp = stamp (rq_request_id rq)
     (if rq_deadline_ms rq \<noteq> kNoTimeout \<and> now \<ge> rq_deadline_ms rq
      then MakeStatusResponse (rq_request_id rq) RPC_DEADLINE_EXCEEDED [] else resp)"

lemma Finish_conn:
  assumes "\<not> rq_completed (request_at sv a)" "\<not> closed (conn_at sv (rq_conn (request_at sv a)))"
    "\<not> draining (conn_at sv (rq_conn (request_at sv a)))" "sv_accepting sv"
    and c: "c = rq_conn (request_at sv a)" and rid: "rid = rq_request_id (request_at sv a)"
  obtains sv1 where "conn_at sv1 c = (conn_at sv c)\<lparr>sc_requests := AList.delete rid (sc_requests (conn_at sv c))\<rparr>"
    "sv_options sv1 = sv_options sv" "sv_accepting sv1"
    "conn_at (Finish a now resp sv) c = conn_at (snd (QueueFrame c (answer_of (request_at sv a) now resp) sv1)) c"
proof -
  let ?rq = "request_at sv a"
  let ?late = "rq_deadline_ms ?rq \<noteq> kNoTimeout \<and> now \<ge> rq_deadline_ms ?rq"
  define sv0 where "sv0 = (if ?late then count_metric (\<lambda>m. m\<lparr>requests_timed_out := requests_timed_out m + 1\<rparr>)
    (CancelContext a (upd_request a (?rq\<lparr>rq_completed := True\<rparr>) sv)) else upd_request a (?rq\<lparr>rq_completed := True\<rparr>) sv)"
  define sv1 where "sv1 = drop_request c rid
    (count_metric (\<lambda>m. m\<lparr>requests_completed := requests_completed m + 1\<rparr>) (sv0\<lparr>inflight_count := inflight_count sv0 - 1\<rparr>))"
  have 1: "conn_at sv1 c = (conn_at sv c)\<lparr>sc_requests := AList.delete rid (sc_requests (conn_at sv c))\<rparr>"
    "sv_options sv1 = sv_options sv" "sv_accepting sv1"
    using assms(4) by (simp_all add: sv1_def sv0_def drop_request_def upd_conn_def count_metric_def CancelContext_def upd_request_def)
  let ?sv2 = "snd (QueueFrame c (answer_of ?rq now resp) sv1)"
  have eq: "Finish a now resp sv = (let sv2 = MaybeCloseAfterDrain c ?sv2 in ServerMaybeFinishDrain (shard_of sv2 a) sv2)"
    using assms(1) c rid
    by (simp add: Finish_def CompleteRequest_def sv1_def sv0_def drop_request_def answer_of_def Let_def)
  have cl: "\<not> closed (conn_at sv1 c)" "\<not> draining (conn_at sv1 c)" using assms(2,3) 1(1) c by simp_all
  note out = QueueFrame_outcome [OF cl(1) 1(3), of "answer_of ?rq now resp"]
  have "draining (conn_at ?sv2 c) \<longrightarrow> closed (conn_at ?sv2 c)"
    using out cl ServerClose_closes(1) [OF 1(3), of c] by (auto simp: with_queued_def split: sum.splits if_splits)
  then have "MaybeCloseAfterDrain c ?sv2 = ?sv2" by (auto simp: MaybeCloseAfterDrain_def Let_def)
  then have "Finish a now resp sv = ?sv2" using eq out by (simp add: ServerMaybeFinishDrain_def Let_def)
  then show ?thesis using that [OF 1] by simp
qed



section \<open>Repeated requests\<close>

text \<open>No operation that ends requests touches a completed record.\<close>

definition settled :: "RpcServer \<Rightarrow> RpcServer \<Rightarrow> bool" where
  "settled sv sv' \<longleftrightarrow> (\<forall>k r. map_of (idempotency sv) k = Some r \<and> \<not> pending r \<longrightarrow> map_of (idempotency sv') k = Some r)"

lemma settled_refl [simp]: "settled sv sv"
  by (simp add: settled_def)

lemma settled_trans: "settled sv1 sv2 \<Longrightarrow> settled sv2 sv3 \<Longrightarrow> settled sv1 sv3"
  by (simp add: settled_def)

lemma settled_eq: "idempotency sv' = idempotency sv \<Longrightarrow> settled sv sv'"
  by (simp add: settled_def)

lemma fold_settled: "(\<And>x sv. settled sv (f x sv)) \<Longrightarrow> settled sv (fold f xs sv)"
  by (induction xs arbitrary: sv) (auto intro: settled_trans)

lemma RemoveWaiter_settled: "settled sv (RemoveWaiter a key sv)"
  by (auto simp: settled_def RemoveWaiter_def Let_def delete_conv' update_conv' split: option.splits)

lemma Abandon_settled: "settled sv (Abandon a sv)"
proof (cases "rq_completed (request_at sv a)")
  case False
  then show ?thesis
    using settled_trans [OF RemoveWaiter_settled [of sv a "rq_idempotency_key (request_at sv a)"] settled_eq]
    by (simp add: Abandon_live settled_eq)
qed (simp add: Abandon_def)

lemma CloseCore_settled: "settled sv (CloseCore c sv)"
  by (auto simp: CloseCore_eq intro: settled_trans [OF settled_eq fold_settled] Abandon_settled)

lemma StopNow_settled: "settled sv (StopNow sv)"
proof -
  have "settled (sv\<lparr>stopped := True, sv_accepting := False, listening := False\<rparr>)
      (fold CloseCore xs (sv\<lparr>stopped := True, sv_accepting := False, listening := False\<rparr>))" for xs
    by (rule fold_settled) (rule CloseCore_settled)
  then show ?thesis by (simp add: StopNow_def settled_def Let_def)
qed

lemma ServerMaybeFinishDrain_settled: "settled sv (ServerMaybeFinishDrain k sv)"
  by (simp add: ServerMaybeFinishDrain_def StopNow_settled settled_eq)

lemma ServerClose_settled: "settled sv (ServerClose c sv)"
  using settled_trans [OF CloseCore_settled ServerMaybeFinishDrain_settled] by (simp add: ServerClose_def)

lemma QueueFrame_settled: "settled sv (snd (QueueFrame c f sv))"
  by (auto simp: QueueFrame_def QueueEncoded_def ServerClose_settled upd_conn_def Let_def intro!: settled_eq split: sum.split)

lemma MaybeCloseAfterDrain_settled: "settled sv (MaybeCloseAfterDrain c sv)"
  by (simp add: MaybeCloseAfterDrain_def ServerClose_settled Let_def)

lemma Finish_settled: "settled sv (Finish a now resp sv)"
proof (cases "rq_completed (request_at sv a)")
  case False
  have c: "settled sv (CompleteRequest c rid f sv)" for c rid f sv
    unfolding CompleteRequest_def Let_def
    by (rule settled_trans [OF settled_trans [OF settled_eq QueueFrame_settled] MaybeCloseAfterDrain_settled]) (simp add: upd_conn_def)
  from Finish_steps [OF False, of now resp] obtain resp' sv1 where
    eq: "Finish a now resp sv = (let sv2 = CompleteRequest (rq_conn (request_at sv a)) (rq_request_id (request_at sv a)) resp' sv1
       in ServerMaybeFinishDrain (shard_of sv2 a) sv2)" and i: "idempotency sv1 = idempotency sv" by blast
  show ?thesis unfolding eq Let_def by (rule settled_trans [OF settled_trans [OF settled_eq [OF i] c] ServerMaybeFinishDrain_settled])
qed (simp add: Finish_def)

lemma FinishOnOwner_settled: "settled sv (FinishOnOwner k now resp ws sv)"
proof (induction ws arbitrary: sv)
  case (Cons a ws)
  show ?case unfolding FinishOnOwner.simps by (rule settled_trans [OF _ Cons]) (simp add: Finish_settled settled_eq)
qed simp



section \<open>What goes wrong\<close>

text \<open>
  C39. A worker that finishes late answers somebody else's request. A request with an idempotency
  key is cancelled while its handler runs, which removes its record; a new request with the same key and
  another body is then accepted and gets a record of its own. When the old handler returns, its
  response is delivered to the new request: a run of a server whose handler echoes the body ends with
  request 2, whose body is \<open>B\<close>, answered with the body \<open>A\<close>.
\<close>

theorem stale_completion_answers_other:
  "\<exists>s f. reach (server_start default_server_options echo_code) (server_step echo_code) s \<and>
     sc_outbound (conn_at (server s) 0) = [frame_bytes cancel_answer, frame_bytes f] \<and>
     request_id (header f) = 2 \<and> body f = ''A'' \<and>
     pool_tasks (the (executor (server s))) = [(1, ex_request 2 ''B'')] \<and> rq_completed (request_at (server s) 1)"
proof -
  let ?resp = "stamp 1 (echo_response ''A'')"
  let ?rqs = "(\<lambda>_. dead_request)(0 := cancelled_A, 1 := ex_state 2 ''B'')"
  let ?t = "[(ex_key, (ex_record 1 ''B'')\<lparr>waiters := [], pending := False, rec_response := ?resp\<rparr>)]"
  let ?sv = "run_state [(2, 1)] [cancel_answer] ?rqs 2 1 ?t [ex_key] [(1, ex_request 2 ''B'')] metrics_B"
  have key: "rq_idempotency_key (request_at state_B 0) = ex_key" "shard_of state_B 0 = 0"
    by (simp_all add: state_B_def cancelled_A_def)
  have c: "OnWorkerCompletion (\<lambda>_. 0) 0 ?resp True state_B = Finish 1 0 ?resp ?sv"
    by (simp add: OnWorkerCompletion_def key FinishIdempotent_def) (simp add: state_B_def Prune_def Let_def)
  have fits: "frame_fits (stamp 2 ?resp)" "length (frame_bytes (stamp 2 ?resp)) = 33"
    using fits_response [of 2 "''A''" ?resp] by (simp_all add: stamp_def echo_response_def empty_frame_def)
  let ?last = "run_state [] [cancel_answer, stamp 2 ?resp] (?rqs(1 := (ex_state 2 ''B'')\<lparr>rq_completed := True\<rparr>)) 2 0 ?t [ex_key]
    [(1, ex_request 2 ''B'')] (metrics_B\<lparr>requests_completed := requests_completed metrics_B + 1\<rparr>)"
  have f: "Finish 1 0 ?resp ?sv = ?last"
    unfolding One_nat_def
    by (subst complete_run [where rid = 2 and b = "''B''" and ctx = "new_context kNoTimeout" and reqs' = "[]"])
      (simp_all add: fits cancel_answer_fits AList.delete_eq, simp_all add: ex_state_def)
  have r: "echo_run (sys_of ?last)"
    by (rule reach_eq_step [OF run_B], rule s_completion [where xs = "[]" and ys = "[]" and now = "\<lambda>_. 0"])
      (simp, simp add: c f [unfolded One_nat_def] sys_of_def)
  show ?thesis
    by (intro exI [of _ "sys_of ?last"] exI [of _ "stamp 2 ?resp"] conjI r)
      (simp_all add: sys_of_def, simp_all add: stamp_def echo_response_def)
qed

lemma CloseCore_other: "closed (conn_at sv c) \<Longrightarrow> conn_at (CloseCore d sv) c = conn_at sv c"
  by (cases "d = c") (simp_all add: CloseCore_eq detach_conns)

lemma fold_CloseCore_other: "closed (conn_at sv c) \<Longrightarrow> conn_at (fold CloseCore ds sv) c = conn_at sv c"
proof (induction ds arbitrary: sv)
  case (Cons d ds)
  then show ?case using CloseCore_other [OF Cons.prems, of d] by simp
qed simp

lemma ServerMaybeFinishDrain_other: "closed (conn_at sv c) \<Longrightarrow> conn_at (ServerMaybeFinishDrain k sv) c = conn_at sv c"
  by (simp add: ServerMaybeFinishDrain_def StopNow_def Let_def fold_CloseCore_other)

lemma ServerClose_writing:
  assumes "\<not> closed (conn_at sv c)" "sc_writer (conn_at sv c) = SW_Writing batch"
  shows "closed (conn_at (ServerClose c sv) c) \<and> sc_writer (conn_at (ServerClose c sv) c) = SW_Writing batch"
proof -
  have "sc_writer (conn_at (CloseCore c sv) c) = SW_Writing batch"
    using assms by (simp add: CloseCore_eq) (simp add: detach_def upd_conn_def)
  then show ?thesis using assms(1) CloseCore_closes(1) ServerMaybeFinishDrain_other [OF CloseCore_closes(1)] by (simp add: ServerClose_def)
qed

text \<open>
  C40. A graceful drain can cut off a response: a connection whose last response is being written
  has an empty queue and no request left, so the beginning of a drain closes its socket at once,
  while the writer is still inside \<open>WriteAll\<close>. In the run below the client's cancellation has been
  answered and the answer is being written when the drain begins.
\<close>

theorem drain_cuts_write:
  "\<exists>s s'. reach (server_start default_server_options echo_code) (server_step echo_code) s \<and> server_step echo_code s s' \<and>
     s' = s\<lparr>server := ServerBeginDrain 5 (server s)\<rparr> \<and>
     sc_writer (conn_at (server s) 0) = SW_Writing (frame_bytes cancel_answer) \<and> \<not> closed (conn_at (server s) 0) \<and>
     closed (conn_at (server s') 0) \<and> sc_writer (conn_at (server s') 0) = SW_Writing (frame_bytes cancel_answer)"
proof -
  let ?cn = "(run_conn [] [])\<lparr>sc_writer := SW_Writing (frame_bytes cancel_answer)\<rparr>"
  let ?sv = "upd_conn 0 ?cn state_C"
  let ?s = "\<lparr>server = ?sv, running = [(0, ex_request 1 ''A'')], completions = []\<rparr>"
  have "ServerBatch [frame_bytes cancel_answer] [] (length (frame_bytes cancel_answer)) = (frame_bytes cancel_answer, [], 0)" by simp
  then have w: "ServerWriterRound 0 state_C = ?sv"
    by (simp add: ServerWriterRound_def Let_def state_C_def) (simp add: run_conn_def)
  have r: "echo_run ?s"
    by (rule reach_eq_step [OF run_C], rule s_writer [where c = 0]) (simp add: state_C_def, simp add: w)
  have c: "conn_at ?sv 0 = ?cn" "attached ?sv = [0]" "sv_accepting ?sv" "\<not> stopped ?sv"
    by (simp_all add: upd_conn_def state_C_def run_state_def one_conn_def echo_server_def)
  have d: "closed (conn_at (ServerBeginDrain 5 ?sv) 0) \<and>
      sc_writer (conn_at (ServerBeginDrain 5 ?sv) 0) = SW_Writing (frame_bytes cancel_answer)"
  proof -
    let ?sv1 = "?sv\<lparr>sv_accepting := False, listening := False\<rparr>"
    let ?sv2 = "upd_conn 0 (?cn\<lparr>draining := True\<rparr>) ?sv1"
    have "conn_at ?sv2 0 = ?cn\<lparr>draining := True\<rparr>" by (simp add: upd_conn_def)
    note cl = ServerClose_writing [of ?sv2 0 "frame_bytes cancel_answer", unfolded this, simplified]
    have "DrainShard 0 ?sv1 = ConnBeginDrain 0 ?sv1" using c by (simp add: DrainShard_def)
    also have "\<dots> = ServerClose 0 ?sv2" using c by (simp add: ConnBeginDrain_def MaybeCloseAfterDrain_def Let_def) (simp add: upd_conn_def)
    finally have "ServerBeginDrain 5 ?sv = (let sv = ServerClose 0 ?sv2 in if stopped sv then sv else ServerMaybeFinishDrain 0 sv)"
      using c by (simp add: ServerBeginDrain_def Let_def)
    then show ?thesis using cl ServerMaybeFinishDrain_other [of "ServerClose 0 ?sv2" 0 0] by (simp add: Let_def)
  qed
  show ?thesis
    by (intro exI [of _ ?s] exI [of _ "?s\<lparr>server := ServerBeginDrain 5 (server ?s)\<rparr>"] conjI r s_drain refl) (use c d in simp_all)
qed

end
