(* ===== verification/Spec2Isabelle.thy ===== *)
theory Spec2Isabelle
  imports FrameStream TimerWheel CircuitBreaker ConnectionRuns ClientRoutes ServerProperties
begin

text \<open>
  A verification development for CoroRPC, a C++17 RPC framework on stackful coroutines. Paths below are
  relative to \<open>src/rpc_src/\<close>.

  \<^bold>\<open>The program.\<close> A client looks up a server for a service and a method in a table of endpoints, which
  service discovery publishes, takes or opens a connection to it and sends a request frame; many calls share a
  connection and responses are matched to calls by request id. A server reads frames, admits or
  refuses requests, runs their handlers on the network thread, on a thread pool or on coroutine
  workers, and writes the responses back. Client and server are split into shards: a thread with
  a coroutine runtime of its own, which alone touches the connections of the shard; other threads post tasks to it.
  Waiting, in coroutines, is driven by a timer wheel and by epoll.

  \<^bold>\<open>Theories.\<close>

  \<^item> \<open>CoroPrelude\<close>: machine words, their bytes in memory, \<open>memcpy\<close> into a buffer; reachability of a
    step relation and the locale \<open>invariant_system\<close>, which every component with interleaved
    steps interprets.
  \<^item> \<open>RpcMetadata\<close>, \<open>Frame\<close>: the encoders and decoders of \<open>protocol/rpc_metadata.cpp\<close> and the encoder
    of \<open>protocol/frame.cpp\<close>. What is written is read back, and only that is accepted.
  \<^item> \<open>StreamParser\<close>, \<open>FrameDecoder\<close>, \<open>FrameStream\<close>: the class \<open>FrameDecoder\<close> on its buffer, refined to an abstract
    parser of the byte stream (locale \<open>stream_parser\<close>); the frames that come out do not depend on how the stream is
    cut, and no operation leaves the buffer or exceeds its limit.
  \<^item> \<open>TimerList\<close>, \<open>DeadlineHeap\<close>, \<open>TimerWheel\<close>: \<open>runtime/timer_wheel.cpp\<close> on an explicit store of nodes: intrusive
    lists refined to sequences, an indexed binary heap refined to a priority queue, and the wheel over both,
    whose \<open>Advance\<close> hands out exactly the timers that are due.
  \<^item> \<open>ServiceTypes\<close>, \<open>CircuitBreaker\<close>: statuses, call options and endpoints of \<open>transport/\<close>; the lock-free
    breaker of \<open>transport/rpc_client.cpp\<close>, each atomic operation a step.
  \<^item> \<open>Connection\<close>, \<open>ConnectionInvariant\<close>, \<open>ConnectionRuns\<close>: \<open>transport/multiplexed_connection.cpp\<close>. The
    operations are cut where a coroutine can be suspended; \<open>conn_step\<close> interleaves callers, reader,
    writer and the loop that completes calls.
  \<^item> \<open>ClientShards\<close>, \<open>ClientRouting\<close>, \<open>ClientRoutes\<close>: \<open>transport/rpc_client.cpp\<close>: reservation of slots and posting of tasks to
    shards, and the table of services with its per-shard route caches and connections.
  \<^item> \<open>HashTable\<close>, \<open>Dispatcher\<close>: the interface of \<open>std::unordered_map\<close> and \<open>transport/service_dispatcher.cpp\<close>, with the
    thread-local lookup cache under concurrent registration.
  \<^item> \<open>ServerSupport\<close>, \<open>Server\<close>: \<open>transport/rpc_server.cpp\<close>. The first holds the request context, the
    idempotency keys and the two executors; the second the connections, requests and idempotency
    table of the server with all operations on them, and \<open>server_step\<close>, the interleaving of all its
    threads. \<open>ServerInvariant\<close>, \<open>ServerSteps\<close>, \<open>ServerRequests\<close> and \<open>ServerSystem\<close> prove its invariant operation by operation,
    \<open>ServerRuns\<close> draws the consequences and has sample runs, \<open>ServerProperties\<close> states the properties.

  \<^bold>\<open>How code becomes definitions.\<close> A definition has the name of the function it models; where two classes have a method of
    the same name, one carries the class (\<open>WheelAdd\<close>, \<open>ServerClose\<close>). State is a record with the members of the
  class; a pointer that is shared or compared is an address into a store. Exceptions and error returns are
  \<open>Inl\<close> or \<open>None\<close>. Integers whose overflow the code relies on or risks are words of their width; sizes and
  counters that limits keep small are naturals. Results of system calls, the clock, the code of the
  application and what other threads have done meanwhile are arguments or are left open by
  the step relations, so that the properties hold for all of them. A stretch of code that runs without
  suspension, or under a lock, is one step; an atomic variable that others can change between two
  accesses splits a function into several steps (\<open>OpenBegin\<close>, \<open>LookupCached\<close>, \<open>PublishStore\<close>).

  \<^bold>\<open>What is shown.\<close> For each component an invariant of every reachable state, the behaviour of its operations on
  every branch, and what its users rely on: streams and envelopes are read back as written; timers are neither lost nor early;
  a call gets the response to its own request and is woken when its connection closes; slots of a
  shard and counters of the server are exact and within their limits; a route that is cached is a route
  of the current table; an accepted request always has somebody who will answer it, is answered
  once, and a repeated one is answered from memory. Where the code does not do what it means to, a run of the
  model shows it: the properties of kind \<open>error\<close> are such runs.

  \<^bold>\<open>Bounds and fuel.\<close> No definition uses fuel: loops are structural recursions or functions with a termination
  proof, and the loops over linked nodes are partial functions into \<open>option\<close>, with the proof that
  they return on every reachable store.

  \<^bold>\<open>Not modelled.\<close> The context switch (\<open>runtime/coroutine_context_x86_64.S\<close>, \<open>stack_allocator\<close>), which manipulates machine
  state below the level of the model, the coroutine scheduler and \<open>IoManager\<close> around it, whose effect the components see
  as suspension and resumption; sockets and epoll, which are system calls; the ZooKeeper clients of \<open>discovery/\<close>, which are callbacks
  of a C library; the helper coroutines of \<open>task/\<close> and the memory pool; the two main programs; the JSON library in
  \<open>third_part\<close>, which is third-party code. Of the server, the configuration of sockets, creating and joining threads,
  the registry calls and the recycling of encode buffers are left out.
\<close>

end
